(* ===== verification/Prelude.thy ===== *)
theory Prelude
  imports Main "HOL-Library.Multiset"
begin

text \<open>
  Shared vocabulary of the development: faults (C++ exceptions, failed assertions and
  undefined behaviour) as values of a sum type, nullable pointers, \<open>size_t\<close> arithmetic with
  its wrap-around written out, and the generic list lemmas the component theories use.
\<close>

section \<open>Faults and results\<close>

text \<open>
  \<open>JExc\<close> is a thrown \<open>JException\<close> (with its message), \<open>AssertFailed\<close> an \<open>assert\<close> that
  aborts the process, and \<open>UndefinedBehaviour\<close> an access the C++ language gives no meaning to
  (an index outside a container, a dereferenced null pointer, a \<open>static_cast\<close> to the wrong
  class).  An operation that can do any of these returns a \<open>result\<close>.
\<close>

datatype fault = JExc string | AssertFailed string | UndefinedBehaviour string

type_synonym 'a result = "fault + 'a"

definition rbind :: "'a result \<Rightarrow> ('a \<Rightarrow> 'b result) \<Rightarrow> 'b result" where
  "rbind r f = (case r of Inl e \<Rightarrow> Inl e | Inr x \<Rightarrow> f x)"

lemma rbind_simps [simp]:
  "rbind (Inl e) f = Inl e"
  "rbind (Inr x) f = f x"
  by (simp_all add: rbind_def)

lemma rbind_Inr_iff: "rbind r f = Inr y \<longleftrightarrow> (\<exists>x. r = Inr x \<and> f x = Inr y)"
  by (cases r) simp_all

lemma rbind_InrE:
  assumes "rbind r f = Inr y"
  obtains x where "r = Inr x" and "f x = Inr y"
  using assms by (auto simp: rbind_Inr_iff)

section \<open>Pointers\<close>

type_synonym 'a ptr = "'a option"

abbreviation nullptr :: "'a ptr" where
  "nullptr \<equiv> None"

section \<open>Unsigned 64-bit arithmetic\<close>

text \<open>
  \<open>size_t\<close> values are naturals below \<open>size_mod\<close>; addition and subtraction reduce modulo
  \<open>size_mod\<close> as the unsigned type does.
\<close>

definition size_mod :: nat where
  "size_mod = 2 ^ 64"

definition sz_add :: "nat \<Rightarrow> nat \<Rightarrow> nat" where
  "sz_add a b = (a + b) mod size_mod"

definition sz_sub :: "nat \<Rightarrow> nat \<Rightarrow> nat" where
  "sz_sub a b = (a + (size_mod - b mod size_mod)) mod size_mod"

lemma size_mod_pos [simp]: "0 < size_mod"
  by (simp add: size_mod_def)

lemma sz_add_exact: "a + b < size_mod \<Longrightarrow> sz_add a b = a + b"
  by (simp add: sz_add_def)

lemma sz_sub_exact:
  assumes "b \<le> a" and "a < size_mod"
  shows "sz_sub a b = a - b"
proof -
  from assms have "b mod size_mod = b" by simp
  then have "sz_sub a b = (a + (size_mod - b)) mod size_mod" by (simp add: sz_sub_def)
  also from assms have "a + (size_mod - b) = (a - b) + size_mod" by simp
  also have "((a - b) + size_mod) mod size_mod = (a - b) mod size_mod" by (rule mod_add_self2)
  also from assms have "(a - b) mod size_mod = a - b" by simp
  finally show ?thesis .
qed

lemma sz_sub_wraps:
  assumes "a < b" and "b < size_mod"
  shows "sz_sub a b = size_mod - (b - a)"
proof -
  from assms have "b mod size_mod = b" by simp
  then have "sz_sub a b = (a + (size_mod - b)) mod size_mod" by (simp add: sz_sub_def)
  also from assms have "a + (size_mod - b) = size_mod - (b - a)" by simp
  also from assms have "(size_mod - (b - a)) mod size_mod = size_mod - (b - a)" by simp
  finally show ?thesis .
qed

lemma sz_sub_sub_wraps:
  assumes "c < a + b" and "a + b < size_mod"
  shows "sz_sub (sz_sub c a) b = size_mod - (a + b - c)"
proof (cases "a \<le> c")
  case True
  with assms have "sz_sub c a = c - a" by (intro sz_sub_exact) auto
  moreover from True assms have "sz_sub (c - a) b = size_mod - (b - (c - a))"
    by (intro sz_sub_wraps) auto
  ultimately show ?thesis using True by simp
next
  case False
  with assms have "sz_sub c a = size_mod - (a - c)" by (intro sz_sub_wraps) auto
  moreover from False assms have "sz_sub (size_mod - (a - c)) b = size_mod - (a - c) - b"
    by (intro sz_sub_exact) auto
  ultimately show ?thesis using False assms by simp
qed

lemma sz_bounds [simp]: "sz_add a b < size_mod" "sz_sub a b < size_mod"
  by (simp_all add: sz_add_def sz_sub_def)

lemma sz_sub_zero [simp]: "a < size_mod \<Longrightarrow> sz_sub a 0 = a"
  by (simp add: sz_sub_exact)

text \<open>Equality of counters up to wrap-around.\<close>

definition wrap_eq :: "int \<Rightarrow> int \<Rightarrow> bool" where
  "wrap_eq a b \<longleftrightarrow> a mod int size_mod = b mod int size_mod"

lemma wrap_eq_refl [simp]: "wrap_eq a a"
  by (simp add: wrap_eq_def)

lemma wrap_eq_trans: "wrap_eq a b \<Longrightarrow> wrap_eq b c \<Longrightarrow> wrap_eq a c"
  by (simp add: wrap_eq_def)

lemma wrap_eq_add: "wrap_eq a b \<Longrightarrow> wrap_eq c d \<Longrightarrow> wrap_eq (a + c) (b + d)"
  unfolding wrap_eq_def by (rule mod_add_cong)

lemma wrap_eq_sz_add: "wrap_eq (int (sz_add a b)) (int a + int b)"
  by (simp add: wrap_eq_def sz_add_def zmod_int)

section \<open>Round-robin indices\<close>

lemma mod_window:
  fixes j k l :: nat
  assumes "j < k"
  shows "\<exists>i. l \<le> i \<and> i < l + k \<and> i mod k = j"
proof (cases "l mod k \<le> j")
  case True
  let ?i = "l - l mod k + j"
  have "k dvd l - l mod k" by (simp add: minus_mod_eq_mult_div)
  then have "?i mod k = j" using assms by (metis mod_add_self2 mod_add_left_eq dvd_eq_mod_eq_0 add_0 mod_less)
  moreover have "l \<le> ?i" "?i < l + k" using True assms mod_less_eq_dividend [of l k] by auto
  ultimately show ?thesis by blast
next
  case False
  let ?i = "l - l mod k + (j + k)"
  have "k dvd l - l mod k" by (simp add: minus_mod_eq_mult_div)
  then have "?i mod k = j" using assms by (metis mod_add_self2 mod_add_left_eq dvd_eq_mod_eq_0 add_0 mod_less)
  moreover have "l mod k < k" using assms by simp
  then have "l \<le> ?i" "?i < l + k" using False mod_less_eq_dividend [of l k] by auto
  ultimately show ?thesis by blast
qed

section \<open>Lists\<close>

lemma replicate_update_prefix:
  "i < length xs \<Longrightarrow>
     (replicate i x @ drop i xs)[i := x] = replicate (Suc i) x @ drop (Suc i) xs"
  by (simp add: list_update_append Cons_nth_drop_Suc [symmetric] replicate_append_same)

lemma take_Suc_snoc: "i < length xs \<Longrightarrow> take (Suc i) xs = take i xs @ [xs ! i]"
  by (rule take_Suc_conv_app_nth)

lemma update_prefix:
  "i < length xs \<Longrightarrow> length ys = i \<Longrightarrow>
     (ys @ drop i xs)[i := x] = (ys @ [x]) @ drop (Suc i) xs"
  by (simp add: list_update_append Cons_nth_drop_Suc [symmetric])

lemma nth_prefix_drop: "length ys = i \<Longrightarrow> i < length xs \<Longrightarrow> (ys @ drop i xs) ! i = xs ! i"
  by (simp add: nth_append)

lemma distinct_singleton_list: "set xs = {a} \<Longrightarrow> distinct xs \<Longrightarrow> xs = [a]"
  by (cases xs; cases "tl xs") auto

end
