(* ===== verification/EventLevel.thy ===== *)
theory EventLevel
  imports Prelude
begin

text \<open>
  The event levels of \<open>Utils/JEventLevel.h\<close>: the enumeration, its printed names and the order in
  which \<open>next_level\<close> walks through it.
\<close>

datatype JEventLevel =
  Run | Subrun | SlowControls | Timeslice | Block | PhysicsEvent | Subevent | Task | NoLevel

fun toString :: "JEventLevel \<Rightarrow> string" where
  "toString Run = ''Run''"
| "toString Subrun = ''Subrun''"
| "toString Timeslice = ''Timeslice''"
| "toString Block = ''Block''"
| "toString SlowControls = ''SlowControls''"
| "toString PhysicsEvent = ''PhysicsEvent''"
| "toString Subevent = ''Subevent''"
| "toString Task = ''Task''"
| "toString NoLevel = ''None''"

fun next_level :: "JEventLevel \<Rightarrow> JEventLevel" where
  "next_level Run = Subrun"
| "next_level Subrun = Timeslice"
| "next_level Timeslice = Block"
| "next_level Block = SlowControls"
| "next_level SlowControls = PhysicsEvent"
| "next_level PhysicsEvent = Subevent"
| "next_level Subevent = Task"
| "next_level Task = NoLevel"
| "next_level NoLevel = NoLevel"

text \<open>The position of a level in the chain; \<open>next_level\<close> moves one position down.\<close>

fun level_rank :: "JEventLevel \<Rightarrow> nat" where
  "level_rank Run = 8"
| "level_rank Subrun = 7"
| "level_rank Timeslice = 6"
| "level_rank Block = 5"
| "level_rank SlowControls = 4"
| "level_rank PhysicsEvent = 3"
| "level_rank Subevent = 2"
| "level_rank Task = 1"
| "level_rank NoLevel = 0"

lemma level_rank_next: "level_rank (next_level l) = level_rank l - 1"
  by (cases l) simp_all

lemma level_rank_inj: "level_rank l = level_rank l' \<longleftrightarrow> l = l'"
  by (cases l; cases l') simp_all

lemma level_rank_iterate: "level_rank ((next_level ^^ n) l) = level_rank l - n"
  by (induction n) (simp_all add: level_rank_next)

lemma toString_inj: "toString l = toString l' \<longleftrightarrow> l = l'"
  by (cases l; cases l') simp_all

instantiation JEventLevel :: linorder
begin

definition less_eq_JEventLevel :: "JEventLevel \<Rightarrow> JEventLevel \<Rightarrow> bool" where
  "less_eq_JEventLevel a b \<longleftrightarrow> level_rank a \<le> level_rank b"

definition less_JEventLevel :: "JEventLevel \<Rightarrow> JEventLevel \<Rightarrow> bool" where
  "less_JEventLevel a b \<longleftrightarrow> level_rank a < level_rank b"

instance
  by intro_classes (auto simp: less_eq_JEventLevel_def less_JEventLevel_def level_rank_inj)

end

lemma next_level_less: "l \<noteq> NoLevel \<Longrightarrow> next_level l < l"
  by (cases l) (simp_all add: less_JEventLevel_def)

end
