(* ===== verification/Component.thy ===== *)
theory Component
  imports EventLevel
begin

text \<open>
  What every user-facing component shares: the exception type of \<open>JException.h\<close>, the component
  identity and the exception wrapper of \<open>Omni/JComponent.h\<close> and \<open>Omni/JComponentFwd.h\<close>, and the
  callbacks JANA makes into user code.

  User code is outside the library.  A component keeps the list of callbacks made so far; a user
  program is a parameter that decides, from the callback and that history, whether the callback
  throws.  Every deterministic user program has this shape.
\<close>

section \<open>Exceptions\<close>

record JException =
  exception_type :: string
  message :: string
  plugin_name :: string
  type_name :: string
  function_name :: string
  instance_name :: string
  show_stacktrace :: bool

definition new_JException :: "string \<Rightarrow> JException" where
  "new_JException msg =
     \<lparr>exception_type = [], message = msg, plugin_name = [], type_name = [], function_name = [],
      instance_name = [], show_stacktrace = True\<rparr>"

text \<open>What a C++ \<open>throw\<close> in user code can be, as the three handlers of the wrapper see it.\<close>

datatype user_throw =
    ThrowJException JException
  | ThrowStd string string
  | ThrowOther string

text \<open>The status of a component and the style of its user callbacks, from \<open>JComponentFwd.h\<close>.\<close>

datatype ComponentStatus = CUninitialized | CInitialized | COpened | CClosed | CFinalized

datatype CallbackStyle = LegacyMode | ExpertMode | DeclarativeMode

record component_id =
  m_prefix :: string
  m_plugin_name :: string
  m_type_name :: string

definition GetPrefix :: "component_id \<Rightarrow> string" where
  "GetPrefix c = (if m_prefix c = [] then m_type_name c else m_prefix c)"

definition fill :: "string \<Rightarrow> string \<Rightarrow> string" where
  "fill old new = (if old = [] then new else old)"

definition blame :: "component_id \<Rightarrow> string \<Rightarrow> JException \<Rightarrow> JException" where
  "blame c func_name ex =
     ex\<lparr>function_name := func_name, type_name := m_type_name c, instance_name := m_prefix c,
        plugin_name := m_plugin_name c\<rparr>"

fun CallWithJExceptionWrapper :: "string \<Rightarrow> component_id \<Rightarrow> user_throw \<Rightarrow> JException" where
  "CallWithJExceptionWrapper func_name c (ThrowJException ex) =
     ex\<lparr>function_name := fill (function_name ex) func_name,
        type_name := fill (type_name ex) (m_type_name c),
        instance_name := fill (instance_name ex) (m_prefix c),
        plugin_name := fill (plugin_name ex) (m_plugin_name c)\<rparr>"
| "CallWithJExceptionWrapper func_name c (ThrowStd ty msg) =
     blame c func_name ((new_JException msg)\<lparr>exception_type := ty\<rparr>)"
| "CallWithJExceptionWrapper func_name c (ThrowOther ty) =
     blame c func_name ((new_JException ''Unknown exception'')\<lparr>exception_type := ty\<rparr>)"

section \<open>Actions that may throw\<close>

text \<open>A throwing method leaves its object in the state it had reached: state and outcome are returned.\<close>

type_synonym ('s, 'e, 'a) eaction = "'s \<Rightarrow> 's \<times> ('e + 'a)"

type_synonym ('s, 'a) action = "('s, JException, 'a) eaction"

definition areturn :: "'a \<Rightarrow> ('s, 'e, 'a) eaction" where
  "areturn x = (\<lambda>s. (s, Inr x))"

definition athrow :: "'e \<Rightarrow> ('s, 'e, 'a) eaction" where
  "athrow e = (\<lambda>s. (s, Inl e))"

definition amodify :: "('s \<Rightarrow> 's) \<Rightarrow> ('s, 'e, unit) eaction" where
  "amodify f = (\<lambda>s. (f s, Inr ()))"

definition abind :: "('s, 'e, 'a) eaction \<Rightarrow> ('a \<Rightarrow> ('s, 'e, 'b) eaction) \<Rightarrow> ('s, 'e, 'b) eaction" where
  "abind m k = (\<lambda>s. case m s of (s', Inl e) \<Rightarrow> (s', Inl e) | (s', Inr x) \<Rightarrow> k x s')"

definition athen :: "('s, 'e, unit) eaction \<Rightarrow> ('s, 'e, 'b) eaction \<Rightarrow> ('s, 'e, 'b) eaction" where
  "athen m k = abind m (\<lambda>_. k)"

definition awhen :: "('s \<Rightarrow> bool) \<Rightarrow> ('s, 'e, unit) eaction \<Rightarrow> ('s, 'e, unit) eaction" where
  "awhen b m = (\<lambda>s. if b s then m s else (s, Inr ()))"

named_theorems action_defs

lemmas action_basic [action_defs] =
  areturn_def athrow_def amodify_def abind_def athen_def awhen_def

section \<open>Callbacks and their protocol\<close>

datatype callback =
    CbInit | CbChangeRun int | CbBeginRun int | CbEndRun | CbProcess int nat | CbFinish
  | CbOpen | CbEmit nat | CbGetEvent nat | CbClose | CbFinishEvent nat
  | CbPreprocess nat | CbUnfold nat nat nat

type_synonym user_code = "callback \<Rightarrow> callback list \<Rightarrow> user_throw option"

text \<open>
  The contract JANA offers the author of a component: \<open>Init\<close> once and before anything else,
  \<open>BeginRun\<close> only outside a run and \<open>EndRun\<close> only inside one, \<open>Process\<close> only in the run of its
  event, nothing after \<open>Finish\<close>.
\<close>

datatype lifecycle = Fresh | Idle | InRun int | Done

fun life_step :: "lifecycle \<Rightarrow> callback \<Rightarrow> lifecycle option" where
  "life_step Fresh CbInit = Some Idle"
| "life_step Idle (CbChangeRun r) = Some Idle"
| "life_step Idle (CbBeginRun r) = Some (InRun r)"
| "life_step Idle CbFinish = Some Done"
| "life_step (InRun r) CbEndRun = Some Idle"
| "life_step (InRun r) (CbProcess r' n) = (if r = r' then Some (InRun r) else None)"
| "life_step (InRun r) CbFinish = Some Done"
| "life_step _ _ = None"

fun life_run :: "lifecycle \<Rightarrow> callback list \<Rightarrow> lifecycle option" where
  "life_run s [] = Some s"
| "life_run s (c # cs) = (case life_step s c of None \<Rightarrow> None | Some s' \<Rightarrow> life_run s' cs)"

lemma life_run_append:
  "life_run s (xs @ ys) = (case life_run s xs of None \<Rightarrow> None | Some s' \<Rightarrow> life_run s' ys)"
  by (induction xs arbitrary: s) (simp_all split: option.split)

lemma life_run_append_Some:
  "life_run s xs = Some s' \<Longrightarrow> life_run s (xs @ ys) = life_run s' ys"
  by (simp add: life_run_append)

lemma life_run_no_init:
  assumes "life_run s cs = Some s'" and "s \<noteq> Fresh"
  shows "s' \<noteq> Fresh \<and> CbInit \<notin> set cs"
  using assms
proof (induction cs arbitrary: s)
  case (Cons c cs)
  then obtain s1 where "life_step s c = Some s1" "life_run s1 cs = Some s'"
    by (auto split: option.splits)
  moreover from this Cons.prems(2) have "s1 \<noteq> Fresh \<and> c \<noteq> CbInit"
    by (cases "(s, c)" rule: life_step.cases) (auto split: if_splits)
  ultimately show ?case using Cons.IH by auto
qed simp

lemma life_run_init_once:
  assumes "life_run Fresh cs = Some s" and "cs \<noteq> []"
  shows "\<exists>cs'. cs = CbInit # cs' \<and> CbInit \<notin> set cs'"
proof -
  from assms(2) obtain c cs' where cs: "cs = c # cs'" by (cases cs) auto
  with assms(1) have "c = CbInit" by (cases c) auto
  with assms(1) cs have "life_run Idle cs' = Some s" by simp
  with life_run_no_init [OF this] cs \<open>c = CbInit\<close> show ?thesis by simp
qed

text \<open>The callbacks that precede \<open>Process\<close> for an event of run \<open>r\<close>.\<close>

fun enter_run :: "(int \<Rightarrow> callback list) \<Rightarrow> lifecycle \<Rightarrow> int \<Rightarrow> callback list" where
  "enter_run changes Fresh r = CbInit # changes r @ [CbBeginRun r]"
| "enter_run changes Idle r = changes r @ [CbBeginRun r]"
| "enter_run changes (InRun q) r = (if q = r then [] else CbEndRun # changes r @ [CbBeginRun r])"
| "enter_run changes Done r = []"

fun script :: "(int \<Rightarrow> callback list) \<Rightarrow> lifecycle \<Rightarrow> (int \<times> nat) list \<Rightarrow> callback list" where
  "script changes s [] = []"
| "script changes s ((r, n) # evs) = enter_run changes s r @ CbProcess r n # script changes (InRun r) evs"

text \<open>The contract of a component that is driven by events, and what follows for a whole stream.\<close>

locale run_driven =
  fixes ok :: "'s \<Rightarrow> bool"
    and log :: "'s \<Rightarrow> callback list"
    and life :: "'s \<Rightarrow> lifecycle"
    and event :: "int \<times> nat \<Rightarrow> 's \<Rightarrow> 's"
    and changes :: "int \<Rightarrow> callback list"
  assumes life_law: "ok s \<Longrightarrow> life_run Fresh (log s) = Some (life s) \<and> life s \<noteq> Done"
    and event_law: "ok s \<Longrightarrow> r \<noteq> -1 \<Longrightarrow>
      ok (event (r, n) s) \<and> life (event (r, n) s) = InRun r
      \<and> log (event (r, n) s) = log s @ enter_run changes (life s) r @ [CbProcess r n]"
begin

lemma stream_log:
  assumes "ok s" and "\<forall>(r, n)\<in>set evs. r \<noteq> -1"
  shows "ok (fold event evs s) \<and> log (fold event evs s) = log s @ script changes (life s) evs"
  using assms
proof (induction evs arbitrary: s)
  case (Cons ev evs)
  obtain r n where ev: "ev = (r, n)" by (cases ev)
  with Cons.prems have "r \<noteq> -1" by simp
  from event_law [OF Cons.prems(1) this, of n] Cons.IH [of "event (r, n) s"] Cons.prems(2) ev show ?case
    by simp
qed simp

lemma stream_protocol:
  assumes "ok s" and "\<forall>(r, n)\<in>set evs. r \<noteq> -1"
  shows "\<exists>l. life_run Fresh (log (fold event evs s)) = Some l \<and> l \<noteq> Done"
  using life_law [of "fold event evs s"] stream_log [OF assms] by blast

lemma stream_init_once:
  assumes "ok s" and "log s = []" and "\<forall>(r, n)\<in>set evs. r \<noteq> -1" and "evs \<noteq> []"
  shows "\<exists>cs. log (fold event evs s) = CbInit # cs \<and> CbInit \<notin> set cs"
proof -
  obtain r n evs' where "evs = (r, n) # evs'" using assms(4) by (cases evs) auto
  then have "log (fold event evs s) \<noteq> []" using stream_log [OF assms(1,3)] by simp
  moreover obtain l where "life_run Fresh (log (fold event evs s)) = Some l"
    using stream_protocol [OF assms(1,3)] by blast
  ultimately show ?thesis by (rule life_run_init_once [rotated])
qed

end

end
