(* ===== verification/OrdMap.thy ===== *)
theory OrdMap
  imports Prelude "HOL-Library.Char_ord" "HOL-Library.List_Lexorder" "HOL-Library.Product_Lexorder"
begin

text \<open>
  \<open>std::map\<close> as the sources use it: an association list in strictly increasing key order, so that
  iteration order is list order.  Strings are ordered lexicographically by character code and pairs
  lexicographically, as \<open>operator<\<close> does.
\<close>

type_synonym ('k, 'v) omap = "('k \<times> 'v) list"

definition om_find :: "'k \<Rightarrow> ('k, 'v) omap \<Rightarrow> 'v option" where
  "om_find k m = map_of m k"

fun om_put :: "'k::linorder \<Rightarrow> 'v \<Rightarrow> ('k, 'v) omap \<Rightarrow> ('k, 'v) omap" where
  "om_put k v [] = [(k, v)]"
| "om_put k v ((k', v') # m) =
     (if k < k' then (k, v) # (k', v') # m
      else if k = k' then (k, v) # m
      else (k', v') # om_put k v m)"

definition om_erase :: "'k \<Rightarrow> ('k, 'v) omap \<Rightarrow> ('k, 'v) omap" where
  "om_erase k m = filter (\<lambda>p. fst p \<noteq> k) m"

definition om_ok :: "('k::linorder, 'v) omap \<Rightarrow> bool" where
  "om_ok m \<longleftrightarrow> sorted_wrt (<) (map fst m)"

lemma om_ok_Nil [simp]: "om_ok []"
  by (simp add: om_ok_def)

lemma om_find_Nil [simp]: "om_find k [] = None"
  by (simp add: om_find_def)

lemma om_ok_distinct: "om_ok m \<Longrightarrow> distinct (map fst m)"
  unfolding om_ok_def by (simp add: strict_sorted_iff)

lemma om_put_keys: "fst ` set (om_put k v m) = insert k (fst ` set m)"
  by (induction k v m rule: om_put.induct) auto

lemma om_ok_put: "om_ok m \<Longrightarrow> om_ok (om_put k v m)"
proof (induction k v m rule: om_put.induct)
  case (2 k v k' v' m)
  then show ?case
    using om_put_keys [of k v m] by (fastforce simp: om_ok_def)
qed (simp add: om_ok_def)

lemma om_find_put_eq: "om_find k' (om_put k v m) = (if k' = k then Some v else om_find k' m)"
  if "om_ok m"
  using that
proof (induction k v m rule: om_put.induct)
  case (2 k v k'' v'' m)
  then have "om_ok m" by (simp add: om_ok_def)
  moreover have "k \<notin> fst ` set m" if "k < k''"
    using 2(2) that by (fastforce simp: om_ok_def)
  ultimately show ?case using 2 by (auto simp: om_find_def dest: map_of_SomeD intro: map_of_eq_None_iff [THEN iffD2])
qed (simp add: om_find_def)

lemma om_ok_erase: "om_ok m \<Longrightarrow> om_ok (om_erase k m)"
  unfolding om_ok_def om_erase_def by (induction m) auto

lemma om_find_erase: "om_find k' (om_erase k m) = (if k' = k then None else om_find k' m)"
  by (induction m) (auto simp: om_find_def om_erase_def)

lemma om_find_in: "om_find k m = Some v \<Longrightarrow> (k, v) \<in> set m"
  by (simp add: om_find_def map_of_SomeD)

lemma om_in_find: "om_ok m \<Longrightarrow> (k, v) \<in> set m \<Longrightarrow> om_find k m = Some v"
  by (simp add: om_find_def om_ok_distinct)

lemma om_in_iff: "om_ok m \<Longrightarrow> (k, v) \<in> set m \<longleftrightarrow> om_find k m = Some v"
  using om_find_in om_in_find by metis

lemma om_put_fresh: "om_find k m = None \<Longrightarrow> mset (om_put k v m) = add_mset (k, v) (mset m)"
  by (induction k v m rule: om_put.induct) (auto simp: om_find_def split: if_splits)

lemma om_put_length: "om_find k m = None \<Longrightarrow> length (om_put k v m) = Suc (length m)"
  by (induction k v m rule: om_put.induct) (auto simp: om_find_def split: if_splits)

text \<open>The contract of a key-value store and what its clients derive from it.\<close>

locale key_store =
  fixes ok :: "'m \<Rightarrow> bool"
    and find :: "'k \<Rightarrow> 'm \<Rightarrow> 'v option"
    and put :: "'k \<Rightarrow> 'v \<Rightarrow> 'm \<Rightarrow> 'm"
    and erase :: "'k \<Rightarrow> 'm \<Rightarrow> 'm"
  assumes ok_put: "ok m \<Longrightarrow> ok (put k v m)"
    and ok_erase: "ok m \<Longrightarrow> ok (erase k m)"
    and find_put: "ok m \<Longrightarrow> find k' (put k v m) = (if k' = k then Some v else find k' m)"
    and find_erase: "ok m \<Longrightarrow> find k' (erase k m) = (if k' = k then None else find k' m)"
begin

lemma put_put_same: "ok m \<Longrightarrow> find k' (put k v (put k w m)) = find k' (put k v m)"
  by (simp add: find_put ok_put)

lemma put_put_other: "ok m \<Longrightarrow> k \<noteq> l \<Longrightarrow> find k' (put k v (put l w m)) = find k' (put l w (put k v m))"
  by (auto simp: find_put ok_put)

lemma put_erase: "ok m \<Longrightarrow> find k m = None \<Longrightarrow> find k' (erase k (put k v m)) = find k' m"
  by (simp add: find_put find_erase ok_put)

lemma fold_put:
  assumes "ok m"
  shows "ok (fold (\<lambda>(k, v). put k v) kvs m)
    \<and> find k (fold (\<lambda>(k, v). put k v) kvs m) = (case map_of (rev kvs) k of None \<Rightarrow> find k m | Some v \<Rightarrow> Some v)"
  using assms
proof (induction kvs arbitrary: m)
  case (Cons kv kvs)
  obtain k1 v1 where kv: "kv = (k1, v1)" by (cases kv)
  from Cons.IH [OF ok_put [OF Cons.prems, of k1 v1]] Cons.prems kv show ?case
    by (auto simp: find_put map_add_def split: option.splits)
qed simp

end

interpretation om: key_store om_ok om_find om_put om_erase
  by unfold_locales (simp_all add: om_ok_put om_ok_erase om_find_put_eq om_find_erase)

end
