(* ===== verification/CallGraph.thy ===== *)
theory CallGraph
  imports OrdMap
begin

text \<open>
  The call graph recorder of \<open>Utils/JCallGraphRecorder.h\<close>, \<open>Utils/JCallGraphRecorder.cc\<close> and
  \<open>Utils/JCallGraphEntryMaker.h\<close>.  Clock readings are arguments.
\<close>

section \<open>State\<close>

datatype JDataSource = DATA_NOT_AVAILABLE | DATA_FROM_CACHE | DATA_FROM_SOURCE | DATA_FROM_FACTORY

datatype JDataOrigin = ORIGIN_NOT_AVAILABLE | ORIGIN_FROM_FACTORY | ORIGIN_FROM_SOURCE

record JCallGraphNode =
  caller_name :: string
  caller_tag :: string
  callee_name :: string
  callee_tag :: string
  start_time :: int
  end_time :: int
  data_source :: JDataSource

record JCallStackFrame =
  factory_name :: string
  factory_tag :: string
  frame_start_time :: int

record JErrorCallStack =
  ecs_factory_name :: string
  ecs_tag :: string
  ecs_filename :: "string ptr"
  ecs_line :: int

record JCallGraphRecorder =
  m_enabled :: bool
  m_call_stack :: "JCallStackFrame list"
  m_error_call_stack :: "JErrorCallStack list"
  m_call_graph :: "JCallGraphNode list"
  m_insert_dataorigin_type :: JDataOrigin

definition new_JCallGraphRecorder :: JCallGraphRecorder where
  "new_JCallGraphRecorder =
     \<lparr>m_enabled = False, m_call_stack = [], m_error_call_stack = [], m_call_graph = [],
      m_insert_dataorigin_type = ORIGIN_FROM_FACTORY\<rparr>"

section \<open>Operations\<close>

definition SetEnabled :: "bool \<Rightarrow> JCallGraphRecorder \<Rightarrow> JCallGraphRecorder" where
  "SetEnabled recordingEnabled r = r\<lparr>m_enabled := recordingEnabled\<rparr>"

definition SetInsertDataOrigin :: "JDataOrigin \<Rightarrow> JCallGraphRecorder \<Rightarrow> JCallGraphRecorder \<times> JDataOrigin" where
  "SetInsertDataOrigin origin r = (r\<lparr>m_insert_dataorigin_type := origin\<rparr>, m_insert_dataorigin_type r)"

definition AddToCallGraph :: "JCallGraphNode \<Rightarrow> JCallGraphRecorder \<Rightarrow> JCallGraphRecorder" where
  "AddToCallGraph cs r = (if m_enabled r then r\<lparr>m_call_graph := m_call_graph r @ [cs]\<rparr> else r)"

definition AddToErrorCallStack :: "JErrorCallStack \<Rightarrow> JCallGraphRecorder \<Rightarrow> JCallGraphRecorder" where
  "AddToErrorCallStack cs r = (if m_enabled r then r\<lparr>m_error_call_stack := m_error_call_stack r @ [cs]\<rparr> else r)"

definition StartFactoryCall :: "string \<Rightarrow> string \<Rightarrow> int \<Rightarrow> JCallGraphRecorder \<Rightarrow> JCallGraphRecorder" where
  "StartFactoryCall callee callee_t now r =
     (if \<not> m_enabled r then r
      else r\<lparr>m_call_stack := m_call_stack r @
               [\<lparr>factory_name = callee, factory_tag = callee_t, frame_start_time = now\<rparr>]\<rparr>)"

definition FinishFactoryCall :: "JDataSource \<Rightarrow> int \<Rightarrow> JCallGraphRecorder \<Rightarrow> JCallGraphRecorder result" where
  "FinishFactoryCall source now r =
     (if \<not> m_enabled r then Inr r
      else if m_call_stack r = [] then Inl (AssertFailed ''!m_call_stack.empty()'')
      else
        let callee_frame = last (m_call_stack r);
            stack = butlast (m_call_stack r);
            r' = r\<lparr>m_call_stack := stack\<rparr> in
        if stack = [] then Inr r'
        else
          let caller_frame = last stack in
          Inr (r'\<lparr>m_call_graph := m_call_graph r @
                 [\<lparr>caller_name = factory_name caller_frame, caller_tag = factory_tag caller_frame,
                   callee_name = factory_name callee_frame, callee_tag = factory_tag callee_frame,
                   start_time = frame_start_time callee_frame, end_time = now, data_source = source\<rparr>]\<rparr>))"

definition Reset :: "JCallGraphRecorder \<Rightarrow> JCallGraphRecorder" where
  "Reset r = r\<lparr>m_call_graph := [], m_call_stack := [], m_error_call_stack := []\<rparr>"

section \<open>Topological sort\<close>

type_synonym FacName = "string \<times> string"

record FacEdges =
  incoming :: "FacName list"
  outgoing :: "FacName list"

type_synonym adjacency = "(FacName, FacEdges) omap"

text \<open>\<open>adjacency[n]\<close>: the entry, created empty when it is missing.\<close>

definition edges_at :: "FacName \<Rightarrow> adjacency \<Rightarrow> FacEdges" where
  "edges_at n adj = (case om_find n adj of None \<Rightarrow> \<lparr>incoming = [], outgoing = []\<rparr> | Some e \<Rightarrow> e)"

definition caller_of :: "JCallGraphNode \<Rightarrow> FacName" where
  "caller_of node = (caller_name node, caller_tag node)"

definition callee_of :: "JCallGraphNode \<Rightarrow> FacName" where
  "callee_of node = (callee_name node, callee_tag node)"

definition add_edge :: "JCallGraphNode \<Rightarrow> adjacency \<Rightarrow> adjacency" where
  "add_edge node adj =
     (let e1 = edges_at (caller_of node) adj;
          adj1 = om_put (caller_of node) (e1\<lparr>incoming := incoming e1 @ [callee_of node]\<rparr>) adj;
          e2 = edges_at (callee_of node) adj1 in
      om_put (callee_of node) (e2\<lparr>outgoing := outgoing e2 @ [caller_of node]\<rparr>) adj1)"

definition build_adjacency :: "JCallGraphNode list \<Rightarrow> adjacency" where
  "build_adjacency nodes = fold add_edge nodes []"

text \<open>The inner loop over \<open>adjacency[n].outgoing\<close>.\<close>

fun relax :: "FacName \<Rightarrow> FacName list \<Rightarrow> adjacency \<Rightarrow> FacName list \<Rightarrow> adjacency \<times> FacName list" where
  "relax n [] adj ready = (adj, ready)"
| "relax n (m # ms) adj ready =
     (let e = edges_at m adj;
          inc = filter (\<lambda>x. x \<noteq> n) (incoming e);
          adj' = om_put m (e\<lparr>incoming := inc\<rparr>) adj in
      relax n ms adj' (if inc = [] then ready @ [m] else ready))"

text \<open>The outer loop; \<open>fuel\<close> bounds its iterations and running out of it is \<open>None\<close>.\<close>

fun kahn :: "nat \<Rightarrow> adjacency \<Rightarrow> FacName list \<Rightarrow> FacName list \<Rightarrow> FacName list option" where
  "kahn fuel adj [] out = Some out"
| "kahn 0 adj (n # ready) out = None"
| "kahn (Suc fuel) adj (n # ready) out =
     (case relax n (outgoing (edges_at n adj)) adj ready of
        (adj', ready') \<Rightarrow> kahn fuel adj' ready' (out @ [n]))"

definition TopologicalSort :: "nat \<Rightarrow> JCallGraphRecorder \<Rightarrow> FacName list option" where
  "TopologicalSort fuel r =
     (let adj = build_adjacency (m_call_graph r) in
      kahn fuel adj (map fst (filter (\<lambda>(n, e). incoming e = []) adj)) [])"

section \<open>The graph behind the adjacency map\<close>

definition in_of :: "adjacency \<Rightarrow> FacName \<Rightarrow> FacName list" where
  "in_of adj m = incoming (edges_at m adj)"

definition out_of :: "adjacency \<Rightarrow> FacName \<Rightarrow> FacName list" where
  "out_of adj m = outgoing (edges_at m adj)"

lemma edges_at_put:
  "om_ok adj \<Longrightarrow> edges_at m (om_put k e adj) = (if m = k then e else edges_at m adj)"
  by (simp add: edges_at_def om.find_put)

definition names :: "adjacency \<Rightarrow> FacName set" where
  "names adj = fst ` set adj"

lemma add_edge_spec:
  assumes "om_ok adj"
  shows "om_ok (add_edge node adj)"
    and "in_of (add_edge node adj) m = (if m = caller_of node then in_of adj m @ [callee_of node] else in_of adj m)"
    and "out_of (add_edge node adj) m = (if m = callee_of node then out_of adj m @ [caller_of node] else out_of adj m)"
    and "names (add_edge node adj) = insert (caller_of node) (insert (callee_of node) (names adj))"
  using assms
  by (simp_all add: add_edge_def Let_def om.ok_put in_of_def out_of_def edges_at_put names_def om_put_keys)
     (auto simp: image_iff)

lemma build_spec:
  "om_ok (build_adjacency nodes)
   \<and> in_of (build_adjacency nodes) m = map callee_of (filter (\<lambda>node. caller_of node = m) nodes)
   \<and> out_of (build_adjacency nodes) m = map caller_of (filter (\<lambda>node. callee_of node = m) nodes)
   \<and> names (build_adjacency nodes) = caller_of ` set nodes \<union> callee_of ` set nodes"
proof (induction nodes rule: rev_induct)
  case Nil
  then show ?case by (simp add: build_adjacency_def in_of_def out_of_def edges_at_def names_def)
next
  case (snoc node nodes)
  have "build_adjacency (nodes @ [node]) = add_edge node (build_adjacency nodes)"
    by (simp add: build_adjacency_def)
  with snoc show ?case by (auto simp: add_edge_spec)
qed

lemma relax_spec:
  assumes "om_ok adj" and "distinct ms"
  shows "om_ok (fst (relax n ms adj ready))
    \<and> (\<forall>m. out_of (fst (relax n ms adj ready)) m = out_of adj m)
    \<and> (\<forall>m. in_of (fst (relax n ms adj ready)) m
          = (if m \<in> set ms then filter (\<lambda>x. x \<noteq> n) (in_of adj m) else in_of adj m))
    \<and> snd (relax n ms adj ready)
        = ready @ filter (\<lambda>m. filter (\<lambda>x. x \<noteq> n) (in_of adj m) = []) ms"
  using assms
proof (induction ms arbitrary: adj ready)
  case (Cons m ms)
  let ?e = "edges_at m adj"
  let ?inc = "filter (\<lambda>x. x \<noteq> n) (incoming ?e)"
  let ?adj = "om_put m (?e\<lparr>incoming := ?inc\<rparr>) adj"
  let ?ready = "if ?inc = [] then ready @ [m] else ready"
  have adj: "om_ok ?adj" "out_of ?adj x = out_of adj x"
    "in_of ?adj x = (if x = m then filter (\<lambda>x. x \<noteq> n) (in_of adj m) else in_of adj x)" for x
    using Cons.prems(1) by (auto simp: om.ok_put out_of_def in_of_def edges_at_put)
  have "filter (\<lambda>x. filter (\<lambda>y. y \<noteq> n) (in_of ?adj x) = []) ms
      = filter (\<lambda>x. filter (\<lambda>y. y \<noteq> n) (in_of adj x) = []) ms"
    using Cons.prems(2) adj(3) by (intro filter_cong) auto
  moreover have "relax n (m # ms) adj ready = relax n ms ?adj ?ready"
    by (simp add: Let_def)
  ultimately show ?case
    using Cons.IH [of ?adj ?ready] Cons.prems(2) adj by (auto simp: in_of_def)
qed simp

section \<open>Kahn's invariant\<close>

text \<open>
  \<open>inc0\<close> is the incoming relation before the loop.  What is left of it are the predecessors that have
  not been output, and exactly the names without any are waiting or done.
\<close>

definition kahn_inv ::
    "(FacName \<Rightarrow> FacName list) \<Rightarrow> FacName set \<Rightarrow> adjacency \<Rightarrow> FacName list \<Rightarrow> FacName list \<Rightarrow> bool" where
  "kahn_inv inc0 N adj ready out \<longleftrightarrow>
     om_ok adj \<and> distinct (out @ ready) \<and> set (out @ ready) \<subseteq> N
     \<and> (\<forall>m. in_of adj m = filter (\<lambda>x. x \<notin> set out) (inc0 m))
     \<and> (\<forall>m. distinct (out_of adj m) \<and> set (out_of adj m) = {x. m \<in> set (inc0 x)})
     \<and> (\<forall>m\<in>N. in_of adj m = [] \<longleftrightarrow> m \<in> set (out @ ready))
     \<and> (\<forall>i<length out. set (inc0 (out ! i)) \<subseteq> set (take i out))
     \<and> (\<forall>m. inc0 m \<noteq> [] \<longrightarrow> m \<in> N)"

lemma kahn_inv_step:
  assumes inv: "kahn_inv inc0 N adj (n # ready) out"
  shows "kahn_inv inc0 N (fst (relax n (out_of adj n) adj ready)) (snd (relax n (out_of adj n) adj ready)) (out @ [n])"
proof -
  from inv have ok: "om_ok adj" and dist: "distinct (out @ n # ready)" and sub: "set (out @ n # ready) \<subseteq> N"
    and inc: "\<And>m. in_of adj m = filter (\<lambda>x. x \<notin> set out) (inc0 m)"
    and outg: "\<And>m. distinct (out_of adj m) \<and> set (out_of adj m) = {x. m \<in> set (inc0 x)}"
    and wait: "\<And>m. m \<in> N \<Longrightarrow> in_of adj m = [] \<longleftrightarrow> m \<in> set (out @ n # ready)"
    and ord: "\<And>i. i < length out \<Longrightarrow> set (inc0 (out ! i)) \<subseteq> set (take i out)"
    and N: "\<And>m. inc0 m \<noteq> [] \<Longrightarrow> m \<in> N"
    unfolding kahn_inv_def by blast+
  define new where "new = filter (\<lambda>m. filter (\<lambda>x. x \<noteq> n) (in_of adj m) = []) (out_of adj n)"
  define adj' where "adj' = fst (relax n (out_of adj n) adj ready)"
  have r: "om_ok adj'" "\<And>m. out_of adj' m = out_of adj m"
    "\<And>m. in_of adj' m = (if m \<in> set (out_of adj n) then filter (\<lambda>x. x \<noteq> n) (in_of adj m) else in_of adj m)"
    "snd (relax n (out_of adj n) adj ready) = ready @ new"
    using relax_spec [OF ok, of "out_of adj n" n ready] outg [of n] unfolding adj'_def new_def by auto
  have n_ready: "in_of adj n = []" using wait [of n] sub by simp
  have inc': "in_of adj' m = filter (\<lambda>x. x \<notin> set (out @ [n])) (inc0 m)" for m
  proof (cases "m \<in> set (out_of adj n)")
    case True
    then show ?thesis by (simp add: r(3) inc conj_commute)
  next
    case False
    then have "n \<notin> set (inc0 m)" using outg [of n] by simp
    then have "filter (\<lambda>x. x \<notin> set out) (inc0 m) = filter (\<lambda>x. x \<notin> set (out @ [n])) (inc0 m)"
      by (intro filter_cong) auto
    with False show ?thesis by (simp add: r(3) inc)
  qed
  have new_notin: "m \<notin> set (out @ n # ready)" and new_N: "m \<in> N" if "m \<in> set new" for m
  proof -
    from that have n_in: "n \<in> set (inc0 m)" using outg [of n] by (auto simp: new_def)
    then have "inc0 m \<noteq> []" by (metis empty_iff empty_set)
    then show "m \<in> N" by (rule N)
    have "n \<notin> set out" using dist by simp
    with n_in have "in_of adj m \<noteq> []" by (auto simp: inc filter_empty_conv)
    with wait [OF \<open>m \<in> N\<close>] show "m \<notin> set (out @ n # ready)" by simp
  qed
  have "distinct new" using outg [of n] by (simp add: new_def)
  moreover have "set new \<inter> set (out @ n # ready) = {}" using new_notin by blast
  ultimately have A: "distinct ((out @ [n]) @ ready @ new)" using dist by (simp add: Int_Un_distrib2 Int_commute) blast
  have B: "set ((out @ [n]) @ ready @ new) \<subseteq> N" using sub new_N by (simp add: subset_iff)
  have C: "in_of adj' m = [] \<longleftrightarrow> m \<in> set ((out @ [n]) @ ready @ new)" if "m \<in> N" for m
  proof
    assume e: "in_of adj' m = []"
    show "m \<in> set ((out @ [n]) @ ready @ new)"
    proof (cases "m \<in> set (out_of adj n)")
      case True
      with e show ?thesis by (simp add: r(3) new_def)
    next
      case False
      with e have "in_of adj m = []" by (simp add: r(3))
      with wait [OF that] show ?thesis by auto
    qed
  next
    assume "m \<in> set ((out @ [n]) @ ready @ new)"
    then have "in_of adj m = [] \<or> m \<in> set new" using wait [OF that] by auto
    then show "in_of adj' m = []" by (auto simp: r(3) new_def)
  qed
  have D: "set (inc0 ((out @ [n]) ! i)) \<subseteq> set (take i (out @ [n]))" if "i < length (out @ [n])" for i
  proof (cases "i < length out")
    case True
    with ord [OF True] show ?thesis by (simp add: nth_append)
  next
    case False
    with that have "i = length out" by simp
    moreover have "set (inc0 n) \<subseteq> set out" using n_ready by (auto simp: inc filter_empty_conv)
    ultimately show ?thesis by simp
  qed
  show ?thesis
    unfolding kahn_inv_def adj'_def [symmetric] r(4) r(2)
    using r(1) A B C D inc' outg N by blast
qed

lemma kahn_spec:
  assumes "kahn_inv inc0 N adj ready out" and "finite N" and "card N \<le> fuel + length out"
  shows "\<exists>res adj'. kahn fuel adj ready out = Some res \<and> kahn_inv inc0 N adj' [] res"
  using assms
proof (induction fuel arbitrary: adj ready out)
  case 0
  show ?case
  proof (cases ready)
    case (Cons n ns)
    with "0.prems"(1) have "distinct (out @ n # ns)" "set (out @ n # ns) \<subseteq> N" by (simp_all add: kahn_inv_def)
    then have "length (out @ n # ns) \<le> card N" using "0.prems"(2) by (metis card_mono distinct_card)
    with "0.prems"(3) show ?thesis by simp
  qed (use "0.prems"(1) in auto)
next
  case (Suc fuel)
  show ?case
  proof (cases ready)
    case (Cons n ns)
    from Suc.IH [OF kahn_inv_step [OF Suc.prems(1) [unfolded Cons]] Suc.prems(2)] Suc.prems(3) Cons
    show ?thesis by (simp add: out_of_def split_beta)
  qed (use Suc.prems(1) in auto)
qed

definition call_edges :: "JCallGraphNode list \<Rightarrow> (FacName \<times> FacName) list" where
  "call_edges nodes = map (\<lambda>node. (callee_of node, caller_of node)) nodes"

definition call_names :: "JCallGraphNode list \<Rightarrow> FacName set" where
  "call_names nodes = caller_of ` set nodes \<union> callee_of ` set nodes"

lemma call_names_card: "card (call_names nodes) \<le> 2 * length nodes"
proof -
  have "card (call_names nodes) \<le> card (caller_of ` set nodes) + card (callee_of ` set nodes)"
    unfolding call_names_def by (rule card_Un_le)
  also have "\<dots> \<le> card (set nodes) + card (set nodes)" by (intro add_mono card_image_le) simp_all
  also have "\<dots> \<le> 2 * length nodes" using card_length [of nodes] by simp
  finally show ?thesis .
qed

lemma ready_iff:
  assumes "om_ok adj"
  shows "x \<in> set (map fst (filter (\<lambda>(n, e). incoming e = []) adj)) \<longleftrightarrow> x \<in> fst ` set adj \<and> in_of adj x = []"
proof
  assume "x \<in> set (map fst (filter (\<lambda>(n, e). incoming e = []) adj))"
  then obtain e where e: "(x, e) \<in> set adj" "incoming e = []" by auto
  with om_in_find [OF assms e(1)] show "x \<in> fst ` set adj \<and> in_of adj x = []"
    by (auto simp: in_of_def edges_at_def intro: rev_image_eqI)
next
  assume r: "x \<in> fst ` set adj \<and> in_of adj x = []"
  then obtain e where e: "(x, e) \<in> set adj" by (metis imageE prod.collapse)
  with om_in_find [OF assms e] r have "(x, e) \<in> set (filter (\<lambda>(n, e). incoming e = []) adj)"
    by (simp add: in_of_def edges_at_def)
  from imageI [OF this, of fst] show "x \<in> set (map fst (filter (\<lambda>(n, e). incoming e = []) adj))" by simp
qed

lemma kahn_inv_start:
  assumes "distinct (call_edges nodes)"
  shows "kahn_inv (in_of (build_adjacency nodes)) (call_names nodes) (build_adjacency nodes)
    (map fst (filter (\<lambda>(n, e). incoming e = []) (build_adjacency nodes))) []"
proof -
  let ?adj = "build_adjacency nodes"
  have ok: "om_ok ?adj" and inc: "\<And>m. in_of ?adj m = map callee_of (filter (\<lambda>node. caller_of node = m) nodes)"
    and outg: "\<And>m. out_of ?adj m = map caller_of (filter (\<lambda>node. callee_of node = m) nodes)"
    and nm: "fst ` set ?adj = call_names nodes"
    using build_spec [of nodes] by (auto simp: call_names_def names_def)
  have dist: "distinct (out_of ?adj m)" for m
    using assms unfolding outg by (auto simp: call_edges_def distinct_map inj_on_def)
  have outset: "set (out_of ?adj m) = {x. m \<in> set (in_of ?adj x)}" for m
  proof (rule set_eqI)
    fix x
    show "x \<in> set (out_of ?adj m) \<longleftrightarrow> x \<in> {x. m \<in> set (in_of ?adj x)}"
      unfolding outg inc set_map set_filter mem_Collect_eq image_iff by blast
  qed
  have dom: "m \<in> call_names nodes" if "in_of ?adj m \<noteq> []" for m
    using that by (auto simp: inc call_names_def filter_empty_conv)
  show ?thesis
    unfolding kahn_inv_def append_Nil
  proof (intro conjI)
    show "distinct (map fst (filter (\<lambda>(n, e). incoming e = []) ?adj))"
      using om_ok_distinct [OF ok] by (rule distinct_map_filter)
    show "set (map fst (filter (\<lambda>(n, e). incoming e = []) ?adj)) \<subseteq> call_names nodes"
      using nm by auto
    show "\<forall>m\<in>call_names nodes. in_of ?adj m = []
        \<longleftrightarrow> m \<in> set (map fst (filter (\<lambda>(n, e). incoming e = []) ?adj))"
      unfolding ready_iff [OF ok] nm by blast
    show "\<forall>m. distinct (out_of ?adj m) \<and> set (out_of ?adj m) = {x. m \<in> set (in_of ?adj x)}"
      using dist outset by blast
    show "\<forall>m. in_of ?adj m \<noteq> [] \<longrightarrow> m \<in> call_names nodes" using dom by blast
  qed (simp_all add: ok)
qed

section \<open>Calls recorded more than once\<close>

lemma relax_replicate:
  assumes "om_ok adj" and "set (in_of adj m) \<subseteq> {n}"
  shows "om_ok (fst (relax n (replicate k m) adj ready))
    \<and> (\<forall>x. out_of (fst (relax n (replicate k m) adj ready)) x = out_of adj x)
    \<and> snd (relax n (replicate k m) adj ready) = ready @ replicate k m"
  using assms
proof (induction k arbitrary: adj ready)
  case (Suc k)
  let ?e = "edges_at m adj"
  let ?adj = "om_put m (?e\<lparr>incoming := filter (\<lambda>x. x \<noteq> n) (incoming ?e)\<rparr>) adj"
  have e: "filter (\<lambda>x. x \<noteq> n) (incoming ?e) = []"
    using Suc.prems(2) by (auto simp: in_of_def filter_empty_conv)
  have adj: "om_ok ?adj" "set (in_of ?adj m) \<subseteq> {n}" "\<And>x. out_of ?adj x = out_of adj x"
    using Suc.prems by (auto simp: om.ok_put in_of_def out_of_def edges_at_put)
  have "relax n (replicate (Suc k) m) adj ready = relax n (replicate k m) ?adj (ready @ [m])"
    using e by (simp add: Let_def)
  with Suc.IH [OF adj(1,2), of "ready @ [m]"] adj(3) show ?case by simp
qed simp

lemma kahn_replicate:
  assumes "out_of adj m = []" and "k \<le> fuel"
  shows "kahn fuel adj (replicate k m) out = Some (out @ replicate k m)"
  using assms
proof (induction k arbitrary: fuel out)
  case (Suc k)
  then obtain fuel' where "fuel = Suc fuel'" "k \<le> fuel'" by (cases fuel) auto
  with Suc show ?case by (simp add: out_of_def)
qed (cases fuel; simp)

section \<open>Nested calls\<close>

text \<open>
  A factory call with the calls it makes in turn.  \<open>JCallGraphEntryMaker\<close> brackets each of them with
  \<open>StartFactoryCall\<close> and \<open>FinishFactoryCall\<close>; \<open>clk\<close> is the clock.
\<close>

datatype call = Call string string JDataSource "call list"

fun run_call :: "(JCallGraphRecorder \<Rightarrow> int) \<Rightarrow> call \<Rightarrow> JCallGraphRecorder \<Rightarrow> JCallGraphRecorder result"
  and run_calls :: "(JCallGraphRecorder \<Rightarrow> int) \<Rightarrow> call list \<Rightarrow> JCallGraphRecorder \<Rightarrow> JCallGraphRecorder result" where
  "run_call clk (Call nm tg src subs) r =
     rbind (run_calls clk subs (StartFactoryCall nm tg (clk r) r)) (\<lambda>r'. FinishFactoryCall src (clk r') r')"
| "run_calls clk [] r = Inr r"
| "run_calls clk (c # cs) r = rbind (run_call clk c r) (run_calls clk cs)"

fun tree_edges :: "FacName \<Rightarrow> call \<Rightarrow> (FacName \<times> FacName) list" where
  "tree_edges parent (Call nm tg src subs) = concat (map (tree_edges (nm, tg)) subs) @ [((nm, tg), parent)]"

definition top_name :: "JCallGraphRecorder \<Rightarrow> FacName" where
  "top_name r = (factory_name (last (m_call_stack r)), factory_tag (last (m_call_stack r)))"

lemma run_call_spec:
  "m_enabled r \<Longrightarrow> m_call_stack r \<noteq> [] \<Longrightarrow>
     \<exists>r'. run_call clk c r = Inr r' \<and> m_call_stack r' = m_call_stack r \<and> m_enabled r'
       \<and> call_edges (m_call_graph r') = call_edges (m_call_graph r) @ tree_edges (top_name r) c"
  "m_enabled r \<Longrightarrow> m_call_stack r \<noteq> [] \<Longrightarrow>
     \<exists>r'. run_calls clk cs r = Inr r' \<and> m_call_stack r' = m_call_stack r \<and> m_enabled r'
       \<and> call_edges (m_call_graph r') = call_edges (m_call_graph r) @ concat (map (tree_edges (top_name r)) cs)"
proof (induction clk c r and clk cs r rule: run_call_run_calls.induct)
  case (1 clk nm tg src subs r)
  let ?r = "StartFactoryCall nm tg (clk r) r"
  have start: "m_enabled ?r" "m_call_stack ?r \<noteq> []" "top_name ?r = (nm, tg)" "m_call_graph ?r = m_call_graph r"
    "m_call_stack ?r = m_call_stack r @ [\<lparr>factory_name = nm, factory_tag = tg, frame_start_time = clk r\<rparr>]"
    using "1.prems" by (simp_all add: StartFactoryCall_def top_name_def)
  from "1.IH" [OF start(1,2)] obtain r1 where r1: "run_calls clk subs ?r = Inr r1"
    "m_call_stack r1 = m_call_stack ?r" "m_enabled r1"
    "call_edges (m_call_graph r1) = call_edges (m_call_graph r) @ concat (map (tree_edges (nm, tg)) subs)"
    using start(3,4) by auto
  then show ?case
    using "1.prems" start(5)
    by (auto simp: FinishFactoryCall_def Let_def call_edges_def caller_of_def callee_of_def top_name_def)
next
  case (3 clk c cs r)
  from "3.IH"(1) [OF "3.prems"] obtain r1 where r1: "run_call clk c r = Inr r1"
    "m_call_stack r1 = m_call_stack r" "m_enabled r1"
    "call_edges (m_call_graph r1) = call_edges (m_call_graph r) @ tree_edges (top_name r) c" by auto
  moreover from r1 have "top_name r1 = top_name r" by (simp add: top_name_def)
  ultimately show ?case using "3.IH"(2) [of r1] "3.prems" by auto
qed simp

section \<open>Properties of the recorder\<close>

text \<open>
  C32: given a call graph that lists no call twice, the topological sort returns (twice as many loop
  iterations as there are calls suffice), lists each factory at most once, and puts every callee of a
  listed factory before it; when no factory calls itself through others, every factory is listed.
\<close>

theorem topological_sort_correct:
  assumes "distinct (call_edges (m_call_graph r))" and "2 * length (m_call_graph r) \<le> fuel"
  shows "\<exists>out. TopologicalSort fuel r = Some out \<and> distinct out
    \<and> set out \<subseteq> call_names (m_call_graph r)
    \<and> (\<forall>i<length out. \<forall>node\<in>set (m_call_graph r).
          caller_of node = out ! i \<longrightarrow> callee_of node \<in> set (take i out))
    \<and> (acyclic (set (call_edges (m_call_graph r))) \<longrightarrow> set out = call_names (m_call_graph r))"
proof -
  let ?nodes = "m_call_graph r"
  let ?adj = "build_adjacency ?nodes" and ?N = "call_names ?nodes"
  have fin: "finite ?N" by (simp add: call_names_def)
  have "card ?N \<le> fuel + length []" using call_names_card [of ?nodes] assms(2) by simp
  from kahn_spec [OF kahn_inv_start [OF assms(1)] fin this] obtain out adj' where
    out: "TopologicalSort fuel r = Some out" and inv: "kahn_inv (in_of ?adj) ?N adj' [] out"
    by (auto simp: TopologicalSort_def Let_def)
  have inc: "set (in_of ?adj m) = callee_of ` {node \<in> set ?nodes. caller_of node = m}" for m
    using build_spec [of ?nodes] by auto
  have ord: "callee_of node \<in> set (take i out)"
    if "i < length out" "node \<in> set ?nodes" "caller_of node = out ! i" for i node
    using inv that inc unfolding kahn_inv_def by blast
  have "set out = ?N" if acyc: "acyclic (set (call_edges ?nodes))"
  proof (rule ccontr)
    assume "set out \<noteq> ?N"
    then obtain a where a: "a \<in> ?N - set out" using inv unfolding kahn_inv_def by auto
    have "wf (set (call_edges ?nodes))" using acyc by (simp add: finite_acyclic_wf)
    from wfE_min [OF this a] obtain z where z: "z \<in> ?N - set out"
      and min: "\<And>y. (y, z) \<in> set (call_edges ?nodes) \<Longrightarrow> y \<notin> ?N - set out" by blast
    have "in_of adj' z \<noteq> []" using inv z unfolding kahn_inv_def by auto
    then have "filter (\<lambda>x. x \<notin> set out) (in_of ?adj z) \<noteq> []" using inv unfolding kahn_inv_def by simp
    then obtain x where x: "x \<in> set (in_of ?adj z)" "x \<notin> set out" by (auto simp: filter_empty_conv)
    then obtain node where "node \<in> set ?nodes" "caller_of node = z" "callee_of node = x" using inc by auto
    then have "(x, z) \<in> set (call_edges ?nodes)" "x \<in> ?N" by (auto simp: call_edges_def call_names_def)
    with min x(2) show False by blast
  qed
  with out ord inv show ?thesis unfolding kahn_inv_def by auto
qed

definition sample_call :: "string \<Rightarrow> string \<Rightarrow> JCallGraphNode" where
  "sample_call caller callee =
     \<lparr>caller_name = caller, caller_tag = [], callee_name = callee, callee_tag = [], start_time = 0,
      end_time = 1, data_source = DATA_FROM_FACTORY\<rparr>"

definition sample_recorder :: JCallGraphRecorder where
  "sample_recorder = new_JCallGraphRecorder
     \<lparr>m_enabled := True, m_call_graph := [sample_call ''track'' ''hit'', sample_call ''vertex'' ''track'']\<rparr>"

theorem topological_sort_correct_witness:
  "\<exists>out. TopologicalSort 4 sample_recorder = Some out \<and> distinct out"
  using topological_sort_correct [of sample_recorder 4]
  by (auto simp: sample_recorder_def sample_call_def call_edges_def callee_of_def caller_of_def)

text \<open>
  A call that is recorded more than once corrupts the sort.  When a factory has requested the same
  data \<open>k\<close> times, the caller comes out \<open>k\<close> times, so the result is not a list of the factories.
\<close>

theorem topological_sort_duplicates:
  assumes "m_call_graph r = replicate (Suc k) node" and "caller_of node \<noteq> callee_of node" and "Suc (Suc k) \<le> fuel"
  shows "TopologicalSort fuel r = Some (callee_of node # replicate (Suc k) (caller_of node))"
proof -
  define n m where "n = callee_of node" and "m = caller_of node"
  define cs where "cs = replicate (Suc k) m"
  define adj where "adj = build_adjacency (replicate (Suc k) node)"
  let ?ready = "map fst (filter (\<lambda>(n, e). incoming e = []) adj)"
  have ok: "om_ok adj" and nm: "fst ` set adj = {m, n}"
    and inc: "in_of adj m = replicate (Suc k) n" "in_of adj n = []"
    and outg: "out_of adj n = cs" "out_of adj m = []"
    using build_spec [of "replicate (Suc k) node"] assms(2)
    by (auto simp: names_def filter_replicate adj_def n_def m_def cs_def simp del: replicate_Suc)
  have "set ?ready = {n}"
  proof (rule set_eqI)
    fix x
    show "x \<in> set ?ready \<longleftrightarrow> x \<in> {n}"
      unfolding ready_iff [OF ok] nm using inc by (cases "x = m"; cases "x = n") auto
  qed
  moreover have "distinct ?ready" using om_ok_distinct [OF ok] by (rule distinct_map_filter)
  ultimately have ready: "?ready = [n]" by (rule distinct_singleton_list)
  obtain fuel' where fuel: "fuel = Suc fuel'" "Suc k \<le> fuel'" using assms(3) by (cases fuel) auto
  have "set (in_of adj m) \<subseteq> {n}" using inc by auto
  from relax_replicate [OF ok this, of "Suc k" "[]"]
  have relaxed: "out_of (fst (relax n cs adj [])) m = []" "snd (relax n cs adj []) = cs"
    using outg(2) unfolding cs_def by (metis, metis append_Nil)
  have "kahn fuel' (fst (relax n cs adj [])) cs [n] = Some ([n] @ cs)"
    unfolding cs_def by (rule kahn_replicate) (use relaxed fuel(2) in \<open>simp_all add: cs_def\<close>)
  with relaxed(2) outg(1) have "kahn fuel adj [n] [] = Some (n # cs)"
    by (simp add: fuel(1) out_of_def split_beta)
  then show ?thesis
    unfolding TopologicalSort_def Let_def assms(1) adj_def [symmetric] ready
    by (simp add: n_def m_def cs_def)
qed

theorem topological_sort_duplicates_witness:
  "TopologicalSort 5 (sample_recorder\<lparr>m_call_graph := replicate (Suc 1) (sample_call ''track'' ''hit'')\<rparr>)
     = Some (callee_of (sample_call ''track'' ''hit'') # replicate (Suc 1) (caller_of (sample_call ''track'' ''hit'')))"
  by (rule topological_sort_duplicates) (simp_all add: sample_call_def caller_of_def callee_of_def)


text \<open>
  Recording is balanced.  However deeply factories call each other, when the outermost call is
  finished the call stack is what it was, no assertion failed, and the graph has gained exactly one
  edge per call, from each callee to the factory that called it.
\<close>

theorem call_graph_balanced:
  assumes "m_enabled r" and "m_call_stack r \<noteq> []"
  shows "\<exists>r'. run_call clk c r = Inr r' \<and> m_call_stack r' = m_call_stack r
    \<and> call_edges (m_call_graph r') = call_edges (m_call_graph r) @ tree_edges (top_name r) c"
  using run_call_spec(1) [OF assms, of clk c] by blast

theorem call_graph_balanced_witness:
  "\<exists>r'. run_call (\<lambda>_. 0) (Call ''track'' [] DATA_FROM_FACTORY [Call ''hit'' [] DATA_FROM_SOURCE []])
       (StartFactoryCall ''proc'' [] 0 (SetEnabled True new_JCallGraphRecorder)) = Inr r'
     \<and> m_call_stack r' = m_call_stack (StartFactoryCall ''proc'' [] 0 (SetEnabled True new_JCallGraphRecorder))
     \<and> call_edges (m_call_graph r')
         = call_edges (m_call_graph (StartFactoryCall ''proc'' [] 0 (SetEnabled True new_JCallGraphRecorder)))
           @ tree_edges (top_name (StartFactoryCall ''proc'' [] 0 (SetEnabled True new_JCallGraphRecorder)))
               (Call ''track'' [] DATA_FROM_FACTORY [Call ''hit'' [] DATA_FROM_SOURCE []])"
  by (rule call_graph_balanced) (simp_all add: StartFactoryCall_def SetEnabled_def new_JCallGraphRecorder_def)

end
