(* ===== verification/Factory.thy ===== *)
theory Factory
  imports Component CallGraph "HOL-Library.Word"
begin

text \<open>
  Factories: \<open>JFactory.h\<close>, \<open>JFactory.cc\<close> and \<open>JFactoryT.h\<close>.  One record holds the untyped base and
  the typed data \<open>mData\<close>; the object type is a name, an object is a value of type \<open>'a\<close>.  Deleted
  objects are appended to \<open>deleted\<close> and callbacks into user code to \<open>fac_calls\<close>, so that ownership
  and call order can be stated.  What a user callback does to the factory's data is a list of
  \<open>Set\<close> and \<open>Insert\<close> calls chosen by a parameter.
\<close>

unbundle bit_operations_syntax

section \<open>State\<close>

datatype FactoryStatus = Uninitialized | Unprocessed | Processed | Inserted

datatype CreationStatus = NotCreatedYet | Created | CreationInserted | InsertedViaGetObjects | NeverCreated

type_synonym flags = "32 word"

definition PERSISTENT :: flags where "PERSISTENT = 1"
definition WRITE_TO_OUTPUT :: flags where "WRITE_TO_OUTPUT = 2"
definition NOT_OBJECT_OWNER :: flags where "NOT_OBJECT_OWNER = 4"
definition REGENERATE :: flags where "REGENERATE = 8"

record 'a JFactory =
  mObjectName :: string
  mTag :: string
  mObjectType :: string
  mFlags :: flags
  mPreviousRunNumber :: int
  mStatus :: FactoryStatus
  mCreationStatus :: CreationStatus
  m_insert_origin :: JDataOrigin
  fac_id :: component_id
  fac_level :: JEventLevel
  mData :: "'a list"
  deleted :: "'a list"
  fac_calls :: "callback list"

text \<open>
  The constructor moves \<open>aTag\<close> into \<open>mTag\<close> before it asks whether \<open>aTag\<close> is empty; a moved-from
  \<open>std::string\<close> is empty.
\<close>

definition new_JFactory :: "string \<Rightarrow> string \<Rightarrow> string \<Rightarrow> 'a JFactory" where
  "new_JFactory object_type aName aTag =
     (let moved_from = ([] :: string) in
      \<lparr>mObjectName = aName, mTag = aTag, mObjectType = object_type, mFlags = WRITE_TO_OUTPUT,
       mPreviousRunNumber = -1, mStatus = Uninitialized, mCreationStatus = NotCreatedYet,
       m_insert_origin = ORIGIN_NOT_AVAILABLE,
       fac_id = \<lparr>m_prefix = (if moved_from = [] then aName else aName @ '':'' @ aTag),
                 m_plugin_name = [], m_type_name = []\<rparr>,
       fac_level = PhysicsEvent, mData = [], deleted = [], fac_calls = []\<rparr>)"

section \<open>Flags\<close>

definition SetFactoryFlag :: "flags \<Rightarrow> 'a JFactory \<Rightarrow> 'a JFactory" where
  "SetFactoryFlag f fac = fac\<lparr>mFlags := mFlags fac OR f\<rparr>"

definition ClearFactoryFlag :: "flags \<Rightarrow> 'a JFactory \<Rightarrow> 'a JFactory" where
  "ClearFactoryFlag f fac = fac\<lparr>mFlags := mFlags fac AND NOT f\<rparr>"

definition TestFactoryFlag :: "flags \<Rightarrow> 'a JFactory \<Rightarrow> bool" where
  "TestFactoryFlag f fac \<longleftrightarrow> mFlags fac AND f = f"

definition SetPersistentFlag :: "bool \<Rightarrow> 'a JFactory \<Rightarrow> 'a JFactory" where
  "SetPersistentFlag persistent fac =
     (if persistent then SetFactoryFlag PERSISTENT fac else ClearFactoryFlag PERSISTENT fac)"

definition SetNotOwnerFlag :: "bool \<Rightarrow> 'a JFactory \<Rightarrow> 'a JFactory" where
  "SetNotOwnerFlag not_owner fac =
     (if not_owner then SetFactoryFlag NOT_OBJECT_OWNER fac else ClearFactoryFlag NOT_OBJECT_OWNER fac)"

definition SetRegenerateFlag :: "bool \<Rightarrow> 'a JFactory \<Rightarrow> 'a JFactory" where
  "SetRegenerateFlag regenerate fac =
     (if regenerate then SetFactoryFlag REGENERATE fac else ClearFactoryFlag REGENERATE fac)"

definition SetWriteToOutputFlag :: "bool \<Rightarrow> 'a JFactory \<Rightarrow> 'a JFactory" where
  "SetWriteToOutputFlag write_to_output fac =
     (if write_to_output then SetFactoryFlag WRITE_TO_OUTPUT fac else ClearFactoryFlag WRITE_TO_OUTPUT fac)"

definition GetWriteToOutputFlag :: "'a JFactory \<Rightarrow> bool" where
  "GetWriteToOutputFlag fac = TestFactoryFlag WRITE_TO_OUTPUT fac"

definition GetDataSource :: "'a JFactory \<Rightarrow> JDataSource" where
  "GetDataSource fac =
     (if mCreationStatus fac = CreationInserted then
        (if m_insert_origin fac = ORIGIN_FROM_SOURCE then DATA_FROM_SOURCE else DATA_FROM_CACHE)
      else DATA_FROM_FACTORY)"

definition SetTag :: "string \<Rightarrow> 'a JFactory \<Rightarrow> 'a JFactory" where
  "SetTag tag fac = fac\<lparr>mTag := tag\<rparr>"

definition SetLevel :: "JEventLevel \<Rightarrow> 'a JFactory \<Rightarrow> 'a JFactory" where
  "SetLevel level fac = fac\<lparr>fac_level := level\<rparr>"

definition SetInsertOrigin :: "JDataOrigin \<Rightarrow> 'a JFactory \<Rightarrow> 'a JFactory" where
  "SetInsertOrigin origin fac = fac\<lparr>m_insert_origin := origin\<rparr>"

section \<open>Data\<close>

definition ClearData :: "'a JFactory \<Rightarrow> 'a JFactory" where
  "ClearData fac =
     (if mStatus fac = Uninitialized then fac
      else if TestFactoryFlag PERSISTENT fac then fac
      else
        (let fac1 = (if \<not> TestFactoryFlag NOT_OBJECT_OWNER fac
                     then fac\<lparr>deleted := deleted fac @ mData fac\<rparr> else fac) in
         fac1\<lparr>mData := [], mStatus := Unprocessed, mCreationStatus := NotCreatedYet\<rparr>))"

definition Set_copy :: "'a list \<Rightarrow> 'a JFactory \<Rightarrow> 'a JFactory" where
  "Set_copy aData fac =
     (if aData = mData fac then fac\<lparr>mStatus := Inserted, mCreationStatus := CreationInserted\<rparr>
      else (ClearData fac)\<lparr>mData := aData, mStatus := Inserted, mCreationStatus := CreationInserted\<rparr>)"

definition Set_move :: "'a list \<Rightarrow> 'a JFactory \<Rightarrow> 'a JFactory" where
  "Set_move aData fac =
     (ClearData fac)\<lparr>mData := aData, mStatus := Inserted, mCreationStatus := CreationInserted\<rparr>"

definition Insert :: "'a \<Rightarrow> 'a JFactory \<Rightarrow> 'a JFactory" where
  "Insert aDatum fac =
     fac\<lparr>mData := mData fac @ [aDatum], mStatus := Inserted, mCreationStatus := CreationInserted\<rparr>"

definition GetNumObjects :: "'a JFactory \<Rightarrow> nat" where
  "GetNumObjects fac = length (mData fac)"

section \<open>Creation\<close>

datatype 'a data_act = ActSet "'a list" | ActInsert 'a

type_synonym 'a user_data = "callback \<Rightarrow> callback list \<Rightarrow> 'a data_act list"

fun do_act :: "'a data_act \<Rightarrow> 'a JFactory \<Rightarrow> 'a JFactory" where
  "do_act (ActSet xs) fac = Set_copy xs fac"
| "do_act (ActInsert x) fac = Insert x fac"

definition fac_call ::
    "user_code \<Rightarrow> 'a user_data \<Rightarrow> string \<Rightarrow> callback \<Rightarrow> ('a JFactory, unit) action" where
  "fac_call u d func_name cb = (\<lambda>fac.
     let history = fac_calls fac;
         fac' = fold do_act (d cb history) (fac\<lparr>fac_calls := history @ [cb]\<rparr>) in
     case u cb history of
       None \<Rightarrow> (fac', Inr ())
     | Some t \<Rightarrow> (fac', Inl (CallWithJExceptionWrapper func_name (fac_id fac) t)))"

definition JFactory_DoInit :: "user_code \<Rightarrow> 'a user_data \<Rightarrow> ('a JFactory, unit) action" where
  "JFactory_DoInit u d =
     awhen (\<lambda>fac. mStatus fac = Uninitialized)
       (athen (fac_call u d ''JFactory::Init'' CbInit) (amodify (\<lambda>fac. fac\<lparr>mStatus := Unprocessed\<rparr>)))"

definition fac_change_run :: "user_code \<Rightarrow> 'a user_data \<Rightarrow> int \<Rightarrow> ('a JFactory, unit) action" where
  "fac_change_run u d run_number = (\<lambda>fac.
     if mPreviousRunNumber fac = -1 then
       athen (fac_call u d ''JFactory::ChangeRun'' (CbChangeRun run_number))
         (athen (fac_call u d ''JFactory::BeginRun'' (CbBeginRun run_number))
           (amodify (\<lambda>fac. fac\<lparr>mPreviousRunNumber := run_number\<rparr>))) fac
     else if mPreviousRunNumber fac \<noteq> run_number then
       athen (fac_call u d ''JFactory::EndRun'' CbEndRun)
         (athen (fac_call u d ''JFactory::ChangeRun'' (CbChangeRun run_number))
           (athen (fac_call u d ''JFactory::BeginRun'' (CbBeginRun run_number))
             (amodify (\<lambda>fac. fac\<lparr>mPreviousRunNumber := run_number\<rparr>)))) fac
     else (fac, Inr ()))"

definition JFactory_Create :: "user_code \<Rightarrow> 'a user_data \<Rightarrow> int \<times> nat \<Rightarrow> ('a JFactory, unit) action" where
  "JFactory_Create u d ev =
     athen (awhen (\<lambda>fac. mStatus fac = Uninitialized)
              (athen (fac_call u d ''JFactory::Init'' CbInit) (amodify (\<lambda>fac. fac\<lparr>mStatus := Unprocessed\<rparr>))))
    (athen (awhen (\<lambda>fac. TestFactoryFlag REGENERATE fac \<and> mStatus fac = Inserted) (amodify ClearData))
           (awhen (\<lambda>fac. mStatus fac = Unprocessed)
              (athen (fac_change_run u d (fst ev))
              (athen (fac_call u d ''JFactory::Process'' (CbProcess (fst ev) (snd ev)))
                     (amodify (\<lambda>fac. fac\<lparr>mStatus := Processed, mCreationStatus := Created\<rparr>))))))"

definition CreateAndGetData ::
    "user_code \<Rightarrow> 'a user_data \<Rightarrow> int \<times> nat \<Rightarrow> ('a JFactory, 'a list) action" where
  "CreateAndGetData u d ev = athen (JFactory_Create u d ev) (\<lambda>fac. (fac, Inr (mData fac)))"

section \<open>Flags behave as a set\<close>

lemma TestFactoryFlag_Set [simp]: "TestFactoryFlag f (SetFactoryFlag f fac)"
  by (simp add: TestFactoryFlag_def SetFactoryFlag_def bit_eq_iff bit_simps)

lemma flags_distinct:
  "PERSISTENT AND WRITE_TO_OUTPUT = 0" "PERSISTENT AND NOT_OBJECT_OWNER = 0" "PERSISTENT AND REGENERATE = 0"
  "WRITE_TO_OUTPUT AND NOT_OBJECT_OWNER = 0" "WRITE_TO_OUTPUT AND REGENERATE = 0"
  "NOT_OBJECT_OWNER AND REGENERATE = 0"
  by (simp_all add: PERSISTENT_def WRITE_TO_OUTPUT_def NOT_OBJECT_OWNER_def REGENERATE_def)

section \<open>User callbacks only reach the data\<close>

lemma ClearData_frame [simp]:
  "fac_calls (ClearData fac) = fac_calls fac" "mFlags (ClearData fac) = mFlags fac"
  "mPreviousRunNumber (ClearData fac) = mPreviousRunNumber fac" "fac_id (ClearData fac) = fac_id fac"
  "mTag (ClearData fac) = mTag fac" "mObjectName (ClearData fac) = mObjectName fac"
  "mObjectType (ClearData fac) = mObjectType fac" "fac_level (ClearData fac) = fac_level fac"
  by (simp_all add: ClearData_def Let_def)

lemma do_act_frame [simp]:
  "fac_calls (do_act a fac) = fac_calls fac" "mFlags (do_act a fac) = mFlags fac"
  "mPreviousRunNumber (do_act a fac) = mPreviousRunNumber fac" "fac_id (do_act a fac) = fac_id fac"
  by (cases a; simp add: Set_copy_def Insert_def)+

lemma do_acts_frame [simp]:
  "fac_calls (fold do_act as fac) = fac_calls fac" "mFlags (fold do_act as fac) = mFlags fac"
  "mPreviousRunNumber (fold do_act as fac) = mPreviousRunNumber fac" "fac_id (fold do_act as fac) = fac_id fac"
  by (induction as arbitrary: fac) simp_all

lemma TestFactoryFlag_cong: "mFlags fac = mFlags fac' \<Longrightarrow> TestFactoryFlag f fac = TestFactoryFlag f fac'"
  by (simp add: TestFactoryFlag_def)

lemma fac_call_outcome:
  obtains fac' where "fac_call u d fn cb fac = (fac', case u cb (fac_calls fac) of None \<Rightarrow> Inr ()
      | Some t \<Rightarrow> Inl (CallWithJExceptionWrapper fn (fac_id fac) t))"
    and "fac_calls fac' = fac_calls fac @ [cb]" and "mFlags fac' = mFlags fac"
    and "mPreviousRunNumber fac' = mPreviousRunNumber fac" and "fac_id fac' = fac_id fac"
  by (rule that [of "fold do_act (d cb (fac_calls fac)) (fac\<lparr>fac_calls := fac_calls fac @ [cb]\<rparr>)"])
    (simp_all add: fac_call_def Let_def split: option.split)

definition quiet :: user_code where
  "quiet = (\<lambda>_ _. None)"

lemma fac_call_quiet:
  obtains fac' where "fac_call quiet d fn cb fac = (fac', Inr ())"
    and "fac_calls fac' = fac_calls fac @ [cb]" and "mFlags fac' = mFlags fac"
    and "mPreviousRunNumber fac' = mPreviousRunNumber fac" and "fac_id fac' = fac_id fac"
  using fac_call_outcome [of quiet d fn cb fac] by (auto simp: quiet_def)

section \<open>A factory is driven by runs\<close>

definition fac_life :: "'a JFactory \<Rightarrow> lifecycle" where
  "fac_life fac = (if mStatus fac = Uninitialized then Fresh
                   else if mPreviousRunNumber fac = -1 then Idle else InRun (mPreviousRunNumber fac))"

definition fac_ok :: "'a JFactory \<Rightarrow> bool" where
  "fac_ok fac \<longleftrightarrow> mStatus fac \<in> {Uninitialized, Unprocessed} \<and> \<not> TestFactoryFlag PERSISTENT fac
     \<and> (mStatus fac = Uninitialized \<longrightarrow> mPreviousRunNumber fac = -1)
     \<and> life_run Fresh (fac_calls fac) = Some (fac_life fac)"

text \<open>One event: somebody asks for the data, and the event is recycled.\<close>

definition fac_event :: "'a user_data \<Rightarrow> int \<times> nat \<Rightarrow> 'a JFactory \<Rightarrow> 'a JFactory" where
  "fac_event d ev fac = ClearData (fst (JFactory_Create quiet d ev fac))"

definition fac_changes :: "int \<Rightarrow> callback list" where
  "fac_changes r = [CbChangeRun r]"

lemma change_run_quiet:
  obtains fac' where "fac_change_run quiet d r fac = (fac', Inr ())"
    and "fac_calls fac' = fac_calls fac @
      (if mPreviousRunNumber fac = -1 then [CbChangeRun r, CbBeginRun r]
       else if mPreviousRunNumber fac \<noteq> r then [CbEndRun, CbChangeRun r, CbBeginRun r] else [])"
    and "mFlags fac' = mFlags fac" and "mPreviousRunNumber fac' = r"
proof (cases "mPreviousRunNumber fac = -1")
  case True
  obtain f1 where f1: "fac_call quiet d ''JFactory::ChangeRun'' (CbChangeRun r) fac = (f1, Inr ())"
    "fac_calls f1 = fac_calls fac @ [CbChangeRun r]" "mFlags f1 = mFlags fac" by (rule fac_call_quiet)
  obtain f2 where f2: "fac_call quiet d ''JFactory::BeginRun'' (CbBeginRun r) f1 = (f2, Inr ())"
    "fac_calls f2 = fac_calls f1 @ [CbBeginRun r]" "mFlags f2 = mFlags f1" by (rule fac_call_quiet)
  show ?thesis
    by (rule that [of "f2\<lparr>mPreviousRunNumber := r\<rparr>"]) (simp_all add: fac_change_run_def action_defs True f1 f2)
next
  case False
  show ?thesis
  proof (cases "mPreviousRunNumber fac = r")
    case True
    with False show ?thesis by (intro that [of fac]) (simp_all add: fac_change_run_def)
  next
    case changed: False
    obtain f0 where f0: "fac_call quiet d ''JFactory::EndRun'' CbEndRun fac = (f0, Inr ())"
      "fac_calls f0 = fac_calls fac @ [CbEndRun]" "mFlags f0 = mFlags fac" by (rule fac_call_quiet)
    obtain f1 where f1: "fac_call quiet d ''JFactory::ChangeRun'' (CbChangeRun r) f0 = (f1, Inr ())"
      "fac_calls f1 = fac_calls f0 @ [CbChangeRun r]" "mFlags f1 = mFlags f0" by (rule fac_call_quiet)
    obtain f2 where f2: "fac_call quiet d ''JFactory::BeginRun'' (CbBeginRun r) f1 = (f2, Inr ())"
      "fac_calls f2 = fac_calls f1 @ [CbBeginRun r]" "mFlags f2 = mFlags f1" by (rule fac_call_quiet)
    show ?thesis
      by (rule that [of "f2\<lparr>mPreviousRunNumber := r\<rparr>"])
        (simp_all add: fac_change_run_def action_defs False changed f0 f1 f2)
  qed
qed

lemma process_quiet:
  assumes "mStatus fac = Unprocessed"
  obtains fac' where "awhen (\<lambda>fac. mStatus fac = Unprocessed)
        (athen (fac_change_run quiet d r)
        (athen (fac_call quiet d ''JFactory::Process'' (CbProcess r n))
               (amodify (\<lambda>fac. fac\<lparr>mStatus := Processed, mCreationStatus := Created\<rparr>)))) fac = (fac', Inr ())"
    and "fac_calls fac' = fac_calls fac @
      (if mPreviousRunNumber fac = -1 then [CbChangeRun r, CbBeginRun r]
       else if mPreviousRunNumber fac \<noteq> r then [CbEndRun, CbChangeRun r, CbBeginRun r] else []) @ [CbProcess r n]"
    and "mFlags fac' = mFlags fac" and "mPreviousRunNumber fac' = r" and "mStatus fac' = Processed"
proof -
  obtain f1 where f1: "fac_change_run quiet d r fac = (f1, Inr ())"
    "fac_calls f1 = fac_calls fac @
      (if mPreviousRunNumber fac = -1 then [CbChangeRun r, CbBeginRun r]
       else if mPreviousRunNumber fac \<noteq> r then [CbEndRun, CbChangeRun r, CbBeginRun r] else [])"
    "mFlags f1 = mFlags fac" "mPreviousRunNumber f1 = r" by (rule change_run_quiet)
  obtain f2 where f2: "fac_call quiet d ''JFactory::Process'' (CbProcess r n) f1 = (f2, Inr ())"
    "fac_calls f2 = fac_calls f1 @ [CbProcess r n]" "mFlags f2 = mFlags f1"
    "mPreviousRunNumber f2 = mPreviousRunNumber f1" by (rule fac_call_quiet)
  show ?thesis
    by (rule that [of "f2\<lparr>mStatus := Processed, mCreationStatus := Created\<rparr>"])
      (simp_all add: action_defs assms f1 f2)
qed

lemma init_quiet:
  assumes "fac_ok fac"
  obtains fac' where "awhen (\<lambda>fac. mStatus fac = Uninitialized)
        (athen (fac_call quiet d ''JFactory::Init'' CbInit) (amodify (\<lambda>fac. fac\<lparr>mStatus := Unprocessed\<rparr>))) fac
      = (fac', Inr ())"
    and "fac_calls fac' = fac_calls fac @ (if mStatus fac = Uninitialized then [CbInit] else [])"
    and "mFlags fac' = mFlags fac" and "mPreviousRunNumber fac' = mPreviousRunNumber fac"
    and "mStatus fac' = Unprocessed"
proof (cases "mStatus fac = Uninitialized")
  case True
  obtain f1 where "fac_call quiet d ''JFactory::Init'' CbInit fac = (f1, Inr ())"
    "fac_calls f1 = fac_calls fac @ [CbInit]" "mFlags f1 = mFlags fac"
    "mPreviousRunNumber f1 = mPreviousRunNumber fac" by (rule fac_call_quiet)
  with True show ?thesis by (intro that [of "f1\<lparr>mStatus := Unprocessed\<rparr>"]) (simp_all add: action_defs)
next
  case False
  with assms show ?thesis by (intro that [of fac]) (auto simp: action_defs fac_ok_def)
qed

lemma fac_event_ok:
  assumes ok: "fac_ok fac" and r: "r \<noteq> -1"
  shows "fac_ok (fac_event d (r, n) fac) \<and> fac_life (fac_event d (r, n) fac) = InRun r
    \<and> fac_calls (fac_event d (r, n) fac)
        = fac_calls fac @ enter_run fac_changes (fac_life fac) r @ [CbProcess r n]"
proof -
  obtain f1 where f1: "awhen (\<lambda>fac. mStatus fac = Uninitialized)
        (athen (fac_call quiet d ''JFactory::Init'' CbInit) (amodify (\<lambda>fac. fac\<lparr>mStatus := Unprocessed\<rparr>))) fac
      = (f1, Inr ())"
    "fac_calls f1 = fac_calls fac @ (if mStatus fac = Uninitialized then [CbInit] else [])"
    "mFlags f1 = mFlags fac" "mPreviousRunNumber f1 = mPreviousRunNumber fac" "mStatus f1 = Unprocessed"
    using ok by (rule init_quiet)
  have f2: "awhen (\<lambda>fac. TestFactoryFlag REGENERATE fac \<and> mStatus fac = Inserted) (amodify ClearData) f1
      = (f1, Inr () :: JException + unit)" using f1(5) by (simp add: awhen_def)
  obtain f3 where f3: "awhen (\<lambda>fac. mStatus fac = Unprocessed)
        (athen (fac_change_run quiet d r)
        (athen (fac_call quiet d ''JFactory::Process'' (CbProcess r n))
               (amodify (\<lambda>fac. fac\<lparr>mStatus := Processed, mCreationStatus := Created\<rparr>)))) f1 = (f3, Inr ())"
    "fac_calls f3 = fac_calls f1 @
      (if mPreviousRunNumber f1 = -1 then [CbChangeRun r, CbBeginRun r]
       else if mPreviousRunNumber f1 \<noteq> r then [CbEndRun, CbChangeRun r, CbBeginRun r] else []) @ [CbProcess r n]"
    "mFlags f3 = mFlags f1" "mPreviousRunNumber f3 = r" "mStatus f3 = Processed"
    using f1(5) by (rule process_quiet)
  have create: "JFactory_Create quiet d (r, n) fac = (f3, Inr ())"
    using f1(1) f2 f3(1) by (simp add: JFactory_Create_def athen_def abind_def)
  have persist: "\<not> TestFactoryFlag PERSISTENT f3"
    using ok f1(3) f3(3) by (simp add: fac_ok_def TestFactoryFlag_def)
  have st: "mStatus (ClearData f3) = Unprocessed" "\<not> TestFactoryFlag PERSISTENT (ClearData f3)"
    using f3(5) persist by (auto simp: ClearData_def Let_def TestFactoryFlag_def)
  have calls: "fac_calls (ClearData f3)
      = fac_calls fac @ enter_run fac_changes (fac_life fac) r @ [CbProcess r n]"
    using ok f1 f3 by (auto simp: fac_ok_def fac_life_def fac_changes_def)
  have "life_run (fac_life fac) (enter_run fac_changes (fac_life fac) r @ [CbProcess r n]) = Some (InRun r)"
    by (cases "fac_life fac") (use ok in \<open>auto simp: fac_changes_def fac_life_def split: if_splits\<close>)
  then have "life_run Fresh (fac_calls (ClearData f3)) = Some (InRun r)"
    using ok unfolding calls fac_ok_def by (auto intro: life_run_append_Some [THEN trans])
  then show ?thesis
    using st r calls f3(4) by (simp add: fac_event_def create fac_ok_def fac_life_def)
qed

interpretation fc: run_driven fac_ok fac_calls fac_life "fac_event d" fac_changes for d :: "'a user_data"
proof unfold_locales
  fix fac :: "'a JFactory"
  assume "fac_ok fac"
  then show "life_run Fresh (fac_calls fac) = Some (fac_life fac) \<and> fac_life fac \<noteq> Done"
    by (auto simp: fac_ok_def fac_life_def)
next
  fix fac :: "'a JFactory" and r :: int and n :: nat
  assume "fac_ok fac" and "r \<noteq> -1"
  then show "fac_ok (fac_event d (r, n) fac) \<and> fac_life (fac_event d (r, n) fac) = InRun r
      \<and> fac_calls (fac_event d (r, n) fac)
          = fac_calls fac @ enter_run fac_changes (fac_life fac) r @ [CbProcess r n]"
    by (rule fac_event_ok)
qed

section \<open>Ownership of the objects\<close>

datatype 'a fac_op = OpAct "'a data_act" | OpMove "'a list" | OpClear

fun do_fac_op :: "'a fac_op \<Rightarrow> 'a JFactory \<Rightarrow> 'a JFactory" where
  "do_fac_op (OpAct a) fac = do_act a fac"
| "do_fac_op (OpMove xs) fac = Set_move xs fac"
| "do_fac_op OpClear fac = ClearData fac"

text \<open>The objects an operation hands to the factory; setting the vector the factory already holds
  hands over nothing.\<close>

fun handed :: "'a fac_op \<Rightarrow> 'a JFactory \<Rightarrow> 'a list" where
  "handed (OpAct (ActInsert x)) fac = [x]"
| "handed (OpAct (ActSet xs)) fac = (if xs = mData fac then [] else xs)"
| "handed (OpMove xs) fac = xs"
| "handed OpClear fac = []"

fun handed_all :: "'a fac_op list \<Rightarrow> 'a JFactory \<Rightarrow> 'a list" where
  "handed_all [] fac = []"
| "handed_all (op # ops) fac = handed op fac @ handed_all ops (do_fac_op op fac)"

definition fac_owns :: "'a JFactory \<Rightarrow> bool" where
  "fac_owns fac \<longleftrightarrow> \<not> TestFactoryFlag PERSISTENT fac \<and> \<not> TestFactoryFlag NOT_OBJECT_OWNER fac
     \<and> (mStatus fac = Uninitialized \<longrightarrow> mData fac = [])"

lemma fac_op_owns:
  assumes "fac_owns fac"
  shows "fac_owns (do_fac_op op fac)
    \<and> mset (deleted (do_fac_op op fac)) + mset (mData (do_fac_op op fac))
      = mset (deleted fac) + mset (mData fac) + mset (handed op fac)"
proof (cases op)
  case (OpAct a)
  with assms show ?thesis
    by (cases a) (auto simp: fac_owns_def Set_copy_def Insert_def ClearData_def Let_def TestFactoryFlag_def)
qed (use assms in \<open>auto simp: fac_owns_def Set_move_def ClearData_def Let_def TestFactoryFlag_def\<close>)

section \<open>Properties of factories\<close>

definition sample_factory :: "nat JFactory" where
  "sample_factory = new_JFactory ''Hit'' ''Hit'' []"

lemmas sample_factory_simps =
  sample_factory_def new_JFactory_def TestFactoryFlag_def PERSISTENT_def WRITE_TO_OUTPUT_def
  NOT_OBJECT_OWNER_def REGENERATE_def

text \<open>
  C20: over any stream of events the author of a factory sees the advertised protocol.  \<open>Init\<close> comes
  first and once; a change of run brings \<open>EndRun\<close> of the old run (if there was one), \<open>ChangeRun\<close> and
  \<open>BeginRun\<close> of the new one, and nothing when the run stays the same; every event is processed once,
  in its own run.  The complete list of callbacks is the one \<open>script\<close> spells out.
\<close>

theorem factory_stream:
  assumes "\<not> TestFactoryFlag PERSISTENT fac" and "mStatus fac = Uninitialized"
    and "mPreviousRunNumber fac = -1" and "fac_calls fac = []"
    and "\<forall>(r, n)\<in>set evs. r \<noteq> -1" and "evs \<noteq> []"
  shows "fac_calls (fold (fac_event d) evs fac) = script fac_changes Fresh evs
    \<and> (\<exists>l. life_run Fresh (script fac_changes Fresh evs) = Some l)
    \<and> (\<exists>cs. script fac_changes Fresh evs = CbInit # cs \<and> CbInit \<notin> set cs)"
proof -
  from assms have ok: "fac_ok fac" and life: "fac_life fac = Fresh"
    by (simp_all add: fac_ok_def fac_life_def)
  have "fac_calls (fold (fac_event d) evs fac) = script fac_changes Fresh evs"
    using fc.stream_log [OF ok assms(5)] assms(4) life by simp
  with fc.stream_protocol [OF ok assms(5), of d] fc.stream_init_once [OF ok assms(4,5,6), of d] show ?thesis
    by auto
qed

theorem factory_stream_witness:
  "fac_calls (fold (fac_event (\<lambda>_ _. [ActInsert 7])) [(1, 0), (1, 1), (2, 2)] sample_factory)
     = script fac_changes Fresh [(1, 0), (1, 1), (2, 2)]
   \<and> (\<exists>l. life_run Fresh (script fac_changes Fresh [(1, 0), (1, 1), (2, 2)]) = Some l)
   \<and> (\<exists>cs. script fac_changes Fresh [(1, 0), (1, 1), (2, 2)] = CbInit # cs \<and> CbInit \<notin> set cs)"
  by (rule factory_stream) (simp_all add: sample_factory_simps)





text \<open>
  Inserting into a factory that has not been initialised marks it as initialised.  When the event
  is recycled and the next one asks for the data, \<open>Process\<close> runs although \<open>Init\<close> never has.
\<close>

theorem factory_insert_skips_init:
  assumes "mStatus fac = Uninitialized" and "\<not> TestFactoryFlag PERSISTENT fac"
    and "mPreviousRunNumber fac = -1" and "fac_calls fac = []"
  shows "fac_calls (fst (JFactory_Create quiet d (r, n) (ClearData (Insert x fac))))
      = [CbChangeRun r, CbBeginRun r, CbProcess r n]"
proof -
  let ?fac = "ClearData (Insert x fac)"
  have st: "mStatus ?fac = Unprocessed" "fac_calls ?fac = []" "mPreviousRunNumber ?fac = -1"
    using assms by (auto simp: ClearData_def Insert_def Let_def TestFactoryFlag_def)
  obtain f where "awhen (\<lambda>fac. mStatus fac = Unprocessed)
        (athen (fac_change_run quiet d r)
        (athen (fac_call quiet d ''JFactory::Process'' (CbProcess r n))
               (amodify (\<lambda>fac. fac\<lparr>mStatus := Processed, mCreationStatus := Created\<rparr>)))) ?fac = (f, Inr ())"
    "fac_calls f = fac_calls ?fac @
      (if mPreviousRunNumber ?fac = -1 then [CbChangeRun r, CbBeginRun r]
       else if mPreviousRunNumber ?fac \<noteq> r then [CbEndRun, CbChangeRun r, CbBeginRun r] else []) @ [CbProcess r n]"
    using st(1) by (rule process_quiet)
  then show ?thesis using st by (simp add: JFactory_Create_def athen_def abind_def awhen_def)
qed

theorem factory_insert_skips_init_witness:
  "fac_calls (fst (JFactory_Create quiet (\<lambda>_ _. []) (1, 0) (ClearData (Insert 5 sample_factory))))
     = [CbChangeRun 1, CbBeginRun 1, CbProcess 1 0]"
  by (rule factory_insert_skips_init) (simp_all add: sample_factory_simps)

text \<open>
  An exception in \<open>Init\<close> reaches the caller as a \<open>JException\<close> that names the function, and
  leaves the factory uninitialised with nothing else called, so that \<open>Init\<close> is tried again next time.
\<close>

theorem factory_init_throws:
  assumes "mStatus fac = Uninitialized" and "u CbInit (fac_calls fac) = Some t" and "d CbInit (fac_calls fac) = []"
  shows "JFactory_Create u d ev fac
    = (fac\<lparr>fac_calls := fac_calls fac @ [CbInit]\<rparr>,
       Inl (CallWithJExceptionWrapper ''JFactory::Init'' (fac_id fac) t))"
  using assms by (simp add: JFactory_Create_def action_defs fac_call_def)

theorem factory_init_throws_witness:
  "JFactory_Create (\<lambda>_ _. Some (ThrowStd ''std::runtime_error'' ''boom'')) (\<lambda>_ _. []) (1, 0) sample_factory
    = (sample_factory\<lparr>fac_calls := fac_calls sample_factory @ [CbInit]\<rparr>,
       Inl (CallWithJExceptionWrapper ''JFactory::Init'' (fac_id sample_factory)
              (ThrowStd ''std::runtime_error'' ''boom'')))"
  by (rule factory_init_throws) (simp_all add: sample_factory_simps)

end
