(* ===== verification/FactorySet.thy ===== *)
theory FactorySet
  imports Factory
begin

text \<open>
  Factory sets: \<open>JFactorySet.h\<close> and \<open>JFactorySet.cc\<close>.  A set holds pointers; \<open>H\<close> is the heap of
  factories they point into.  Both indices are ordered maps, the typed one keyed by the object type
  and the tag, the untyped one by the object name and the tag.  A generator is user code that fills a
  set, a parameter.
\<close>

section \<open>State\<close>

type_synonym fptr = nat
type_synonym 'a fheap = "fptr \<Rightarrow> 'a JFactory"

record JFactorySet =
  mFactories :: "(string \<times> string, fptr) omap"
  mFactoriesFromString :: "(string \<times> string, fptr) omap"
  mMultifactories :: "nat list"
  mIsFactoryOwner :: bool
  mLevel :: JEventLevel

definition new_JFactorySet :: JFactorySet where
  "new_JFactorySet =
     \<lparr>mFactories = [], mFactoriesFromString = [], mMultifactories = [], mIsFactoryOwner = True,
      mLevel = PhysicsEvent\<rparr>"

definition typed_key :: "'a fheap \<Rightarrow> fptr \<Rightarrow> string \<times> string" where
  "typed_key H f = (mObjectType (H f), mTag (H f))"

definition untyped_key :: "'a fheap \<Rightarrow> fptr \<Rightarrow> string \<times> string" where
  "untyped_key H f = (mObjectName (H f), mTag (H f))"

section \<open>Operations\<close>

definition JFactorySet_Add :: "'a fheap \<Rightarrow> fptr \<Rightarrow> JFactorySet \<Rightarrow> JFactorySet result" where
  "JFactorySet_Add H aFactory s =
     (if om_find (typed_key H aFactory) (mFactories s) \<noteq> None
         \<or> om_find (untyped_key H aFactory) (mFactoriesFromString s) \<noteq> None
      then Inl (JExc ''JFactorySet::Add failed because factory is duplicate'')
      else Inr (s\<lparr>mFactories := om_put (typed_key H aFactory) aFactory (mFactories s),
                  mFactoriesFromString := om_put (untyped_key H aFactory) aFactory (mFactoriesFromString s)\<rparr>))"

definition JFactorySet_GetAllFactories :: "JFactorySet \<Rightarrow> fptr list" where
  "JFactorySet_GetAllFactories s = map snd (mFactories s)"

definition JFactorySet_GetAllMultifactories :: "JFactorySet \<Rightarrow> nat list" where
  "JFactorySet_GetAllMultifactories s = mMultifactories s"

fun JFactorySet_Add_each :: "'a fheap \<Rightarrow> fptr list \<Rightarrow> JFactorySet \<Rightarrow> JFactorySet result" where
  "JFactorySet_Add_each H [] s = Inr s"
| "JFactorySet_Add_each H (f # fs) s = rbind (JFactorySet_Add H f s) (JFactorySet_Add_each H fs)"

text \<open>Adding a multifactory takes its helpers over; the helper set is returned without ownership.\<close>

definition JFactorySet_Add_multifactory ::
    "'a fheap \<Rightarrow> nat \<Rightarrow> JFactorySet \<Rightarrow> JFactorySet \<Rightarrow> (JFactorySet \<times> JFactorySet) result" where
  "JFactorySet_Add_multifactory H multifactory helpers s =
     rbind (JFactorySet_Add_each H (JFactorySet_GetAllFactories helpers) s) (\<lambda>s'.
       Inr (s'\<lparr>mMultifactories := mMultifactories s' @ [multifactory]\<rparr>, helpers\<lparr>mIsFactoryOwner := False\<rparr>))"

definition JFactorySet_GetFactory :: "'a fheap \<Rightarrow> string \<Rightarrow> string \<Rightarrow> JFactorySet \<Rightarrow> fptr ptr result" where
  "JFactorySet_GetFactory H object_name tag s =
     (case om_find (object_name, tag) (mFactoriesFromString s) of
        Some f \<Rightarrow>
          if fac_level (H f) \<noteq> mLevel s
          then Inl (JExc ''Factory belongs to a different level on the event hierarchy!'')
          else Inr (Some f)
      | None \<Rightarrow> Inr nullptr)"

text \<open>The typed lookup: \<open>T\<close> is the type index, \<open>demangled\<close> its printed name.\<close>

definition JFactorySet_GetFactoryT ::
    "'a fheap \<Rightarrow> string \<Rightarrow> string \<Rightarrow> string \<Rightarrow> JFactorySet \<Rightarrow> fptr ptr result" where
  "JFactorySet_GetFactoryT H T demangled tag s =
     (case om_find (T, tag) (mFactories s) of
        Some f \<Rightarrow>
          if fac_level (H f) \<noteq> mLevel s
          then Inl (JExc ''Factory belongs to a different level on the event hierarchy'')
          else Inr (Some f)
      | None \<Rightarrow>
          (case om_find (demangled, tag) (mFactoriesFromString s) of
             Some f \<Rightarrow>
               if fac_level (H f) \<noteq> mLevel s
               then Inl (JExc ''Factory belongs to a different level on the event hierarchy'')
               else Inr (Some f)
           | None \<Rightarrow> Inr nullptr))"

definition JFactorySet_GetAllFactoriesT :: "'a fheap \<Rightarrow> string \<Rightarrow> JFactorySet \<Rightarrow> fptr list" where
  "JFactorySet_GetAllFactoriesT H T s =
     map snd (filter (\<lambda>(k, f). fst k = T \<and> fac_level (H f) = mLevel s) (mFactories s))"

text \<open>The loop of \<open>Merge\<close> over the source's typed map; \<open>tmp\<close> collects the duplicates.\<close>

fun merge_loop ::
    "'a fheap \<Rightarrow> (string \<times> string, fptr) omap \<Rightarrow> JFactorySet \<Rightarrow> (string \<times> string, fptr) omap
       \<Rightarrow> JFactorySet \<times> (string \<times> string, fptr) omap" where
  "merge_loop H [] s tmp = (s, tmp)"
| "merge_loop H ((k, f) # rest) s tmp =
     (if om_find (typed_key H f) (mFactories s) \<noteq> None
         \<or> om_find (untyped_key H f) (mFactoriesFromString s) \<noteq> None
      then merge_loop H rest s (om_put k f tmp)
      else merge_loop H rest
             (s\<lparr>mFactories := om_put (typed_key H f) f (mFactories s),
                mFactoriesFromString := om_put (untyped_key H f) f (mFactoriesFromString s)\<rparr>) tmp)"

definition JFactorySet_Merge ::
    "'a fheap \<Rightarrow> JFactorySet \<Rightarrow> JFactorySet \<Rightarrow> JFactorySet \<times> JFactorySet" where
  "JFactorySet_Merge H aFactorySet s =
     (case merge_loop H (mFactories aFactorySet) s [] of (s', tmp) \<Rightarrow>
        (s'\<lparr>mMultifactories := mMultifactories s' @ mMultifactories aFactorySet\<rparr>,
         aFactorySet\<lparr>mFactories := tmp, mMultifactories := []\<rparr>))"

text \<open>The constructors: a generator fills a fresh set, which is merged; what it leaves behind is destroyed.\<close>

type_synonym generator = "JFactorySet \<Rightarrow> JFactorySet"

definition JFactorySet_destroyed :: "JFactorySet \<Rightarrow> fptr list \<times> nat list" where
  "JFactorySet_destroyed s =
     (if mIsFactoryOwner s then map snd (mFactories s) else [], mMultifactories s)"

fun merge_generators ::
    "'a fheap \<Rightarrow> generator list \<Rightarrow> JFactorySet \<times> fptr list \<Rightarrow> JFactorySet \<times> fptr list" where
  "merge_generators H [] (s, gone) = (s, gone)"
| "merge_generators H (gen # gens) (s, gone) =
     (case JFactorySet_Merge H (gen new_JFactorySet) s of (s', left) \<Rightarrow>
        merge_generators H gens (s', gone @ fst (JFactorySet_destroyed left)))"

definition JFactorySet_from_generators :: "'a fheap \<Rightarrow> generator list \<Rightarrow> JFactorySet \<times> fptr list" where
  "JFactorySet_from_generators H gens = merge_generators H gens (new_JFactorySet, [])"

definition JFactorySet_from_source ::
    "'a fheap \<Rightarrow> generator option \<Rightarrow> generator list \<Rightarrow> JFactorySet \<times> fptr list" where
  "JFactorySet_from_source H source_gen default_gens =
     merge_generators H default_gens
       (case source_gen of None \<Rightarrow> new_JFactorySet | Some gen \<Rightarrow> gen new_JFactorySet, [])"

definition JFactorySet_Release :: "JFactorySet \<Rightarrow> 'a fheap \<Rightarrow> 'a fheap" where
  "JFactorySet_Release s H = fold (\<lambda>p H. H(snd p := ClearData (H (snd p)))) (mFactories s) H"

text \<open>\<open>Print\<close>: one line per factory of the set's level, the object names right-aligned.\<close>

fun print_width :: "'a fheap \<Rightarrow> JEventLevel \<Rightarrow> nat \<Rightarrow> (string \<times> string, fptr) omap \<Rightarrow> nat" where
  "print_width H lv max_len [] = max_len"
| "print_width H lv max_len ((k, f) # rest) =
     (if fac_level (H f) \<noteq> lv then print_width H lv max_len rest
      else print_width H lv
             (if max_len < length (mObjectName (H f)) then length (mObjectName (H f)) else max_len) rest)"

definition JFactorySet_Print :: "'a fheap \<Rightarrow> JFactorySet \<Rightarrow> string list" where
  "JFactorySet_Print H s =
     (let max_len = print_width H (mLevel s) 0 (mFactories s) + 4 in
      map (\<lambda>(k, f). replicate (max_len - length (mObjectName (H f))) CHR '' '' @ mObjectName (H f)
             @ (if mTag (H f) \<noteq> [] then '':'' @ mTag (H f) else []))
        (filter (\<lambda>(k, f). fac_level (H f) = mLevel s) (mFactories s)))"

section \<open>The two indices agree\<close>

definition fs_ok :: "'a fheap \<Rightarrow> JFactorySet \<Rightarrow> bool" where
  "fs_ok H s \<longleftrightarrow> om_ok (mFactories s) \<and> om_ok (mFactoriesFromString s)
     \<and> (\<forall>(k, f)\<in>set (mFactories s). k = typed_key H f \<and> om_find (untyped_key H f) (mFactoriesFromString s) = Some f)
     \<and> (\<forall>(k, f)\<in>set (mFactoriesFromString s). k = untyped_key H f \<and> om_find (typed_key H f) (mFactories s) = Some f)"

lemma fs_okD:
  assumes "fs_ok H s"
  shows "om_ok (mFactories s)" and "om_ok (mFactoriesFromString s)"
    and "om_find k (mFactories s) = Some f \<Longrightarrow>
      k = typed_key H f \<and> om_find (untyped_key H f) (mFactoriesFromString s) = Some f"
    and "om_find k (mFactoriesFromString s) = Some f \<Longrightarrow>
      k = untyped_key H f \<and> om_find (typed_key H f) (mFactories s) = Some f"
  using assms by (auto simp: fs_ok_def dest!: om_find_in)

lemma fs_ok_new: "fs_ok H new_JFactorySet"
  by (simp add: fs_ok_def new_JFactorySet_def)

lemma fs_okI:
  assumes "om_ok (mFactories s)" and "om_ok (mFactoriesFromString s)"
    and "\<And>k f. om_find k (mFactories s) = Some f \<Longrightarrow>
      k = typed_key H f \<and> om_find (untyped_key H f) (mFactoriesFromString s) = Some f"
    and "\<And>k f. om_find k (mFactoriesFromString s) = Some f \<Longrightarrow>
      k = untyped_key H f \<and> om_find (typed_key H f) (mFactories s) = Some f"
  shows "fs_ok H s"
  using assms by (auto simp: fs_ok_def om_in_iff)

lemma fs_ok_put:
  assumes "fs_ok H s" and "om_find (typed_key H f) (mFactories s) = None"
    and "om_find (untyped_key H f) (mFactoriesFromString s) = None"
  shows "fs_ok H (s\<lparr>mFactories := om_put (typed_key H f) f (mFactories s),
                mFactoriesFromString := om_put (untyped_key H f) f (mFactoriesFromString s)\<rparr>)"
  by (rule fs_okI)
    (use assms(2,3) fs_okD(1,2) [OF assms(1)] in
      \<open>auto simp: om.find_put om.ok_put dest: fs_okD(3,4) [OF assms(1)] split: if_splits\<close>)

lemma fs_ok_Add: "fs_ok H s \<Longrightarrow> JFactorySet_Add H f s = Inr s' \<Longrightarrow> fs_ok H s'"
  by (auto simp: JFactorySet_Add_def intro: fs_ok_put split: if_splits)

section \<open>Merging\<close>

definition has_key :: "'a fheap \<Rightarrow> fptr \<Rightarrow> JFactorySet \<Rightarrow> bool" where
  "has_key H f s \<longleftrightarrow> om_find (typed_key H f) (mFactories s) \<noteq> None
     \<or> om_find (untyped_key H f) (mFactoriesFromString s) \<noteq> None"

definition keeps :: "JFactorySet \<Rightarrow> JFactorySet \<Rightarrow> bool" where
  "keeps s s' \<longleftrightarrow> (\<forall>k f. om_find k (mFactories s) = Some f \<longrightarrow> om_find k (mFactories s') = Some f)"

lemma keepsD: "keeps s s' \<Longrightarrow> om_find k (mFactories s) = Some f \<Longrightarrow> om_find k (mFactories s') = Some f"
  by (simp only: keeps_def)

lemma keeps_trans: "keeps s s' \<Longrightarrow> keeps s' s'' \<Longrightarrow> keeps s s''"
  by (simp only: keeps_def) blast

lemma keeps_has_key:
  assumes "fs_ok H s" and "fs_ok H s'" and "keeps s s'" and "has_key H f s"
  shows "has_key H f s'"
proof (cases "om_find (typed_key H f) (mFactories s)")
  case None
  with assms(4) obtain g where g: "om_find (untyped_key H f) (mFactoriesFromString s) = Some g"
    by (auto simp: has_key_def)
  from fs_okD(4) [OF assms(1) g] have "untyped_key H f = untyped_key H g"
    "om_find (typed_key H g) (mFactories s) = Some g" by blast+
  with keepsD [OF assms(3)] have "om_find (typed_key H g) (mFactories s') = Some g" by blast
  with fs_okD(3) [OF assms(2)] have "om_find (untyped_key H g) (mFactoriesFromString s') = Some g" by blast
  with \<open>untyped_key H f = untyped_key H g\<close> show ?thesis by (simp add: has_key_def)
next
  case (Some g)
  with keepsD [OF assms(3)] show ?thesis by (auto simp: has_key_def)
qed

lemma merge_loop_spec:
  assumes "fs_ok H s" and "om_ok (rest :: (string \<times> string, fptr) omap)" and "om_ok tmp"
    and "\<And>k. k \<in> fst ` set rest \<Longrightarrow> om_find k tmp = None"
    and "merge_loop H rest s tmp = (s', tmp')"
  shows "fs_ok H s' \<and> om_ok tmp'
    \<and> mset (map snd (mFactories s')) + mset (map snd tmp')
      = mset (map snd (mFactories s)) + mset (map snd tmp) + mset (map snd rest)
    \<and> keeps s s'
    \<and> (\<forall>f\<in>snd ` set rest. has_key H f s')
    \<and> mMultifactories s' = mMultifactories s \<and> mLevel s' = mLevel s"
  using assms
proof (induction H rest s tmp rule: merge_loop.induct)
  case (1 H s tmp)
  then show ?case by (simp add: keeps_def)
next
  case (2 H k f rest s tmp)
  have rest: "om_ok rest" "k \<notin> fst ` set rest"
    using "2.prems"(2) by (auto simp: om_ok_def)
  show ?case
  proof (cases "has_key H f s")
    case True
    have "merge_loop H rest s (om_put k f tmp) = (s', tmp')"
      using "2.prems"(5) True by (simp add: has_key_def)
    moreover have "om_find k' (om_put k f tmp) = None" if "k' \<in> fst ` set rest" for k'
      using that rest(2) "2.prems"(3,4) by (auto simp: om.find_put)
    moreover have "mset (map snd (om_put k f tmp)) = add_mset f (mset (map snd tmp))"
      using om_put_fresh [of k tmp f] "2.prems"(4) [of k] by simp
    ultimately have IH: "fs_ok H s' \<and> om_ok tmp'
        \<and> mset (map snd (mFactories s')) + mset (map snd tmp')
          = mset (map snd (mFactories s)) + add_mset f (mset (map snd tmp)) + mset (map snd rest)
        \<and> keeps s s'
        \<and> (\<forall>f\<in>snd ` set rest. has_key H f s')
        \<and> mMultifactories s' = mMultifactories s \<and> mLevel s' = mLevel s"
      using "2.IH"(1) [of ] True "2.prems"(1) rest(1) om.ok_put [OF "2.prems"(3), of k f]
      by (simp add: has_key_def)
    have "has_key H f s'" using keeps_has_key [OF "2.prems"(1) _ _ True] IH by blast
    with IH show ?thesis by simp
  next
    case False
    let ?s = "s\<lparr>mFactories := om_put (typed_key H f) f (mFactories s),
                mFactoriesFromString := om_put (untyped_key H f) f (mFactoriesFromString s)\<rparr>"
    have ok: "fs_ok H ?s" using False "2.prems"(1) by (auto simp: has_key_def intro: fs_ok_put)
    have "merge_loop H rest ?s tmp = (s', tmp')"
      using "2.prems"(5) False by (simp add: has_key_def)
    then have IH: "fs_ok H s' \<and> om_ok tmp'
        \<and> mset (map snd (mFactories s')) + mset (map snd tmp')
          = mset (map snd (mFactories ?s)) + mset (map snd tmp) + mset (map snd rest)
        \<and> keeps ?s s'
        \<and> (\<forall>f\<in>snd ` set rest. has_key H f s')
        \<and> mMultifactories s' = mMultifactories ?s \<and> mLevel s' = mLevel ?s"
      using "2.IH"(2) False ok rest(1) "2.prems"(3,4) by (simp add: has_key_def)
    have put: "om_find k' (mFactories ?s) = (if k' = typed_key H f then Some f else om_find k' (mFactories s))" for k'
      using fs_okD(1) [OF "2.prems"(1)] by (simp add: om.find_put)
    have "mset (map snd (mFactories ?s)) = add_mset f (mset (map snd (mFactories s)))"
      using om_put_fresh [of "typed_key H f" "mFactories s" f] False by (simp add: has_key_def)
    moreover have "has_key H f ?s" using put [of "typed_key H f"] by (simp add: has_key_def)
    then have "has_key H f s'" using keeps_has_key [OF ok] IH by blast
    moreover have "keeps s ?s" using put False unfolding keeps_def has_key_def by auto
    then have "keeps s s'" using IH keeps_trans by blast
    ultimately show ?thesis using IH by simp
  qed
qed

lemma merge_generators_ok:
  assumes "fs_ok H s" and "\<forall>gen\<in>set gens. fs_ok H (gen new_JFactorySet)"
    and "merge_generators H gens (s, gone) = (s', gone')"
  shows "fs_ok H s' \<and> keeps s s'"
  using assms
proof (induction gens arbitrary: s gone)
  case (Cons gen gens)
  obtain s1 left where m: "JFactorySet_Merge H (gen new_JFactorySet) s = (s1, left)"
    by (cases "JFactorySet_Merge H (gen new_JFactorySet) s")
  obtain s0 tmp where loop: "merge_loop H (mFactories (gen new_JFactorySet)) s [] = (s0, tmp)"
    by (cases "merge_loop H (mFactories (gen new_JFactorySet)) s []")
  have "om_ok (mFactories (gen new_JFactorySet))" using Cons.prems(2) fs_okD(1) by auto
  from merge_loop_spec [OF Cons.prems(1) this om_ok_Nil _ loop]
  have s0: "fs_ok H s0" "keeps s s0" by simp_all
  have "s1 = s0\<lparr>mMultifactories := mMultifactories s0 @ mMultifactories (gen new_JFactorySet)\<rparr>"
    using m loop by (simp add: JFactorySet_Merge_def)
  with s0 have "fs_ok H s1" "keeps s s1" by (simp_all add: fs_ok_def keeps_def)
  with Cons.IH [of s1 "gone @ fst (JFactorySet_destroyed left)"] Cons.prems m show ?case
    by (auto intro: keeps_trans)
qed (simp add: keeps_def)

lemma fs_ok_distinct:
  assumes "fs_ok H s"
  shows "distinct (map snd (mFactories s))"
proof -
  have "map fst (mFactories s) = map (typed_key H) (map snd (mFactories s))"
    using assms by (auto simp: fs_ok_def)
  with om_ok_distinct [OF fs_okD(1) [OF assms]] show ?thesis
    by (metis distinct_map)
qed

lemma release_fold:
  "distinct (map snd ps) \<Longrightarrow>
     fold (\<lambda>p H. H(snd p := ClearData (H (snd p)))) ps H f
       = (if f \<in> snd ` set ps then ClearData (H f) else H f)"
  by (induction ps arbitrary: H) auto

section \<open>Properties of factory sets\<close>

definition sample_heap :: "nat fheap" where
  "sample_heap f = (if f = 0 then new_JFactory ''Hit'' ''Hit'' [] else new_JFactory ''Track'' ''Track'' ''fit'')"

definition sample_set :: JFactorySet where
  "sample_set = new_JFactorySet\<lparr>mFactories := [((''Hit'', []), 0)], mFactoriesFromString := [((''Hit'', []), 0)]\<rparr>"

lemma sample_set_ok: "fs_ok sample_heap sample_set"
  by (simp add: fs_ok_def sample_set_def sample_heap_def new_JFactory_def typed_key_def untyped_key_def
      om_find_def om_ok_def)

text \<open>
  C31: adding a factory whose type/tag and name/tag are both free makes it the one that a lookup by type
  and a lookup by name return, adds nothing else, and leaves every other lookup as it was; a taken key
  is refused.
\<close>

theorem factoryset_add:
  assumes "fs_ok H s" and "fac_level (H f) = mLevel s"
  shows "if has_key H f s
    then JFactorySet_Add H f s = Inl (JExc ''JFactorySet::Add failed because factory is duplicate'')
    else (\<exists>s'. JFactorySet_Add H f s = Inr s' \<and> fs_ok H s'
      \<and> JFactorySet_GetFactoryT H (mObjectType (H f)) demangled (mTag (H f)) s' = Inr (Some f)
      \<and> JFactorySet_GetFactory H (mObjectName (H f)) (mTag (H f)) s' = Inr (Some f)
      \<and> mset (JFactorySet_GetAllFactories s') = add_mset f (mset (JFactorySet_GetAllFactories s))
      \<and> (\<forall>T name tag. (T, tag) \<noteq> typed_key H f \<and> (name, tag) \<noteq> untyped_key H f \<longrightarrow>
            JFactorySet_GetFactoryT H T name tag s' = JFactorySet_GetFactoryT H T name tag s))"
proof (cases "has_key H f s")
  case True
  then show ?thesis by (simp add: JFactorySet_Add_def has_key_def)
next
  case False
  let ?s = "s\<lparr>mFactories := om_put (typed_key H f) f (mFactories s),
              mFactoriesFromString := om_put (untyped_key H f) f (mFactoriesFromString s)\<rparr>"
  have add: "JFactorySet_Add H f s = Inr ?s" using False by (auto simp: JFactorySet_Add_def has_key_def)
  have put: "om_find k (mFactories ?s) = (if k = typed_key H f then Some f else om_find k (mFactories s))"
    "om_find k (mFactoriesFromString ?s) = (if k = untyped_key H f then Some f else om_find k (mFactoriesFromString s))" for k
    using fs_okD(1,2) [OF assms(1)] by (simp_all add: om.find_put)
  have "mset (JFactorySet_GetAllFactories ?s) = add_mset f (mset (JFactorySet_GetAllFactories s))"
    using om_put_fresh [of "typed_key H f" "mFactories s" f] False
    by (simp add: JFactorySet_GetAllFactories_def has_key_def)
  moreover have "JFactorySet_GetFactoryT H (mObjectType (H f)) demangled (mTag (H f)) ?s = Inr (Some f)"
    using put(1) [of "typed_key H f"] assms(2) by (simp add: JFactorySet_GetFactoryT_def typed_key_def)
  moreover have "JFactorySet_GetFactory H (mObjectName (H f)) (mTag (H f)) ?s = Inr (Some f)"
    using put(2) [of "untyped_key H f"] assms(2) by (simp add: JFactorySet_GetFactory_def untyped_key_def)
  moreover have "JFactorySet_GetFactoryT H T name tag ?s = JFactorySet_GetFactoryT H T name tag s"
    if "(T, tag) \<noteq> typed_key H f" "(name, tag) \<noteq> untyped_key H f" for T name tag
    unfolding JFactorySet_GetFactoryT_def put using that by (simp split: option.split)
  ultimately show ?thesis using add fs_ok_Add [OF assms(1) add] False by auto
qed

theorem factoryset_add_witness:
  "\<exists>s'. JFactorySet_Add sample_heap 1 sample_set = Inr s'
     \<and> JFactorySet_GetFactoryT sample_heap ''Track'' ''Track'' ''fit'' s' = Inr (Some 1)"
  using factoryset_add [OF sample_set_ok, of 1 "''Track''"]
  by (auto simp: sample_heap_def sample_set_def new_JFactory_def new_JFactorySet_def has_key_def
      typed_key_def untyped_key_def om_find_def)

text \<open>
  C24: \<open>Merge\<close> loses no factory and duplicates none.  The receiving set keeps everything it had, the two
  sets together hold the factories they held before, and every factory of the source, moved or left
  behind, is answered for in the receiving set by its type or its name.
\<close>

theorem factoryset_merge:
  assumes "fs_ok H s" and "fs_ok H other" and "JFactorySet_Merge H other s = (s', other')"
  shows "fs_ok H s'
    \<and> mset (JFactorySet_GetAllFactories s') + mset (JFactorySet_GetAllFactories other')
      = mset (JFactorySet_GetAllFactories s) + mset (JFactorySet_GetAllFactories other)
    \<and> (\<forall>k f. om_find k (mFactories s) = Some f \<longrightarrow> om_find k (mFactories s') = Some f)
    \<and> (\<forall>f\<in>set (JFactorySet_GetAllFactories other). has_key H f s')
    \<and> mMultifactories s' = mMultifactories s @ mMultifactories other \<and> mMultifactories other' = []"
proof -
  obtain s0 tmp where loop: "merge_loop H (mFactories other) s [] = (s0, tmp)"
    by (cases "merge_loop H (mFactories other) s []")
  from assms(3) loop have s': "s' = s0\<lparr>mMultifactories := mMultifactories s0 @ mMultifactories other\<rparr>"
    and other': "other' = other\<lparr>mFactories := tmp, mMultifactories := []\<rparr>"
    by (simp_all add: JFactorySet_Merge_def)
  have spec: "fs_ok H s0 \<and> om_ok tmp
    \<and> mset (map snd (mFactories s0)) + mset (map snd tmp)
      = mset (map snd (mFactories s)) + mset (map snd []) + mset (map snd (mFactories other))
    \<and> keeps s s0 \<and> (\<forall>f\<in>snd ` set (mFactories other). has_key H f s0)
    \<and> mMultifactories s0 = mMultifactories s \<and> mLevel s0 = mLevel s"
    using merge_loop_spec [OF assms(1) fs_okD(1) [OF assms(2)] om_ok_Nil _ loop] by simp
  then show ?thesis
    by (simp add: s' other' JFactorySet_GetAllFactories_def keeps_def fs_ok_def has_key_def)
qed

theorem factoryset_merge_witness:
  "om_find (''Hit'', []) (mFactories (fst (JFactorySet_Merge sample_heap sample_set new_JFactorySet))) = Some 0
   \<and> mset (JFactorySet_GetAllFactories (fst (JFactorySet_Merge sample_heap sample_set new_JFactorySet)))
     + mset (JFactorySet_GetAllFactories (snd (JFactorySet_Merge sample_heap sample_set new_JFactorySet)))
     = mset (JFactorySet_GetAllFactories new_JFactorySet) + mset (JFactorySet_GetAllFactories sample_set)"
proof -
  from factoryset_merge [OF fs_ok_new sample_set_ok, of
      "fst (JFactorySet_Merge sample_heap sample_set new_JFactorySet)"
      "snd (JFactorySet_Merge sample_heap sample_set new_JFactorySet)"]
  have "mset (JFactorySet_GetAllFactories (fst (JFactorySet_Merge sample_heap sample_set new_JFactorySet)))
     + mset (JFactorySet_GetAllFactories (snd (JFactorySet_Merge sample_heap sample_set new_JFactorySet)))
     = mset (JFactorySet_GetAllFactories new_JFactorySet) + mset (JFactorySet_GetAllFactories sample_set)"
    by simp
  then show ?thesis
    by (simp add: JFactorySet_Merge_def sample_set_def new_JFactorySet_def sample_heap_def new_JFactory_def
        typed_key_def untyped_key_def om_find_def)
qed

text \<open>
  C37: \<open>Merge\<close> empties only the typed index of its argument.  A factory that has moved to the receiving
  set is still returned by a lookup by name in the set it left, contrary to the comment on \<open>Merge\<close>.
\<close>

theorem factoryset_merge_stale:
  assumes "JFactorySet_Merge H other s = (s', other')"
  shows "JFactorySet_GetFactory H name tag other' = JFactorySet_GetFactory H name tag other"
  using assms
  by (auto simp: JFactorySet_Merge_def JFactorySet_GetFactory_def split: prod.splits option.split)

theorem factoryset_merge_stale_witness:
  "JFactorySet_GetFactory sample_heap ''Hit'' [] (snd (JFactorySet_Merge sample_heap sample_set new_JFactorySet))
     = Inr (Some 0)
   \<and> JFactorySet_GetAllFactories (snd (JFactorySet_Merge sample_heap sample_set new_JFactorySet)) = []"
proof -
  have "JFactorySet_GetFactory sample_heap ''Hit'' [] (snd (JFactorySet_Merge sample_heap sample_set new_JFactorySet))
      = JFactorySet_GetFactory sample_heap ''Hit'' [] sample_set"
    by (rule factoryset_merge_stale) (rule prod.collapse [symmetric])
  then show ?thesis
    by (simp add: JFactorySet_Merge_def JFactorySet_GetFactory_def JFactorySet_GetAllFactories_def sample_set_def
        new_JFactorySet_def sample_heap_def new_JFactory_def typed_key_def untyped_key_def om_find_def)
qed

text \<open>
  C30: \<open>Release\<close> clears exactly the factories of the set, each once; a factory that was initialised and
  is not persistent comes out unprocessed and without data, and every other factory is untouched.
\<close>

theorem factoryset_release:
  assumes "fs_ok H s"
  shows "(\<forall>f\<in>set (JFactorySet_GetAllFactories s). JFactorySet_Release s H f = ClearData (H f)
        \<and> (mStatus (H f) \<noteq> Uninitialized \<and> \<not> TestFactoryFlag PERSISTENT (H f) \<longrightarrow>
             mStatus (JFactorySet_Release s H f) = Unprocessed \<and> mData (JFactorySet_Release s H f) = []))
    \<and> (\<forall>f. f \<notin> set (JFactorySet_GetAllFactories s) \<longrightarrow> JFactorySet_Release s H f = H f)"
  using release_fold [OF fs_ok_distinct [OF assms], of H]
  by (auto simp: JFactorySet_Release_def JFactorySet_GetAllFactories_def ClearData_def Let_def)

theorem factoryset_release_witness:
  "JFactorySet_Release sample_set sample_heap 0 = ClearData (sample_heap 0)
   \<and> JFactorySet_Release sample_set sample_heap 1 = sample_heap 1"
  using factoryset_release [OF sample_set_ok]
  by (simp add: JFactorySet_GetAllFactories_def sample_set_def)

end
