(* ===== verification/Event.thy ===== *)
theory Event
  imports FactorySet
begin

text \<open>
  Events: \<open>JEvent.h\<close>.  Events and factories live in heaps and are referred to by address.  The first
  part is the container (insertion and retrieval through the factory set, with default tags), the
  second the event hierarchy (parents and reference counts).  Object types are names.
\<close>

section \<open>State\<close>

type_synonym eptr = nat

record JEvent =
  mRunNumber :: int
  mEventNumber :: nat
  mFactorySet :: JFactorySet
  mCallGraph :: JCallGraphRecorder
  mUseDefaultTags :: bool
  mDefaultTags :: "(string, string) omap"
  mEventSource :: "nat ptr"
  mIsBarrierEvent :: bool
  mParents :: "(JEventLevel \<times> eptr) list"
  mReferenceCount :: int
  mEventIndex :: int

type_synonym eheap = "eptr \<Rightarrow> JEvent"

definition new_JEvent :: JEvent where
  "new_JEvent =
     \<lparr>mRunNumber = 0, mEventNumber = 0, mFactorySet = new_JFactorySet, mCallGraph = new_JCallGraphRecorder,
      mUseDefaultTags = False, mDefaultTags = [], mEventSource = None, mIsBarrierEvent = False,
      mParents = [], mReferenceCount = 1, mEventIndex = -1\<rparr>"

section \<open>Setters and getters\<close>

definition SetRunNumber :: "int \<Rightarrow> JEvent \<Rightarrow> JEvent" where
  "SetRunNumber n ev = ev\<lparr>mRunNumber := n\<rparr>"

definition SetEventNumber :: "nat \<Rightarrow> JEvent \<Rightarrow> JEvent" where
  "SetEventNumber n ev = ev\<lparr>mEventNumber := n\<rparr>"

definition SetJEventSource :: "nat ptr \<Rightarrow> JEvent \<Rightarrow> JEvent" where
  "SetJEventSource source ev = ev\<lparr>mEventSource := source\<rparr>"

definition SetDefaultTags :: "(string, string) omap \<Rightarrow> JEvent \<Rightarrow> JEvent" where
  "SetDefaultTags tags ev = ev\<lparr>mDefaultTags := tags, mUseDefaultTags := (tags \<noteq> [])\<rparr>"

definition SetSequential :: "bool \<Rightarrow> JEvent \<Rightarrow> JEvent" where
  "SetSequential b ev = ev\<lparr>mIsBarrierEvent := b\<rparr>"

definition SetEventIndex :: "int \<Rightarrow> JEvent \<Rightarrow> JEvent" where
  "SetEventIndex i ev = ev\<lparr>mEventIndex := i\<rparr>"

definition JEvent_GetLevel :: "JEvent \<Rightarrow> JEventLevel" where
  "JEvent_GetLevel ev = mLevel (mFactorySet ev)"

definition JEvent_SetLevel :: "JEventLevel \<Rightarrow> JEvent \<Rightarrow> JEvent" where
  "JEvent_SetLevel level ev = ev\<lparr>mFactorySet := (mFactorySet ev)\<lparr>mLevel := level\<rparr>\<rparr>"

section \<open>The hierarchy\<close>

definition HasParent :: "JEventLevel \<Rightarrow> JEvent \<Rightarrow> bool" where
  "HasParent level ev = list_ex (\<lambda>p. fst p = level) (mParents ev)"

definition GetParent :: "JEventLevel \<Rightarrow> JEvent \<Rightarrow> eptr result" where
  "GetParent level ev =
     (case find (\<lambda>p. fst p = level) (mParents ev) of
        Some p \<Rightarrow> Inr (snd p)
      | None \<Rightarrow> Inl (JExc (''Unable to find parent at level '' @ toString level)))"

definition SetParent :: "eptr \<Rightarrow> eptr \<Rightarrow> eheap \<Rightarrow> eheap result" where
  "SetParent child parent E =
     (let level = JEvent_GetLevel (E parent) in
      if list_ex (\<lambda>p. fst p = level) (mParents (E child))
      then Inl (JExc (''Event already has a parent at level '' @ toString level))
      else
        let E1 = E(child := (E child)\<lparr>mParents := mParents (E child) @ [(level, parent)]\<rparr>) in
        Inr (E1(parent := (E1 parent)\<lparr>mReferenceCount := mReferenceCount (E1 parent) + 1\<rparr>)))"

definition ReleaseParent :: "eptr \<Rightarrow> JEventLevel \<Rightarrow> eheap \<Rightarrow> (eheap \<times> eptr ptr) result" where
  "ReleaseParent child level E =
     (if mParents (E child) = [] then Inl (JExc ''ReleaseParent failed: child has no parents!'')
      else
        let pair = last (mParents (E child)); parent = snd pair in
        if fst pair \<noteq> level
        then Inl (JExc (''JEvent::ReleaseParent called out of level order: Caller expected '' @ toString level
               @ '', but parent was actually '' @ toString (fst pair)))
        else
          let E1 = E(child := (E child)\<lparr>mParents := butlast (mParents (E child))\<rparr>);
              remaining_refs = mReferenceCount (E1 parent);
              E2 = E1(parent := (E1 parent)\<lparr>mReferenceCount := remaining_refs - 1\<rparr>) in
          if remaining_refs < 1 then Inl (JExc ''Parent refcount has gone negative!'')
          else if remaining_refs = 1 then Inr (E2, Some parent)
          else Inr (E2, nullptr))"

definition JEvent_Release :: "eptr \<Rightarrow> eheap \<Rightarrow> eheap result" where
  "JEvent_Release e E =
     (let remaining_refs = mReferenceCount (E e);
          E' = E(e := (E e)\<lparr>mReferenceCount := remaining_refs - 1\<rparr>) in
      if remaining_refs < 0 then Inl (JExc ''JEvent's own refcount has gone negative!'') else Inr E')"

definition JEvent_Reset :: "JEvent \<Rightarrow> JEvent" where
  "JEvent_Reset ev = ev\<lparr>mReferenceCount := 1\<rparr>"

section \<open>The container\<close>

definition resolve_tag :: "string \<Rightarrow> string \<Rightarrow> JEvent \<Rightarrow> string" where
  "resolve_tag demangled tag ev =
     (if mUseDefaultTags ev \<and> tag = [] then
        (case om_find demangled (mDefaultTags ev) of Some t \<Rightarrow> t | None \<Rightarrow> tag)
      else tag)"

text \<open>
  \<open>Insert\<close> of one item.  \<open>T\<close> is the object type and its demangled name, \<open>fresh\<close> the address \<open>new\<close>
  returns; the factory heap, the event and the factory's address are returned.
\<close>

definition insert_factory ::
    "string \<Rightarrow> string \<Rightarrow> fptr \<Rightarrow> JEvent \<Rightarrow> 'a fheap \<Rightarrow> ('a fheap \<times> JEvent \<times> fptr) result" where
  "insert_factory T tag fresh ev H =
     rbind (JFactorySet_GetFactoryT H T T (resolve_tag T tag ev) (mFactorySet ev)) (\<lambda>found.
       case found of
         Some f \<Rightarrow> Inr (H, ev, f)
       | None \<Rightarrow>
           let fac = SetLevel (mLevel (mFactorySet ev)) (SetTag tag (new_JFactory T T []));
               H' = H(fresh := fac) in
           rbind (JFactorySet_Add H' fresh (mFactorySet ev)) (\<lambda>s.
             Inr (H', ev\<lparr>mFactorySet := s\<rparr>, fresh)))"

definition JEvent_Insert ::
    "string \<Rightarrow> 'a \<Rightarrow> string \<Rightarrow> fptr \<Rightarrow> JEvent \<Rightarrow> 'a fheap \<Rightarrow> ('a fheap \<times> JEvent \<times> fptr) result" where
  "JEvent_Insert T item tag fresh ev H =
     rbind (insert_factory T tag fresh ev H) (\<lambda>(H', ev', f).
       Inr (H'(f := SetInsertOrigin (m_insert_dataorigin_type (mCallGraph ev')) (Insert item (H' f))), ev', f))"

definition JEvent_Insert_vector ::
    "string \<Rightarrow> 'a list \<Rightarrow> string \<Rightarrow> fptr \<Rightarrow> JEvent \<Rightarrow> 'a fheap \<Rightarrow> ('a fheap \<times> JEvent \<times> fptr) result" where
  "JEvent_Insert_vector T items tag fresh ev H =
     rbind (insert_factory T tag fresh ev H) (\<lambda>(H', ev', f).
       Inr (H'(f := SetInsertOrigin (m_insert_dataorigin_type (mCallGraph ev'))
                     ((fold Insert items (H' f))\<lparr>mStatus := Inserted, mCreationStatus := CreationInserted\<rparr>)), ev', f))"

definition JEvent_GetFactory :: "string \<Rightarrow> string \<Rightarrow> bool \<Rightarrow> JEvent \<Rightarrow> 'a fheap \<Rightarrow> fptr ptr result" where
  "JEvent_GetFactory T tag throw_on_missing ev H =
     rbind (JFactorySet_GetFactoryT H T T (resolve_tag T tag ev) (mFactorySet ev)) (\<lambda>found.
       if found = nullptr \<and> throw_on_missing
       then Inl (JExc (''Could not find JFactoryT<'' @ T @ ''> with tag='' @ tag))
       else Inr found)"

text \<open>
  \<open>CreateAndGetData\<close> on a factory of the heap; \<open>U f\<close> is the user code of factory \<open>f\<close>.  A user
  exception is passed on with its message.
\<close>

type_synonym 'a users = "fptr \<Rightarrow> user_code \<times> 'a user_data"

definition create_data :: "'a users \<Rightarrow> fptr \<Rightarrow> JEvent \<Rightarrow> 'a fheap \<Rightarrow> ('a fheap \<times> 'a list) result" where
  "create_data U f ev H =
     (case CreateAndGetData (fst (U f)) (snd (U f)) (mRunNumber ev, mEventNumber ev) (H f) of
        (fac, Inl e) \<Rightarrow> Inl (JExc (message e))
      | (fac, Inr xs) \<Rightarrow> Inr (H(f := fac), xs))"

definition require_factory :: "string \<Rightarrow> string \<Rightarrow> JEvent \<Rightarrow> 'a fheap \<Rightarrow> fptr result" where
  "require_factory T tag ev H =
     rbind (JEvent_GetFactory T tag True ev H) (\<lambda>found.
       case found of Some f \<Rightarrow> Inr f | None \<Rightarrow> Inl (UndefinedBehaviour ''null factory''))"

text \<open>\<open>GetSingle\<close>, and equally the C-style \<open>Get(const T**)\<close>: the first item or null.\<close>

definition JEvent_GetSingle :: "'a users \<Rightarrow> string \<Rightarrow> string \<Rightarrow> JEvent \<Rightarrow> 'a fheap \<Rightarrow> ('a fheap \<times> 'a ptr) result" where
  "JEvent_GetSingle U T tag ev H =
     rbind (require_factory T tag ev H) (\<lambda>f.
     rbind (create_data U f ev H) (\<lambda>(H', xs).
       Inr (H', case xs of [] \<Rightarrow> nullptr | x # _ \<Rightarrow> Some x)))"

definition JEvent_GetSingleStrict :: "'a users \<Rightarrow> string \<Rightarrow> string \<Rightarrow> JEvent \<Rightarrow> 'a fheap \<Rightarrow> ('a fheap \<times> 'a) result" where
  "JEvent_GetSingleStrict U T tag ev H =
     rbind (require_factory T tag ev H) (\<lambda>f.
     rbind (create_data U f ev H) (\<lambda>(H', xs).
       case xs of
         [] \<Rightarrow> Inl (JExc (''GetSingle failed due to missing '' @ T))
       | [x] \<Rightarrow> Inr (H', x)
       | _ \<Rightarrow> Inl (JExc (''GetSingle failed due to too many '' @ T))))"

definition JEvent_Get :: "'a users \<Rightarrow> string \<Rightarrow> string \<Rightarrow> bool \<Rightarrow> JEvent \<Rightarrow> 'a fheap \<Rightarrow> ('a fheap \<times> 'a list) result" where
  "JEvent_Get U T tag strict ev H =
     rbind (JEvent_GetFactory T tag strict ev H) (\<lambda>found.
       case found of
         None \<Rightarrow> Inr (H, [])
       | Some f \<Rightarrow> create_data U f ev H)"

definition JEvent_GetFactoryAll :: "string \<Rightarrow> bool \<Rightarrow> JEvent \<Rightarrow> 'a fheap \<Rightarrow> fptr list result" where
  "JEvent_GetFactoryAll T throw_on_missing ev H =
     (let factories = JFactorySet_GetAllFactoriesT H T (mFactorySet ev) in
      if factories = [] \<and> throw_on_missing
      then Inl (JExc (''Could not find any JFactoryT<'' @ T @ ''> (from any tag)''))
      else Inr factories)"

fun collect :: "'a users \<Rightarrow> fptr list \<Rightarrow> JEvent \<Rightarrow> 'a fheap \<Rightarrow> 'a list \<Rightarrow> ('a fheap \<times> 'a list) result" where
  "collect U [] ev H destination = Inr (H, destination)"
| "collect U (f # fs) ev H destination =
     rbind (create_data U f ev H) (\<lambda>(H', xs). collect U fs ev H' (destination @ xs))"

definition JEvent_GetAll_into ::
    "'a users \<Rightarrow> string \<Rightarrow> 'a list \<Rightarrow> JEvent \<Rightarrow> 'a fheap \<Rightarrow> ('a fheap \<times> 'a list) result" where
  "JEvent_GetAll_into U T destination ev H =
     rbind (JEvent_GetFactoryAll T True ev H) (\<lambda>fs. collect U fs ev H destination)"

text \<open>
  The by-value \<open>GetAll\<close>: the loop body declares a second \<open>vec\<close> that shadows the one returned, so each
  factory's items go into a vector that dies with the iteration.
\<close>

fun collect_shadowed :: "'a users \<Rightarrow> fptr list \<Rightarrow> JEvent \<Rightarrow> 'a fheap \<Rightarrow> 'a list \<Rightarrow> ('a fheap \<times> 'a list) result" where
  "collect_shadowed U [] ev H vec = Inr (H, vec)"
| "collect_shadowed U (f # fs) ev H vec =
     rbind (create_data U f ev H) (\<lambda>(H', xs).
       let inner = [] @ xs in collect_shadowed U fs ev H' vec)"

definition JEvent_GetAll :: "'a users \<Rightarrow> string \<Rightarrow> JEvent \<Rightarrow> 'a fheap \<Rightarrow> ('a fheap \<times> 'a list) result" where
  "JEvent_GetAll U T ev H =
     rbind (JEvent_GetFactoryAll T True ev H) (\<lambda>fs. collect_shadowed U fs ev H [])"

text \<open>
  The compatibility \<open>GetSingle(t, tag, exception_if_not_one)\<close>: it throws the number of objects, or
  falls through to \<open>t = v[0]\<close>.
\<close>

definition JEvent_GetSingle_compat ::
    "'a users \<Rightarrow> string \<Rightarrow> string \<Rightarrow> bool \<Rightarrow> JEvent \<Rightarrow> 'a fheap \<Rightarrow> ('a fheap \<times> 'a ptr) result" where
  "JEvent_GetSingle_compat U T tag exception_if_not_one ev H =
     rbind (require_factory T tag ev H) (\<lambda>fac.
     rbind (JEvent_Get U T tag True ev H) (\<lambda>(H', v).
       if length v \<noteq> 1 \<and> exception_if_not_one then Inl (JExc ''v.size()'')
       else if v = [] then Inl (UndefinedBehaviour ''v[0]'')
       else Inr (H', Some (v ! 0))))"

section \<open>A parent and its children\<close>

text \<open>
  What \<open>JUnfoldArrow\<close> and \<open>JFoldArrow\<close> do to one parent \<open>p\<close> of level \<open>lv\<close>, in any interleaving: the
  unfolder attaches children while it holds the parent; with the last child it attaches it gives up
  its own reference; each child releases the parent once.  \<open>fam_recycled\<close> counts how often the parent
  is handed back for recycling.
\<close>

record family =
  fam_heap :: eheap
  fam_children :: "eptr set"
  fam_open :: bool
  fam_recycled :: nat

inductive family_step :: "eptr \<Rightarrow> JEventLevel \<Rightarrow> family \<Rightarrow> family \<Rightarrow> bool" for p lv where
  fam_attach: "fam_open F \<Longrightarrow> c \<noteq> p \<Longrightarrow> c \<notin> fam_children F \<Longrightarrow> SetParent c p (fam_heap F) = Inr E \<Longrightarrow>
     family_step p lv F (F\<lparr>fam_heap := E, fam_children := insert c (fam_children F)\<rparr>)"
| fam_close: "fam_open F \<Longrightarrow> c \<noteq> p \<Longrightarrow> c \<notin> fam_children F \<Longrightarrow> SetParent c p (fam_heap F) = Inr E \<Longrightarrow>
     JEvent_Release p E = Inr E' \<Longrightarrow>
     family_step p lv F (F\<lparr>fam_heap := E', fam_children := insert c (fam_children F), fam_open := False\<rparr>)"
| fam_fold: "c \<in> fam_children F \<Longrightarrow> ReleaseParent c lv (fam_heap F) = Inr (E, r) \<Longrightarrow>
     family_step p lv F (F\<lparr>fam_heap := E, fam_children := fam_children F - {c},
        fam_recycled := fam_recycled F + (if r = Some p then 1 else 0)\<rparr>)"

inductive family_reachable :: "eptr \<Rightarrow> JEventLevel \<Rightarrow> eheap \<Rightarrow> family \<Rightarrow> bool" for p lv E0 where
  fam_start: "family_reachable p lv E0 \<lparr>fam_heap = E0, fam_children = {}, fam_open = True, fam_recycled = 0\<rparr>"
| fam_next: "family_reachable p lv E0 F \<Longrightarrow> family_step p lv F F' \<Longrightarrow> family_reachable p lv E0 F'"

definition fam_inv :: "eptr \<Rightarrow> JEventLevel \<Rightarrow> family \<Rightarrow> bool" where
  "fam_inv p lv F \<longleftrightarrow>
     finite (fam_children F) \<and> p \<notin> fam_children F \<and> JEvent_GetLevel (fam_heap F p) = lv
     \<and> mReferenceCount (fam_heap F p) = int (card (fam_children F)) + (if fam_open F then 1 else 0)
     \<and> fam_recycled F = (if \<not> fam_open F \<and> fam_children F = {} then 1 else 0)
     \<and> (\<forall>c\<in>fam_children F. mParents (fam_heap F c) \<noteq> [] \<and> last (mParents (fam_heap F c)) = (lv, p))"

lemma fam_invD:
  assumes "fam_inv p lv F"
  shows "finite (fam_children F)" and "p \<notin> fam_children F" and "JEvent_GetLevel (fam_heap F p) = lv"
    and "mReferenceCount (fam_heap F p) = int (card (fam_children F)) + (if fam_open F then 1 else 0)"
    and "fam_recycled F = (if \<not> fam_open F \<and> fam_children F = {} then 1 else 0)"
    and "c \<in> fam_children F \<Longrightarrow> mParents (fam_heap F c) \<noteq> []"
    and "c \<in> fam_children F \<Longrightarrow> last (mParents (fam_heap F c)) = (lv, p)"
  using assms unfolding fam_inv_def by blast+

lemma SetParent_Inr:
  assumes "SetParent c p E = Inr E'" and "c \<noteq> p"
  shows "E' = E(c := (E c)\<lparr>mParents := mParents (E c) @ [(JEvent_GetLevel (E p), p)]\<rparr>,
                p := (E p)\<lparr>mReferenceCount := mReferenceCount (E p) + 1\<rparr>)"
  using assms by (auto simp: SetParent_def Let_def split: if_splits)

lemma ReleaseParent_last:
  assumes "mParents (E c) \<noteq> []" and "last (mParents (E c)) = (lv, p)" and "c \<noteq> p" and "1 \<le> mReferenceCount (E p)"
  shows "ReleaseParent c lv E =
    Inr (E(c := (E c)\<lparr>mParents := butlast (mParents (E c))\<rparr>,
           p := (E p)\<lparr>mReferenceCount := mReferenceCount (E p) - 1\<rparr>),
         if mReferenceCount (E p) = 1 then Some p else nullptr)"
  using assms by (simp add: ReleaseParent_def Let_def)

lemma GetLevel_upd [simp]:
  "JEvent_GetLevel (ev\<lparr>mReferenceCount := n\<rparr>) = JEvent_GetLevel ev"
  "JEvent_GetLevel (ev\<lparr>mParents := ps\<rparr>) = JEvent_GetLevel ev"
  by (simp_all add: JEvent_GetLevel_def)

lemma fam_inv_attach:
  assumes inv: "fam_inv p lv F" and "fam_open F" and c: "c \<noteq> p" "c \<notin> fam_children F"
    and set: "SetParent c p (fam_heap F) = Inr E"
  shows "fam_inv p lv (F\<lparr>fam_heap := E, fam_children := insert c (fam_children F)\<rparr>)"
  using inv assms(2) c SetParent_Inr [OF set c(1)] by (auto simp: fam_inv_def)

lemma fam_inv_step:
  assumes "family_step p lv F F'" and inv: "fam_inv p lv F"
  shows "fam_inv p lv F'"
  using assms(1)
proof cases
  case (fam_attach c E)
  show ?thesis unfolding fam_attach(1) using inv fam_attach(2-5) by (rule fam_inv_attach)
next
  case (fam_close c E E')
  define F1 where "F1 = F\<lparr>fam_heap := E, fam_children := insert c (fam_children F)\<rparr>"
  have inv1: "fam_inv p lv F1"
    unfolding F1_def using inv fam_close(2-5) by (rule fam_inv_attach)
  have F1: "fam_children F1 = insert c (fam_children F)" "fam_heap F1 = E" "fam_recycled F1 = fam_recycled F"
    "fam_open F1" using fam_close(2) by (simp_all add: F1_def)
  have E': "E' = E(p := (E p)\<lparr>mReferenceCount := mReferenceCount (E p) - 1\<rparr>)"
    using fam_close(6) by (simp add: JEvent_Release_def Let_def split: if_splits)
  have "mParents (E' x) \<noteq> [] \<and> last (mParents (E' x)) = (lv, p)" if "x \<in> fam_children F1" for x
    using fam_invD(2,6,7) [OF inv1] that by (cases "x = p") (auto simp: E' F1(2))
  moreover have "mReferenceCount (E' p) = int (card (fam_children F1))"
    using fam_invD(4) [OF inv1] F1 by (simp add: E')
  moreover have "JEvent_GetLevel (E' p) = lv" using fam_invD(3) [OF inv1] F1(2) by (simp add: E')
  moreover have "fam_recycled F = 0" using fam_invD(5) [OF inv1] F1 by simp
  ultimately show ?thesis
    unfolding fam_close(1) fam_inv_def using fam_invD(1,2) [OF inv1] by (simp add: F1(1))
next
  case (fam_fold c E r)
  let ?E = "fam_heap F" and ?C = "fam_children F"
  have c: "c \<noteq> p" "mParents (?E c) \<noteq> []" "last (mParents (?E c)) = (lv, p)"
    using fam_invD(2,6,7) [OF inv] fam_fold(2) by auto
  have card: "card ?C = Suc (card (?C - {c}))"
    by (rule card.remove [OF fam_invD(1) [OF inv] fam_fold(2)])
  have "1 \<le> mReferenceCount (?E p)" using fam_invD(4) [OF inv] card by simp
  from ReleaseParent_last [OF c(2,3,1) this] fam_fold(3)
  have E: "E = ?E(c := (?E c)\<lparr>mParents := butlast (mParents (?E c))\<rparr>,
                  p := (?E p)\<lparr>mReferenceCount := mReferenceCount (?E p) - 1\<rparr>)"
    and r: "r = (if mReferenceCount (?E p) = 1 then Some p else nullptr)" by simp_all
  have "?C - {c} = {} \<longleftrightarrow> card (?C - {c}) = 0" using fam_invD(1) [OF inv] by simp
  then have recycle: "r = Some p \<longleftrightarrow> \<not> fam_open F \<and> ?C - {c} = {}"
    using fam_invD(4) [OF inv] card r by simp
  have zero: "fam_recycled F = 0" using fam_invD(5) [OF inv] fam_fold(2) by auto
  have "mParents (E x) \<noteq> [] \<and> last (mParents (E x)) = (lv, p)" if "x \<in> ?C - {c}" for x
    using fam_invD(2,6,7) [OF inv] that by (cases "x = p") (auto simp: E)
  moreover have "mReferenceCount (E p) = int (card (?C - {c})) + (if fam_open F then 1 else 0)"
    using fam_invD(4) [OF inv] card c(1) by (simp add: E)
  moreover have "JEvent_GetLevel (E p) = lv" using fam_invD(3) [OF inv] by (simp add: E)
  ultimately show ?thesis
    unfolding fam_fold(1) fam_inv_def using fam_invD(1,2) [OF inv] recycle zero by simp
qed

lemma family_reachable_inv:
  assumes "family_reachable p lv E0 F" and "mReferenceCount (E0 p) = 1" and "JEvent_GetLevel (E0 p) = lv"
  shows "fam_inv p lv F"
  using assms(1)
proof induction
  case fam_start
  then show ?case using assms(2,3) by (simp add: fam_inv_def)
next
  case (fam_next F F')
  show ?case by (rule fam_inv_step [OF fam_next(2,3)])
qed

section \<open>Properties of events\<close>

definition sample_events :: eheap where
  "sample_events e = (if e = 0 then JEvent_SetLevel Timeslice new_JEvent else new_JEvent)"

lemma sample_family: "family_reachable 0 Timeslice sample_events
    \<lparr>fam_heap = sample_events(1 := new_JEvent\<lparr>mParents := [(Timeslice, 0)]\<rparr>,
        0 := (sample_events 0)\<lparr>mReferenceCount := 1\<rparr>),
     fam_children = {1}, fam_open = False, fam_recycled = 0\<rparr>"
proof -
  let ?F0 = "\<lparr>fam_heap = sample_events, fam_children = {}, fam_open = True, fam_recycled = 0\<rparr>"
  let ?E = "sample_events(1 := new_JEvent\<lparr>mParents := [(Timeslice, 0)]\<rparr>,
        0 := (sample_events 0)\<lparr>mReferenceCount := 2\<rparr>)"
  have set: "SetParent 1 0 (fam_heap ?F0) = Inr ?E"
    by (simp add: SetParent_def Let_def sample_events_def new_JEvent_def JEvent_SetLevel_def JEvent_GetLevel_def)
  have rel: "JEvent_Release 0 ?E = Inr (?E(0 := (?E 0)\<lparr>mReferenceCount := 1\<rparr>))"
    by (simp add: JEvent_Release_def Let_def)
  have "family_step 0 Timeslice ?F0 (?F0\<lparr>fam_heap := ?E(0 := (?E 0)\<lparr>mReferenceCount := 1\<rparr>),
      fam_children := insert 1 (fam_children ?F0), fam_open := False\<rparr>)"
    by (rule fam_close [OF _ _ _ set rel]) simp_all
  from fam_next [OF fam_start this] show ?thesis by simp
qed

text \<open>
  C10: a parent event is recycled exactly once, and only when nobody refers to it.  In every state the
  unfolder and the folders can reach, the parent has been handed back once if the unfolder is done with
  it and no child is left, and never before; every child can still release it without an exception,
  and it is handed back precisely to the last one.
\<close>

theorem parent_recycled_once:
  assumes "family_reachable p lv E0 F" and "mReferenceCount (E0 p) = 1" and "JEvent_GetLevel (E0 p) = lv"
  shows "fam_recycled F = (if \<not> fam_open F \<and> fam_children F = {} then 1 else 0)
    \<and> (\<forall>c\<in>fam_children F. \<exists>E r. ReleaseParent c lv (fam_heap F) = Inr (E, r)
          \<and> (r = Some p \<longleftrightarrow> \<not> fam_open F \<and> fam_children F = {c}))"
proof -
  from family_reachable_inv [OF assms] have inv: "fam_inv p lv F" .
  have "\<exists>E r. ReleaseParent c lv (fam_heap F) = Inr (E, r) \<and> (r = Some p \<longleftrightarrow> \<not> fam_open F \<and> fam_children F = {c})"
    if c: "c \<in> fam_children F" for c
  proof -
    note fin = fam_invD(1) [OF inv] and rc = fam_invD(4) [OF inv]
    have cp: "c \<noteq> p" "mParents (fam_heap F c) \<noteq> []" "last (mParents (fam_heap F c)) = (lv, p)"
      using fam_invD(2,6,7) [OF inv] c by auto
    have card: "card (fam_children F) = Suc (card (fam_children F - {c}))"
      by (rule card.remove [OF fin c])
    then have "1 \<le> mReferenceCount (fam_heap F p)" using rc by simp
    moreover have "fam_children F = {c} \<longleftrightarrow> fam_children F - {c} = {}" using c by blast
    then have "fam_children F = {c} \<longleftrightarrow> card (fam_children F - {c}) = 0" using fin by simp
    then have "mReferenceCount (fam_heap F p) = 1 \<longleftrightarrow> \<not> fam_open F \<and> fam_children F = {c}"
      using rc card by simp
    ultimately show ?thesis using ReleaseParent_last [of "fam_heap F" c lv p] cp by simp
  qed
  with inv show ?thesis by (simp add: fam_inv_def)
qed

theorem parent_recycled_once_witness:
  "\<exists>E. ReleaseParent 1 Timeslice (sample_events(1 := new_JEvent\<lparr>mParents := [(Timeslice, 0)]\<rparr>,
        0 := (sample_events 0)\<lparr>mReferenceCount := 1\<rparr>)) = Inr (E, Some 0)"
proof -
  have start: "mReferenceCount (sample_events 0) = 1" "JEvent_GetLevel (sample_events 0) = Timeslice"
    by (simp_all add: sample_events_def new_JEvent_def JEvent_SetLevel_def JEvent_GetLevel_def)
  from parent_recycled_once [OF sample_family start] show ?thesis by simp
qed

text \<open>
  C40: \<open>Release\<close> tests the count it fetched before the subtraction against zero, so the call that takes
  the count from 0 to -1 does not raise the exception meant for it.
\<close>

theorem release_misses_negative:
  assumes "mReferenceCount (E e) = 0"
  shows "JEvent_Release e E = Inr (E(e := (E e)\<lparr>mReferenceCount := -1\<rparr>))"
  using assms by (simp add: JEvent_Release_def)

theorem release_misses_negative_witness:
  "JEvent_Release 0 (\<lambda>_. new_JEvent\<lparr>mReferenceCount := 0\<rparr>)
     = Inr ((\<lambda>_. new_JEvent\<lparr>mReferenceCount := 0\<rparr>)(0 := (new_JEvent\<lparr>mReferenceCount := 0\<rparr>)\<lparr>mReferenceCount := -1\<rparr>))"
  using release_misses_negative [of "\<lambda>_. new_JEvent\<lparr>mReferenceCount := 0\<rparr>" 0] by simp

text \<open>
  The by-value \<open>GetAll\<close> never returns anything: whatever the factories hold, the vector it
  returns is empty, where the version with an out-parameter returns the data of all of them.
\<close>

theorem get_all_by_value_empty:
  "JEvent_GetAll U T ev H = rbind (JEvent_GetAll_into U T [] ev H) (\<lambda>(H', vec). Inr (H', []))"
proof -
  have "collect_shadowed U fs ev H vec = rbind (collect U fs ev H dest) (\<lambda>(H', xs). Inr (H', vec))" for fs vec dest
  proof (induction fs arbitrary: H dest)
    case (Cons f fs)
    then show ?case by (cases "create_data U f ev H") (auto simp: Let_def)
  qed simp
  then have *: "collect_shadowed U fs ev H [] = rbind (collect U fs ev H []) (\<lambda>(H', xs). Inr (H', []))" for fs .
  show ?thesis
    unfolding JEvent_GetAll_def JEvent_GetAll_into_def *
    by (cases "JEvent_GetFactoryAll T True ev H") simp_all
qed

end
