(* ===== verification/ArrowMetrics.thy ===== *)
theory ArrowMetrics
  imports Prelude
begin

text \<open>
  The performance counters of \<open>Topology/JArrowMetrics.h\<close>.  Counters are \<open>size_t\<close>; a duration is an
  integer number of clock ticks.  Every method takes the mutex, so each is one step.
\<close>

datatype ArrowStatus = KeepGoing | ComeBackLater | Finished | NotRunYet | Error

record JArrowMetrics =
  m_last_status :: ArrowStatus
  m_total_message_count :: nat
  m_last_message_count :: nat
  m_total_queue_visits :: nat
  m_last_queue_visits :: nat
  m_total_latency :: int
  m_last_latency :: int
  m_total_queue_latency :: int
  m_last_queue_latency :: int

definition JArrowMetrics_clear :: "JArrowMetrics \<Rightarrow> JArrowMetrics" where
  "JArrowMetrics_clear m =
     m\<lparr>m_last_status := NotRunYet,
       m_total_message_count := 0, m_last_message_count := 0,
       m_total_queue_visits := 0, m_last_queue_visits := 0,
       m_total_latency := 0, m_last_latency := 0,
       m_total_queue_latency := 0, m_last_queue_latency := 0\<rparr>"

text \<open>\<open>take\<close> merges \<open>other\<close> into the receiver and empties \<open>other\<close>; both are returned.\<close>

definition JArrowMetrics_take :: "JArrowMetrics \<Rightarrow> JArrowMetrics \<Rightarrow> JArrowMetrics \<times> JArrowMetrics" where
  "JArrowMetrics_take m other =
     (let m1 = (if m_last_message_count other \<noteq> 0
                then m\<lparr>m_last_message_count := m_last_message_count other,
                       m_last_latency := m_last_latency other\<rparr>
                else m) in
      (m1\<lparr>m_last_status := m_last_status other,
          m_total_message_count := sz_add (m_total_message_count m1) (m_total_message_count other),
          m_total_queue_visits := sz_add (m_total_queue_visits m1) (m_total_queue_visits other),
          m_last_queue_visits := m_last_queue_visits other,
          m_total_latency := m_total_latency m1 + m_total_latency other,
          m_total_queue_latency := m_total_queue_latency m1 + m_total_queue_latency other,
          m_last_queue_latency := m_last_queue_latency other\<rparr>,
       other\<lparr>m_last_status := NotRunYet,
         m_total_message_count := 0, m_last_message_count := 0,
         m_total_queue_visits := 0, m_last_queue_visits := 0,
         m_total_latency := 0, m_last_latency := 0,
         m_total_queue_latency := 0, m_last_queue_latency := 0\<rparr>))"

definition JArrowMetrics_update_from :: "JArrowMetrics \<Rightarrow> JArrowMetrics \<Rightarrow> JArrowMetrics" where
  "JArrowMetrics_update_from m other =
     (let m1 = (if m_last_message_count other \<noteq> 0
                then m\<lparr>m_last_message_count := m_last_message_count other,
                       m_last_latency := m_last_latency other\<rparr>
                else m) in
      m1\<lparr>m_total_latency := m_total_latency m1 + m_total_latency other,
         m_last_status := m_last_status other,
         m_total_message_count := sz_add (m_total_message_count m1) (m_total_message_count other),
         m_total_queue_visits := sz_add (m_total_queue_visits m1) (m_total_queue_visits other),
         m_last_queue_visits := m_last_queue_visits other,
         m_total_queue_latency := m_total_queue_latency m1 + m_total_queue_latency other,
         m_last_queue_latency := m_last_queue_latency other\<rparr>)"

definition JArrowMetrics_update_finished :: "JArrowMetrics \<Rightarrow> JArrowMetrics" where
  "JArrowMetrics_update_finished m = m\<lparr>m_last_status := Finished\<rparr>"

definition JArrowMetrics_update ::
    "ArrowStatus \<Rightarrow> nat \<Rightarrow> nat \<Rightarrow> int \<Rightarrow> int \<Rightarrow> JArrowMetrics \<Rightarrow> JArrowMetrics" where
  "JArrowMetrics_update last_status message_count_delta queue_visit_delta latency_delta queue_latency_delta m =
     (let m0 = m\<lparr>m_last_status := last_status\<rparr>;
          m1 = (if 0 < message_count_delta
                then m0\<lparr>m_last_message_count := message_count_delta, m_last_latency := latency_delta\<rparr>
                else m0) in
      m1\<lparr>m_total_message_count := sz_add (m_total_message_count m1) message_count_delta,
         m_total_queue_visits := sz_add (m_total_queue_visits m1) queue_visit_delta,
         m_last_queue_visits := queue_visit_delta,
         m_total_latency := m_total_latency m1 + latency_delta,
         m_total_queue_latency := m_total_queue_latency m1 + queue_latency_delta,
         m_last_queue_latency := queue_latency_delta\<rparr>)"

definition JArrowMetrics_get ::
    "JArrowMetrics \<Rightarrow> ArrowStatus \<times> nat \<times> nat \<times> nat \<times> nat \<times> int \<times> int \<times> int \<times> int" where
  "JArrowMetrics_get m =
     (m_last_status m, m_total_message_count m, m_last_message_count m,
      m_total_queue_visits m, m_last_queue_visits m, m_total_latency m, m_last_latency m,
      m_total_queue_latency m, m_last_queue_latency m)"

definition get_total_message_count :: "JArrowMetrics \<Rightarrow> nat" where
  "get_total_message_count m = m_total_message_count m"

definition get_last_status :: "JArrowMetrics \<Rightarrow> ArrowStatus" where
  "get_last_status m = m_last_status m"

fun status_to_string :: "ArrowStatus \<Rightarrow> string" where
  "status_to_string KeepGoing = ''KeepGoing''"
| "status_to_string ComeBackLater = ''ComeBackLater''"
| "status_to_string Finished = ''Finished''"
| "status_to_string NotRunYet = ''NotRunYet''"
| "status_to_string Error = ''Error''"

section \<open>Workers report to an arrow\<close>

text \<open>
  Each worker accumulates into its own metrics with \<open>update\<close> and the scheduler drains one of them
  into the arrow with \<open>take\<close>.  \<open>metrics_op\<close> is one such step, by worker number.
\<close>

datatype metrics_op = Report nat ArrowStatus nat nat int int | Drain nat

fun metrics_step ::
    "metrics_op \<Rightarrow> JArrowMetrics \<times> JArrowMetrics list \<Rightarrow> JArrowMetrics \<times> JArrowMetrics list" where
  "metrics_step (Report w st messages visits latency queue_latency) (arrow, locals) =
     (arrow, if w < length locals
             then locals[w := JArrowMetrics_update st messages visits latency queue_latency (locals ! w)]
             else locals)"
| "metrics_step (Drain w) (arrow, locals) =
     (if w < length locals
      then case JArrowMetrics_take arrow (locals ! w) of (arrow', local') \<Rightarrow> (arrow', locals[w := local'])
      else (arrow, locals))"

fun reported_messages :: "nat \<Rightarrow> metrics_op \<Rightarrow> int" where
  "reported_messages k (Report w st messages visits latency queue_latency) = (if w < k then int messages else 0)"
| "reported_messages k (Drain w) = 0"

fun reported_latency :: "nat \<Rightarrow> metrics_op \<Rightarrow> int" where
  "reported_latency k (Report w st messages visits latency queue_latency) = (if w < k then latency else 0)"
| "reported_latency k (Drain w) = 0"

definition fleet :: "(JArrowMetrics \<Rightarrow> int) \<Rightarrow> JArrowMetrics \<times> JArrowMetrics list \<Rightarrow> int" where
  "fleet f s = f (fst s) + sum_list (map f (snd s))"

lemma sum_list_map_update:
  fixes f :: "'b \<Rightarrow> int"
  shows "w < length xs \<Longrightarrow> sum_list (map f (xs[w := x])) = sum_list (map f xs) - f (xs ! w) + f x"
proof (induction xs arbitrary: w)
  case (Cons y ys)
  then show ?case by (cases w) simp_all
qed simp

lemma fleet_update:
  "w < length locals \<Longrightarrow>
     fleet f (arrow, locals[w := x]) = fleet f (arrow, locals) - f (locals ! w) + f x"
  by (simp add: fleet_def sum_list_map_update)

lemma fleet_arrow: "fleet f (arrow', locals) = fleet f (arrow, locals) - f arrow + f arrow'"
  by (simp add: fleet_def)

lemma metrics_step_latency:
  "fleet m_total_latency (metrics_step op (arrow, locals))
     = fleet m_total_latency (arrow, locals) + reported_latency (length locals) op"
proof (cases op)
  case (Report w st messages visits latency queue_latency)
  then show ?thesis by (simp add: fleet_update JArrowMetrics_update_def Let_def)
next
  case (Drain w)
  let ?t = "JArrowMetrics_take arrow (locals ! w)"
  have "m_total_latency (fst ?t) = m_total_latency arrow + m_total_latency (locals ! w)"
    "m_total_latency (snd ?t) = 0" by (simp_all add: JArrowMetrics_take_def Let_def)
  with Drain show ?thesis
    by (simp add: fleet_update split_beta fleet_arrow [of _ "fst ?t" _ arrow])
qed

lemma metrics_step_messages:
  "wrap_eq (fleet (\<lambda>m. int (m_total_message_count m)) (metrics_step op (arrow, locals)))
     (fleet (\<lambda>m. int (m_total_message_count m)) (arrow, locals) + reported_messages (length locals) op)"
proof (cases op)
  case (Report w st messages visits latency queue_latency)
  show ?thesis
  proof (cases "w < length locals")
    case True
    let ?l = "m_total_message_count (locals ! w)"
    have "m_total_message_count (JArrowMetrics_update st messages visits latency queue_latency (locals ! w))
        = sz_add ?l messages" by (simp add: JArrowMetrics_update_def Let_def)
    moreover have "wrap_eq (fleet (\<lambda>m. int (m_total_message_count m)) (arrow, locals) - int ?l + int (sz_add ?l messages))
        (fleet (\<lambda>m. int (m_total_message_count m)) (arrow, locals) - int ?l + (int ?l + int messages))"
      by (intro wrap_eq_add wrap_eq_refl wrap_eq_sz_add)
    ultimately show ?thesis using Report True by (simp add: fleet_update)
  qed (simp add: Report)
next
  case (Drain w)
  show ?thesis
  proof (cases "w < length locals")
    case True
    let ?t = "JArrowMetrics_take arrow (locals ! w)"
    let ?a = "m_total_message_count arrow" and ?l = "m_total_message_count (locals ! w)"
    have "m_total_message_count (fst ?t) = sz_add ?a ?l" "m_total_message_count (snd ?t) = 0"
      by (simp_all add: JArrowMetrics_take_def Let_def)
    moreover have "wrap_eq (fleet (\<lambda>m. int (m_total_message_count m)) (arrow, locals) - int ?a - int ?l + int (sz_add ?a ?l))
        (fleet (\<lambda>m. int (m_total_message_count m)) (arrow, locals) - int ?a - int ?l + (int ?a + int ?l))"
      by (intro wrap_eq_add wrap_eq_refl wrap_eq_sz_add)
    ultimately show ?thesis using Drain True
      by (simp add: fleet_update split_beta fleet_arrow [of _ "fst ?t" _ arrow] algebra_simps)
  qed (simp add: Drain)
qed

lemma metrics_step_length: "length (snd (metrics_step op s)) = length (snd s)"
  by (cases op; cases s) (simp_all add: split_beta)

lemma metrics_steps_length: "length (snd (fold metrics_step ops s)) = length (snd s)"
  by (induction ops arbitrary: s) (simp_all add: metrics_step_length)

text \<open>
  No measurement is lost or counted twice on its way from the workers to the arrow.  After any
  sequence of \<open>update\<close> and \<open>take\<close> calls the latency held by the arrow and its workers is the initial
  one plus everything reported, and so is the message count, modulo the width of \<open>size_t\<close>.
\<close>

theorem metrics_conserved:
  "fleet m_total_latency (fold metrics_step ops (arrow, locals))
     = fleet m_total_latency (arrow, locals) + sum_list (map (reported_latency (length locals)) ops)
   \<and> wrap_eq (fleet (\<lambda>m. int (m_total_message_count m)) (fold metrics_step ops (arrow, locals)))
       (fleet (\<lambda>m. int (m_total_message_count m)) (arrow, locals)
          + sum_list (map (reported_messages (length locals)) ops))"
proof (induction ops arbitrary: arrow locals)
  case (Cons op ops)
  obtain arrow' locals' where step: "metrics_step op (arrow, locals) = (arrow', locals')"
    by (cases "metrics_step op (arrow, locals)")
  from metrics_step_length [of op "(arrow, locals)"] step have len: "length locals' = length locals" by simp
  from metrics_step_messages [of op arrow locals] step
  have "wrap_eq (fleet (\<lambda>m. int (m_total_message_count m)) (arrow', locals')
          + sum_list (map (reported_messages (length locals)) ops))
      (fleet (\<lambda>m. int (m_total_message_count m)) (arrow, locals) + reported_messages (length locals) op
          + sum_list (map (reported_messages (length locals)) ops))"
    by (intro wrap_eq_add wrap_eq_refl) simp
  with Cons.IH [of arrow' locals'] metrics_step_latency [of op arrow locals] step len show ?case
    by (simp add: wrap_eq_def add.assoc)
qed simp

end
