(* ===== verification/EventSource.thy ===== *)
theory EventSource
  imports Event ArrowMetrics
begin

text \<open>
  Event sources: \<open>JEventSource.h\<close>, and the arrow that reads from a list of them,
  \<open>JEventSourceArrow.cc\<close>.  The user's \<open>Emit\<close> and \<open>GetEvent\<close> are functions of the callbacks made so
  far and of the event they fill.  A source in either callback style is shown to refine one
  specification of reading a stream with \<open>nskip\<close> and \<open>nevents\<close>.
\<close>

section \<open>State\<close>

datatype Result = Success | FailureTryAgain | FailureFinished

datatype RETURN_STATUS = kSUCCESS | kNO_MORE_EVENTS | kBUSY | kTRY_AGAIN | kERROR | kUNKNOWN

record JEventSource =
  src_this :: nat
  src_id :: component_id
  src_status :: ComponentStatus
  src_style :: CallbackStyle
  m_resource_name :: string
  m_event_count :: nat
  m_nskip :: nat
  m_nevents :: nat
  m_enable_free_event :: bool
  m_outputs :: "nat list"
  src_calls :: "callback list"

definition new_JEventSource :: "nat \<Rightarrow> string \<Rightarrow> JEventSource" where
  "new_JEventSource this resource_name =
     \<lparr>src_this = this, src_id = \<lparr>m_prefix = [], m_plugin_name = [], m_type_name = []\<rparr>,
      src_status = CUninitialized, src_style = LegacyMode, m_resource_name = resource_name,
      m_event_count = 0, m_nskip = 0, m_nevents = 0, m_enable_free_event = False, m_outputs = [],
      src_calls = []\<rparr>"

definition SetNSkip :: "nat \<Rightarrow> JEventSource \<Rightarrow> JEventSource" where
  "SetNSkip n src = src\<lparr>m_nskip := n\<rparr>"

definition SetNEvents :: "nat \<Rightarrow> JEventSource \<Rightarrow> JEventSource" where
  "SetNEvents n src = src\<lparr>m_nevents := n\<rparr>"

definition SetResourceName :: "string \<Rightarrow> JEventSource \<Rightarrow> JEventSource" where
  "SetResourceName n src = src\<lparr>m_resource_name := n\<rparr>"

definition EnableFinishEvent :: "JEventSource \<Rightarrow> JEventSource" where
  "EnableFinishEvent src = src\<lparr>m_enable_free_event := True\<rparr>"

text \<open>
  What the author of a source provides.  \<open>GetEvent\<close> reports the end of the stream by throwing a
  \<open>RETURN_STATUS\<close>; \<open>InsertCollection\<close> of a declared output is framework code that throws only
  \<open>JException\<close>s.
\<close>

datatype emit_outcome = EmitResult Result | EmitThrow user_throw

datatype get_outcome = GetReturn | GetStatus RETURN_STATUS | GetThrow user_throw

record source_code =
  code_user :: user_code
  code_emit :: "callback list \<Rightarrow> JEvent \<Rightarrow> JEvent \<times> emit_outcome"
  code_get :: "callback list \<Rightarrow> JEvent \<Rightarrow> JEvent \<times> get_outcome"
  code_output :: "nat \<Rightarrow> JEvent \<Rightarrow> JEvent \<times> JException option"

type_synonym src_state = "JEventSource \<times> JEvent"

section \<open>Opening and closing\<close>

definition src_call :: "source_code \<Rightarrow> string \<Rightarrow> callback \<Rightarrow> (JEventSource, unit) action" where
  "src_call U func_name cb = (\<lambda>src.
     let src' = src\<lparr>src_calls := src_calls src @ [cb]\<rparr> in
     case code_user U cb (src_calls src) of
       None \<Rightarrow> (src', Inr ())
     | Some t \<Rightarrow> (src', Inl (CallWithJExceptionWrapper func_name (src_id src) t)))"

definition set_src_status :: "ComponentStatus \<Rightarrow> JEventSource \<Rightarrow> JEventSource" where
  "set_src_status st src = src\<lparr>src_status := st\<rparr>"

definition JEventSource_DoInit :: "source_code \<Rightarrow> (JEventSource, unit) action" where
  "JEventSource_DoInit U = (\<lambda>src.
     if src_status src = CUninitialized then
       athen (src_call U ''JEventSource::Init'' CbInit) (amodify (set_src_status CInitialized)) src
     else (src, Inl (new_JException ''Attempted to initialize a JEventSource that is not uninitialized!'')))"

definition DoOpen :: "source_code \<Rightarrow> (JEventSource, unit) action" where
  "DoOpen U = (\<lambda>src.
     if src_status src \<noteq> CInitialized
     then (src, Inl (new_JException ''Attempted to open a JEventSource that hasn't been initialized!''))
     else athen (src_call U ''JEventSource::Open'' CbOpen) (amodify (set_src_status COpened)) src)"

definition DoClose :: "source_code \<Rightarrow> (JEventSource, unit) action" where
  "DoClose U = (\<lambda>src.
     if src_status src \<noteq> COpened then (src, Inr ())
     else athen (src_call U ''JEventSource::Close'' CbClose) (amodify (set_src_status CClosed)) src)"

definition JEventSource_DoFinish :: "source_code \<Rightarrow> JEvent \<Rightarrow> (JEventSource, unit) action" where
  "JEventSource_DoFinish U ev = (\<lambda>src.
     if m_enable_free_event src
     then src_call U ''JEventSource::FinishEvent'' (CbFinishEvent (mEventNumber ev)) src
     else (src, Inr ()))"

section \<open>Reading one event\<close>

text \<open>Actions on the source and on the event, lifted to the pair that \<open>DoNext\<close> works on.\<close>

definition on_src :: "(JEventSource, 'e, 'a) eaction \<Rightarrow> (src_state, 'e, 'a) eaction" where
  "on_src m = (\<lambda>(src, ev). case m src of (src', r) \<Rightarrow> ((src', ev), r))"

definition on_event :: "(JEvent \<Rightarrow> JEvent) \<Rightarrow> (src_state, 'e, unit) eaction" where
  "on_event f = (\<lambda>(src, ev). ((src, f ev), Inr ()))"

definition set_origin :: "JDataOrigin \<Rightarrow> (src_state, 'e, JDataOrigin) eaction" where
  "set_origin origin = (\<lambda>(src, ev).
     case SetInsertDataOrigin origin (mCallGraph ev) of (g, previous) \<Rightarrow> ((src, ev\<lparr>mCallGraph := g\<rparr>), Inr previous))"

definition reset_recorder :: "JEvent \<Rightarrow> JEvent" where
  "reset_recorder ev = ev\<lparr>mCallGraph := Reset (mCallGraph ev)\<rparr>"

definition count_event :: "JEventSource \<Rightarrow> JEventSource" where
  "count_event src = src\<lparr>m_event_count := sz_add (m_event_count src) 1\<rparr>"

definition call_emit :: "source_code \<Rightarrow> (src_state, Result) action" where
  "call_emit U = (\<lambda>(src, ev).
     let src' = src\<lparr>src_calls := src_calls src @ [CbEmit (mEventNumber ev)]\<rparr> in
     case code_emit U (src_calls src) ev of
       (ev', EmitResult r) \<Rightarrow> ((src', ev'), Inr r)
     | (ev', EmitThrow t) \<Rightarrow> ((src', ev'), Inl (CallWithJExceptionWrapper ''JEventSource::Emit'' (src_id src) t)))"

fun insert_outputs :: "source_code \<Rightarrow> nat list \<Rightarrow> (src_state, unit) action" where
  "insert_outputs U [] s = (s, Inr ())"
| "insert_outputs U (i # is) (src, ev) =
     (case code_output U i ev of
        (ev', None) \<Rightarrow> insert_outputs U is (src, ev')
      | (ev', Some ex) \<Rightarrow> ((src, ev'), Inl ex))"

text \<open>What a \<open>try\<close> block of \<open>DoNextCompatibility\<close> can raise.\<close>

datatype src_throw = ThrowStatus RETURN_STATUS | ThrowUser user_throw

definition rethrow :: "('s, JException, 'a) eaction \<Rightarrow> ('s, src_throw, 'a) eaction" where
  "rethrow m = (\<lambda>s. case m s of
       (s', Inl ex) \<Rightarrow> (s', Inl (ThrowUser (ThrowJException ex)))
     | (s', Inr x) \<Rightarrow> (s', Inr x))"

definition call_get :: "source_code \<Rightarrow> (src_state, src_throw, unit) eaction" where
  "call_get U = (\<lambda>(src, ev).
     let src' = src\<lparr>src_calls := src_calls src @ [CbGetEvent (mEventNumber ev)]\<rparr> in
     case code_get U (src_calls src) ev of
       (ev', GetReturn) \<Rightarrow> ((src', ev'), Inr ())
     | (ev', GetStatus rs) \<Rightarrow> ((src', ev'), Inl (ThrowStatus rs))
     | (ev', GetThrow t) \<Rightarrow> ((src', ev'), Inl (ThrowUser t)))"

definition get_skipped :: "source_code \<Rightarrow> (src_state, src_throw, Result) eaction" where
  "get_skipped U = (\<lambda>(src, ev).
     athen (on_event (SetEventNumber (m_event_count src)))
    (abind (set_origin ORIGIN_FROM_SOURCE) (\<lambda>previous_origin.
     athen (call_get U)
    (abind (set_origin previous_origin) (\<lambda>_.
     athen (on_src (amodify count_event))
           (areturn FailureTryAgain))))) (src, ev))"

definition get_emitted :: "source_code \<Rightarrow> (src_state, src_throw, Result) eaction" where
  "get_emitted U = (\<lambda>(src, ev).
     athen (on_event (SetEventNumber (m_event_count src)))
    (athen (on_event (SetJEventSource (Some (src_this src))))
    (athen (on_event (SetSequential False))
    (athen (on_event reset_recorder)
    (abind (set_origin ORIGIN_FROM_SOURCE) (\<lambda>previous_origin.
     athen (call_get U)
    (athen (rethrow (insert_outputs U (m_outputs src)))
    (abind (set_origin previous_origin) (\<lambda>_.
     athen (on_src (amodify count_event))
           (areturn Success))))))))) (src, ev))"

definition compat_body :: "source_code \<Rightarrow> nat \<Rightarrow> nat \<Rightarrow> (src_state, src_throw, Result) eaction" where
  "compat_body U first_evt_nr last_evt_nr =
     athen (awhen (\<lambda>(src, ev). src_status src = CInitialized) (rethrow (on_src (DoOpen U))))
      (\<lambda>(src, ev).
         if src_status src = COpened then
           if m_event_count src < first_evt_nr then get_skipped U (src, ev)
           else if m_nevents src \<noteq> 0 \<and> m_event_count src = last_evt_nr
           then athen (rethrow (on_src (DoClose U))) (areturn FailureFinished) (src, ev)
           else get_emitted U (src, ev)
         else if src_status src = CClosed then ((src, ev), Inr FailureFinished)
         else ((src, ev), Inl (ThrowUser (ThrowJException (new_JException ''Invalid m_status'')))))"

definition catch_status :: "source_code \<Rightarrow> RETURN_STATUS \<Rightarrow> (src_state, Result) action" where
  "catch_status U rs =
     (if rs = kNO_MORE_EVENTS then athen (on_src (DoClose U)) (areturn FailureFinished)
      else if rs = kTRY_AGAIN \<or> rs = kBUSY then areturn FailureTryAgain
      else if rs = kERROR \<or> rs = kUNKNOWN then
        (\<lambda>(src, ev). ((src, ev),
           Inl ((new_JException ''JEventSource threw RETURN_STATUS::kERROR or kUNKNOWN'')
             \<lparr>plugin_name := m_plugin_name (src_id src), type_name := m_type_name (src_id src),
              function_name := ''JEventSource::GetEvent'', instance_name := m_resource_name src\<rparr>)))
      else areturn Success)"

fun catch_compat :: "source_code \<Rightarrow> src_state \<times> (src_throw + Result) \<Rightarrow> src_state \<times> (JException + Result)" where
  "catch_compat U (s, Inr r) = (s, Inr r)"
| "catch_compat U (s, Inl (ThrowStatus rs)) = catch_status U rs s"
| "catch_compat U (s, Inl (ThrowUser t)) =
     (s, Inl (CallWithJExceptionWrapper ''JEventSource::GetEvent'' (src_id (fst s)) t))"

definition DoNextCompatibility :: "source_code \<Rightarrow> (src_state, Result) action" where
  "DoNextCompatibility U = (\<lambda>(src, ev).
     catch_compat U (compat_body U (m_nskip src) (sz_add (m_nevents src) (m_nskip src)) (src, ev)))"

definition after_emit :: "source_code \<Rightarrow> nat \<Rightarrow> Result \<Rightarrow> (src_state, Result) action" where
  "after_emit U first_evt_nr result =
     (case result of
        Success \<Rightarrow>
          athen (on_src (amodify count_event))
            (\<lambda>(src, ev).
               athen (insert_outputs U (m_outputs src))
                 (areturn (if m_event_count src \<le> first_evt_nr then FailureTryAgain else Success)) (src, ev))
      | FailureFinished \<Rightarrow> athen (on_src (DoClose U)) (areturn FailureFinished)
      | FailureTryAgain \<Rightarrow> areturn FailureTryAgain)"

definition emit_event :: "source_code \<Rightarrow> nat \<Rightarrow> (src_state, Result) action" where
  "emit_event U first_evt_nr = (\<lambda>(src, ev).
     athen (on_event (SetEventNumber (m_event_count src)))
    (athen (on_event (SetJEventSource (Some (src_this src))))
    (athen (on_event (SetSequential False))
    (athen (on_event reset_recorder)
    (abind (set_origin ORIGIN_FROM_SOURCE) (\<lambda>previous_origin.
     abind (call_emit U) (\<lambda>result.
     abind (set_origin previous_origin) (\<lambda>_.
     after_emit U first_evt_nr result))))))) (src, ev))"

definition DoNext :: "source_code \<Rightarrow> (src_state, Result) action" where
  "DoNext U = (\<lambda>(src, ev).
     if src_status src = CUninitialized
     then ((src, ev), Inl (new_JException ''JEventSource has not been initialized!''))
     else if src_style src = LegacyMode then DoNextCompatibility U (src, ev)
     else
       let first_evt_nr = m_nskip src; last_evt_nr = sz_add (m_nevents src) (m_nskip src) in
       athen (awhen (\<lambda>(src, ev). src_status src = CInitialized) (on_src (DoOpen U)))
         (\<lambda>(src, ev).
            if src_status src = COpened then
              if m_nevents src \<noteq> 0 \<and> m_event_count src = last_evt_nr
              then athen (on_src (DoClose U)) (areturn FailureFinished) (src, ev)
              else emit_event U first_evt_nr (src, ev)
            else ((src, ev), Inr FailureFinished)) (src, ev))"

section \<open>The arrow that reads the sources\<close>

text \<open>
  \<open>JEventSourceArrow\<close> drains its sources one after the other.  \<open>U\<close> gives the user code of the
  source at each index.  The loop is the \<open>while\<close> of \<open>process\<close>; it ends because every iteration that
  does not return moves on to the next source.
\<close>

record JEventSourceArrow =
  m_sources :: "JEventSource list"
  m_current_source :: nat

definition set_source :: "nat \<Rightarrow> JEventSource \<Rightarrow> JEventSourceArrow \<Rightarrow> JEventSourceArrow" where
  "set_source i src arr = arr\<lparr>m_sources := (m_sources arr)[i := src]\<rparr>"

function source_loop ::
    "(nat \<Rightarrow> source_code) \<Rightarrow> JEventSourceArrow \<Rightarrow> JEvent
     \<Rightarrow> (JEventSourceArrow \<times> JEvent) \<times> (JException + bool \<times> ArrowStatus)" where
  "source_loop U arr ev =
     (let i = m_current_source arr in
      if i < length (m_sources arr) then
        (case DoNext (U i) (m_sources arr ! i, ev) of
           ((src, ev'), Inl ex) \<Rightarrow> ((set_source i src arr, ev'), Inl ex)
         | ((src, ev'), Inr FailureFinished) \<Rightarrow>
             source_loop U ((set_source i src arr)\<lparr>m_current_source := i + 1\<rparr>) ev'
         | ((src, ev'), Inr FailureTryAgain) \<Rightarrow> ((set_source i src arr, ev'), Inr (False, ComeBackLater))
         | ((src, ev'), Inr Success) \<Rightarrow> ((set_source i src arr, ev'), Inr (True, KeepGoing)))
      else ((arr, ev), Inr (False, Finished)))"
  by pat_completeness auto

termination
  by (relation "measure (\<lambda>(U, arr, ev). length (m_sources arr) - m_current_source arr)")
    (auto simp: set_source_def)

declare source_loop.simps [simp del]

definition JEventSourceArrow_process ::
    "(nat \<Rightarrow> source_code) \<Rightarrow> JEventSourceArrow \<Rightarrow> JEvent
     \<Rightarrow> (JEventSourceArrow \<times> JEvent) \<times> (JException + bool \<times> ArrowStatus)" where
  "JEventSourceArrow_process U arr ev =
     (if m_sources arr = [] then ((arr, ev), Inr (False, Finished)) else source_loop U arr ev)"

fun each_source ::
    "(source_code \<Rightarrow> (JEventSource, unit) action) \<Rightarrow> (nat \<Rightarrow> source_code) \<Rightarrow> nat \<Rightarrow> JEventSource list
     \<Rightarrow> JEventSource list \<times> (JException + unit)" where
  "each_source op U i [] = ([], Inr ())"
| "each_source op U i (src # srcs) =
     (case op (U i) src of
        (src', Inl ex) \<Rightarrow> (src' # srcs, Inl ex)
      | (src', Inr _) \<Rightarrow> (case each_source op U (i + 1) srcs of (srcs', r) \<Rightarrow> (src' # srcs', r)))"

definition JEventSourceArrow_initialize ::
    "(nat \<Rightarrow> source_code) \<Rightarrow> (JEventSourceArrow, unit) action" where
  "JEventSourceArrow_initialize U = (\<lambda>arr.
     case each_source JEventSource_DoInit U 0 (m_sources arr) of (srcs, r) \<Rightarrow> (arr\<lparr>m_sources := srcs\<rparr>, r))"

definition JEventSourceArrow_finalize ::
    "(nat \<Rightarrow> source_code) \<Rightarrow> (JEventSourceArrow, unit) action" where
  "JEventSourceArrow_finalize U = (\<lambda>arr.
     case each_source DoClose U 0 (m_sources arr) of (srcs, r) \<Rightarrow> (arr\<lparr>m_sources := srcs\<rparr>, r))"

section \<open>The specification of a source\<close>

text \<open>
  A stream whose \<open>k\<close>-th read attempt has outcome \<open>f k\<close>; \<open>Reading n k\<close> after \<open>n\<close> events and \<open>k\<close>
  attempts.
\<close>

datatype reader = Reading nat nat | Exhausted

fun read_next :: "nat \<Rightarrow> nat \<Rightarrow> (nat \<Rightarrow> Result) \<Rightarrow> reader \<Rightarrow> reader \<times> Result" where
  "read_next nskip nevents f Exhausted = (Exhausted, FailureFinished)"
| "read_next nskip nevents f (Reading n k) =
     (if nevents \<noteq> 0 \<and> n = nskip + nevents then (Exhausted, FailureFinished)
      else case f k of
        Success \<Rightarrow> (Reading (Suc n) (Suc k), if n < nskip then FailureTryAgain else Success)
      | FailureTryAgain \<Rightarrow> (Reading n (Suc k), FailureTryAgain)
      | FailureFinished \<Rightarrow> (Exhausted, FailureFinished))"

fun is_read :: "callback \<Rightarrow> bool" where
  "is_read (CbEmit n) = True"
| "is_read (CbGetEvent n) = True"
| "is_read _ = False"

definition reads :: "callback list \<Rightarrow> nat" where
  "reads h = length (filter is_read h)"

lemma reads_simps [simp]:
  "reads [] = 0" "reads (h @ [cb]) = reads h + (if is_read cb then 1 else 0)"
  by (simp_all add: reads_def)

text \<open>The user code reads that stream, in whichever style it is asked, and does not throw.\<close>

fun get_result :: "get_outcome \<Rightarrow> Result option" where
  "get_result GetReturn = Some Success"
| "get_result (GetStatus kNO_MORE_EVENTS) = Some FailureFinished"
| "get_result (GetStatus kBUSY) = Some FailureTryAgain"
| "get_result (GetStatus kTRY_AGAIN) = Some FailureTryAgain"
| "get_result _ = None"

definition follows :: "source_code \<Rightarrow> (nat \<Rightarrow> Result) \<Rightarrow> bool" where
  "follows U f \<longleftrightarrow> code_user U = quiet \<and> (\<forall>i ev. snd (code_output U i ev) = None)
     \<and> (\<forall>h ev. snd (code_emit U h ev) = EmitResult (f (reads h)))
     \<and> (\<forall>h ev. get_result (snd (code_get U h ev)) = Some (f (reads h)))"

definition src_abs :: "JEventSource \<Rightarrow> reader" where
  "src_abs src = (if src_status src = CClosed then Exhausted
                  else Reading (m_event_count src) (reads (src_calls src)))"

definition src_ok :: "JEventSource \<Rightarrow> bool" where
  "src_ok src \<longleftrightarrow> src_status src \<in> {CInitialized, COpened, CClosed} \<and> m_nskip src + m_nevents src < size_mod"

definition same_limits :: "JEventSource \<Rightarrow> JEventSource \<Rightarrow> bool" where
  "same_limits src src' \<longleftrightarrow> m_nskip src' = m_nskip src \<and> m_nevents src' = m_nevents src
     \<and> src_style src' = src_style src"

lemma src_call_quiet:
  "code_user U = quiet \<Longrightarrow> src_call U fn cb src = (src\<lparr>src_calls := src_calls src @ [cb]\<rparr>, Inr ())"
  by (simp add: src_call_def quiet_def)

lemma open_quiet:
  assumes "code_user U = quiet" and "src_status src = CInitialized"
  shows "DoOpen U src = (src\<lparr>src_calls := src_calls src @ [CbOpen], src_status := COpened\<rparr>, Inr ())"
  using assms by (simp add: DoOpen_def action_defs src_call_quiet set_src_status_def)

lemma close_quiet:
  assumes "code_user U = quiet" and "src_status src = COpened"
  shows "DoClose U src = (src\<lparr>src_calls := src_calls src @ [CbClose], src_status := CClosed\<rparr>, Inr ())"
  using assms by (simp add: DoClose_def action_defs src_call_quiet set_src_status_def)

lemma insert_outputs_quiet:
  assumes "\<forall>i ev. snd (code_output U i ev) = None"
  shows "\<exists>ev'. insert_outputs U is (src, ev) = ((src, ev'), Inr ())"
proof (induction "is" arbitrary: ev)
  case (Cons i "is")
  obtain ev' where "code_output U i ev = (ev', None)" using assms by (metis prod.collapse)
  with Cons show ?case by simp
qed simp

lemmas src_defs = action_basic on_src_def on_event_def set_origin_def SetInsertDataOrigin_def

definition refines_read :: "JEventSource \<Rightarrow> (nat \<Rightarrow> Result) \<Rightarrow> src_state \<times> (JException + Result) \<Rightarrow> bool" where
  "refines_read src f out \<longleftrightarrow> (\<exists>src' ev' r. out = ((src', ev'), Inr r)
     \<and> read_next (m_nskip src) (m_nevents src) f (src_abs src) = (src_abs src', r)
     \<and> src_ok src' \<and> same_limits src src' \<and> m_event_count src' \<le> m_event_count src + 1)"

lemma close_refines:
  assumes U: "follows U f" and src: "src_ok src" "src_status src = COpened"
    and limit: "m_nevents src \<noteq> 0" "m_event_count src = m_nskip src + m_nevents src"
  shows "refines_read src f (athen (on_src (DoClose U)) (areturn FailureFinished) (src, ev))"
proof -
  have "code_user U = quiet" using U by (simp add: follows_def)
  from close_quiet [OF this src(2)] src limit show ?thesis
    by (simp add: refines_read_def src_defs src_abs_def src_ok_def same_limits_def)
qed

lemma emit_refines:
  assumes U: "follows U f" and src: "src_ok src" "src_status src = COpened"
    and more: "m_nevents src = 0 \<or> m_event_count src \<noteq> m_nskip src + m_nevents src"
    and small: "m_event_count src + 1 < size_mod"
  shows "refines_read src f (emit_event U (m_nskip src) (src, ev))"
proof -
  define ev1 where "ev1 = reset_recorder (SetSequential False (SetJEventSource (Some (src_this src))
    (SetEventNumber (m_event_count src) ev)))"
  define ev2 where "ev2 = ev1\<lparr>mCallGraph := (mCallGraph ev1)\<lparr>m_insert_dataorigin_type := ORIGIN_FROM_SOURCE\<rparr>\<rparr>"
  define src1 where "src1 = src\<lparr>src_calls := src_calls src @ [CbEmit (mEventNumber ev2)]\<rparr>"
  obtain ev3 where ev3: "code_emit U (src_calls src) ev2 = (ev3, EmitResult (f (reads (src_calls src))))"
    using U by (metis follows_def prod.collapse)
  define ev4 where "ev4 = ev3\<lparr>mCallGraph := (mCallGraph ev3)\<lparr>m_insert_dataorigin_type :=
    m_insert_dataorigin_type (mCallGraph ev1)\<rparr>\<rparr>"
  have "emit_event U (m_nskip src) (src, ev) = after_emit U (m_nskip src) (f (reads (src_calls src))) (src1, ev4)"
    using ev3 by (simp add: emit_event_def src_defs call_emit_def Let_def ev1_def ev2_def src1_def ev4_def)
  moreover have count: "m_event_count (count_event src1) = Suc (m_event_count src)"
    using small by (simp add: count_event_def src1_def sz_add_exact)
  obtain ev5 where "insert_outputs U (m_outputs (count_event src1)) (count_event src1, ev4) = ((count_event src1, ev5), Inr ())"
    using insert_outputs_quiet U unfolding follows_def by metis
  moreover have "DoClose U src1 = (src1\<lparr>src_calls := src_calls src1 @ [CbClose], src_status := CClosed\<rparr>, Inr ())"
    using U src(2) by (intro close_quiet) (simp_all add: follows_def src1_def)
  moreover have "src_status src1 = COpened" "m_nskip src1 = m_nskip src" "m_nevents src1 = m_nevents src"
    "src_style src1 = src_style src" "m_event_count src1 = m_event_count src"
    "reads (src_calls src1) = Suc (reads (src_calls src))" using src(2) by (simp_all add: src1_def)
  ultimately show ?thesis
    using src more count
    by (cases "f (reads (src_calls src))")
      (auto simp: refines_read_def after_emit_def src_defs src_abs_def src_ok_def same_limits_def count_event_def)
qed

text \<open>Both branches of \<open>DoNextCompatibility\<close> that read an event, together with its handlers.\<close>

lemma status_refines:
  assumes U: "follows U f" and src: "src_ok src" "src_status src = COpened"
    and more: "m_nevents src = 0 \<or> m_event_count src \<noteq> m_nskip src + m_nevents src"
    and read: "src1 = src\<lparr>src_calls := src_calls src @ [CbGetEvent n]\<rparr>"
    and rs: "get_result (GetStatus rs) = Some (f (reads (src_calls src)))"
  shows "refines_read src f (catch_status U rs (src1, ev))"
proof -
  have close: "DoClose U src1 = (src1\<lparr>src_calls := src_calls src1 @ [CbClose], src_status := CClosed\<rparr>, Inr ())"
    using U src(2) read by (intro close_quiet) (simp_all add: follows_def)
  from rs consider "rs = kNO_MORE_EVENTS" "f (reads (src_calls src)) = FailureFinished"
    | "rs = kTRY_AGAIN \<or> rs = kBUSY" "f (reads (src_calls src)) = FailureTryAgain"
    by (cases rs) auto
  then show ?thesis
  proof cases
    case 1
    with close src more read show ?thesis
      by (auto simp: refines_read_def catch_status_def src_defs src_abs_def src_ok_def same_limits_def)
  next
    case 2
    with src more read show ?thesis
      by (auto simp: refines_read_def catch_status_def src_defs src_abs_def src_ok_def same_limits_def)
  qed
qed

lemma got_refines:
  assumes src: "src_ok src" "src_status src = COpened"
    and more: "m_nevents src = 0 \<or> m_event_count src \<noteq> m_nskip src + m_nevents src"
    and small: "m_event_count src + 1 < size_mod"
    and read: "src1 = src\<lparr>src_calls := src_calls src @ [CbGetEvent n]\<rparr>"
    and succ: "f (reads (src_calls src)) = Success"
    and r: "r = (if m_event_count src < m_nskip src then FailureTryAgain else Success)"
  shows "refines_read src f ((count_event src1, ev), Inr r)"
  using assms by (auto simp: refines_read_def src_abs_def src_ok_def same_limits_def count_event_def sz_add_exact)

lemma skipped_refines:
  assumes U: "follows U f" and src: "src_ok src" "src_status src = COpened"
    and more: "m_nevents src = 0 \<or> m_event_count src \<noteq> m_nskip src + m_nevents src"
    and small: "m_event_count src + 1 < size_mod" and skip: "m_event_count src < m_nskip src"
  shows "refines_read src f (catch_compat U (get_skipped U (src, ev)))"
proof -
  define ev1 where "ev1 = SetEventNumber (m_event_count src) ev"
  define ev2 where "ev2 = ev1\<lparr>mCallGraph := (mCallGraph ev1)\<lparr>m_insert_dataorigin_type := ORIGIN_FROM_SOURCE\<rparr>\<rparr>"
  define src1 where "src1 = src\<lparr>src_calls := src_calls src @ [CbGetEvent (mEventNumber ev2)]\<rparr>"
  obtain ev3 out where ev3: "code_get U (src_calls src) ev2 = (ev3, out)" by fastforce
  then have out: "get_result out = Some (f (reads (src_calls src)))" using U by (metis follows_def snd_conv)
  define ev4 where "ev4 = ev3\<lparr>mCallGraph := (mCallGraph ev3)\<lparr>m_insert_dataorigin_type :=
    m_insert_dataorigin_type (mCallGraph ev1)\<rparr>\<rparr>"
  show ?thesis
  proof (cases out)
    case GetReturn
    with ev3 have "get_skipped U (src, ev) = ((count_event src1, ev4), Inr FailureTryAgain)"
      by (simp add: get_skipped_def src_defs call_get_def Let_def ev1_def ev2_def src1_def ev4_def)
    with got_refines [OF src more small src1_def] GetReturn out skip show ?thesis by simp
  next
    case (GetStatus rs)
    with ev3 have "get_skipped U (src, ev) = ((src1, ev3), Inl (ThrowStatus rs))"
      by (simp add: get_skipped_def src_defs call_get_def Let_def ev1_def ev2_def src1_def)
    with status_refines [OF U src more src1_def] GetStatus out show ?thesis by simp
  next
    case GetThrow
    with out show ?thesis by simp
  qed
qed

lemma emitted_refines:
  assumes U: "follows U f" and src: "src_ok src" "src_status src = COpened"
    and more: "m_nevents src = 0 \<or> m_event_count src \<noteq> m_nskip src + m_nevents src"
    and small: "m_event_count src + 1 < size_mod" and skip: "\<not> m_event_count src < m_nskip src"
  shows "refines_read src f (catch_compat U (get_emitted U (src, ev)))"
proof -
  define ev1 where "ev1 = reset_recorder (SetSequential False (SetJEventSource (Some (src_this src))
    (SetEventNumber (m_event_count src) ev)))"
  define ev2 where "ev2 = ev1\<lparr>mCallGraph := (mCallGraph ev1)\<lparr>m_insert_dataorigin_type := ORIGIN_FROM_SOURCE\<rparr>\<rparr>"
  define src1 where "src1 = src\<lparr>src_calls := src_calls src @ [CbGetEvent (mEventNumber ev2)]\<rparr>"
  obtain ev3 out where ev3: "code_get U (src_calls src) ev2 = (ev3, out)" by fastforce
  then have out: "get_result out = Some (f (reads (src_calls src)))" using U by (metis follows_def snd_conv)
  obtain ev4 where ev4: "insert_outputs U (m_outputs src) (src1, ev3) = ((src1, ev4), Inr ())"
    using insert_outputs_quiet U unfolding follows_def by metis
  define ev5 where "ev5 = ev4\<lparr>mCallGraph := (mCallGraph ev4)\<lparr>m_insert_dataorigin_type :=
    m_insert_dataorigin_type (mCallGraph ev1)\<rparr>\<rparr>"
  show ?thesis
  proof (cases out)
    case GetReturn
    with ev3 ev4 have "get_emitted U (src, ev) = ((count_event src1, ev5), Inr Success)"
      by (simp add: get_emitted_def src_defs call_get_def Let_def rethrow_def ev1_def ev2_def src1_def ev5_def)
    with got_refines [OF src more small src1_def] GetReturn out skip show ?thesis by simp
  next
    case (GetStatus rs)
    with ev3 have "get_emitted U (src, ev) = ((src1, ev3), Inl (ThrowStatus rs))"
      by (simp add: get_emitted_def src_defs call_get_def Let_def ev1_def ev2_def src1_def)
    with status_refines [OF U src more src1_def] GetStatus out show ?thesis by simp
  next
    case GetThrow
    with out show ?thesis by simp
  qed
qed

lemma compat_opened:
  assumes U: "follows U f" and src: "src_ok src" "src_status src = COpened" and small: "m_event_count src + 1 < size_mod"
  shows "refines_read src f
    (catch_compat U (compat_body U (m_nskip src) (sz_add (m_nevents src) (m_nskip src)) (src, ev)))"
proof -
  have last: "sz_add (m_nevents src) (m_nskip src) = m_nskip src + m_nevents src"
    using src(1) by (simp add: src_ok_def sz_add_exact add.commute)
  have body: "compat_body U (m_nskip src) (sz_add (m_nevents src) (m_nskip src)) (src, ev) =
    (if m_event_count src < m_nskip src then get_skipped U (src, ev)
     else if m_nevents src \<noteq> 0 \<and> m_event_count src = m_nskip src + m_nevents src
     then athen (rethrow (on_src (DoClose U))) (areturn FailureFinished) (src, ev)
     else get_emitted U (src, ev))"
    using src(2) by (simp add: compat_body_def athen_def abind_def awhen_def last)
  consider "m_event_count src < m_nskip src"
    | "m_nevents src \<noteq> 0" "m_event_count src = m_nskip src + m_nevents src"
    | "\<not> m_event_count src < m_nskip src" "m_nevents src = 0 \<or> m_event_count src \<noteq> m_nskip src + m_nevents src"
    by linarith
  then show ?thesis
  proof cases
    case 1
    with skipped_refines [OF U src _ small] show ?thesis unfolding body by simp
  next
    case 2
    have "code_user U = quiet" using U by (simp add: follows_def)
    from close_quiet [OF this src(2)] have
      "catch_compat U (athen (rethrow (on_src (DoClose U))) (areturn FailureFinished) (src, ev))
       = athen (on_src (DoClose U)) (areturn FailureFinished) (src, ev)"
      by (simp add: src_defs rethrow_def)
    with close_refines [OF U src 2] 2 show ?thesis unfolding body by simp
  next
    case 3
    with emitted_refines [OF U src 3(2) small 3(1)] show ?thesis unfolding body by auto
  qed
qed

lemma opened_refines:
  assumes U: "follows U f" and src: "src_ok src" "src_status src = COpened" and small: "m_event_count src + 1 < size_mod"
  shows "refines_read src f (DoNext U (src, ev))"
proof (cases "src_style src = LegacyMode")
  case True
  with src(2) have "DoNext U (src, ev)
      = catch_compat U (compat_body U (m_nskip src) (sz_add (m_nevents src) (m_nskip src)) (src, ev))"
    by (simp add: DoNext_def DoNextCompatibility_def)
  with compat_opened [OF assms] show ?thesis by simp
next
  case False
  have last: "sz_add (m_nevents src) (m_nskip src) = m_nskip src + m_nevents src"
    using src(1) by (simp add: src_ok_def sz_add_exact add.commute)
  from False src(2) have "DoNext U (src, ev) =
      (if m_nevents src \<noteq> 0 \<and> m_event_count src = m_nskip src + m_nevents src
       then athen (on_src (DoClose U)) (areturn FailureFinished) (src, ev)
       else emit_event U (m_nskip src) (src, ev))"
    by (simp add: DoNext_def athen_def abind_def awhen_def last)
  with close_refines [OF U src] emit_refines [OF U src _ small] show ?thesis by auto
qed

lemma DoNext_opens:
  assumes U: "follows U f" and src: "src_status src = CInitialized"
  shows "DoNext U (src, ev)
    = DoNext U (src\<lparr>src_calls := src_calls src @ [CbOpen], src_status := COpened\<rparr>, ev)"
proof -
  have "code_user U = quiet" using U by (simp add: follows_def)
  from open_quiet [OF this src] src show ?thesis
    by (simp add: DoNext_def DoNextCompatibility_def compat_body_def src_defs rethrow_def)
qed

lemma DoNext_refines:
  assumes U: "follows U f" and src: "src_ok src" and small: "m_event_count src + 1 < size_mod"
  shows "refines_read src f (DoNext U (src, ev))"
proof -
  from src consider "src_status src = CInitialized" | "src_status src = COpened" | "src_status src = CClosed"
    by (auto simp: src_ok_def)
  then show ?thesis
  proof cases
    case 1
    let ?src = "src\<lparr>src_calls := src_calls src @ [CbOpen], src_status := COpened\<rparr>"
    have "refines_read ?src f (DoNext U (?src, ev))"
      using opened_refines [OF U, of ?src] src small by (simp add: src_ok_def)
    then have "refines_read src f (DoNext U (?src, ev))"
      using 1 by (simp add: refines_read_def src_abs_def same_limits_def)
    with DoNext_opens [OF U 1] show ?thesis by simp
  next
    case 2
    with opened_refines [OF U src _ small] show ?thesis by simp
  next
    case 3
    with src show ?thesis
      by (simp add: DoNext_def DoNextCompatibility_def compat_body_def src_defs refines_read_def src_abs_def same_limits_def)
  qed
qed

section \<open>Streams\<close>

text \<open>A source is asked for one event after the other; the count at each request is kept with the outcome.\<close>

fun src_stream :: "source_code \<Rightarrow> JEvent list \<Rightarrow> JEventSource \<Rightarrow> (nat \<times> (JException + Result)) list" where
  "src_stream U [] src = []"
| "src_stream U (ev # evs) src =
     (case DoNext U (src, ev) of ((src', _), r) \<Rightarrow> (m_event_count src, r) # src_stream U evs src')"

fun spec_stream :: "nat \<Rightarrow> nat \<Rightarrow> (nat \<Rightarrow> Result) \<Rightarrow> nat \<Rightarrow> reader \<Rightarrow> Result list" where
  "spec_stream nskip nevents f 0 st = []"
| "spec_stream nskip nevents f (Suc m) st =
     (case read_next nskip nevents f st of (st', r) \<Rightarrow> r # spec_stream nskip nevents f m st')"

lemma stream_refines:
  assumes U: "follows U f" and src: "src_ok src" and small: "m_event_count src + length evs < size_mod"
  shows "map snd (src_stream U evs src)
    = map Inr (spec_stream (m_nskip src) (m_nevents src) f (length evs) (src_abs src))"
  using src small
proof (induction evs arbitrary: src)
  case (Cons ev evs)
  have "refines_read src f (DoNext U (src, ev))"
    using DoNext_refines [OF U Cons.prems(1)] Cons.prems(2) by simp
  then obtain src' ev' r where nxt: "DoNext U (src, ev) = ((src', ev'), Inr r)"
    "read_next (m_nskip src) (m_nevents src) f (src_abs src) = (src_abs src', r)"
    "src_ok src'" "same_limits src src'" "m_event_count src' \<le> m_event_count src + 1"
    by (auto simp: refines_read_def)
  from Cons.IH [OF nxt(3)] nxt Cons.prems(2) show ?case by (simp add: same_limits_def)
qed simp

text \<open>The events that are accepted carry consecutive numbers, starting at \<open>nskip\<close>.\<close>

definition accepted :: "(nat \<times> (JException + Result)) list \<Rightarrow> nat list" where
  "accepted rs = map fst (filter (\<lambda>(n, r). r = Inr Success) rs)"

lemma accepted_Cons:
  "accepted ((n, r) # rs) = (if r = Inr Success then n # accepted rs else accepted rs)"
  by (simp add: accepted_def)

lemma exhausted_stream:
  assumes U: "follows U f" and "src_ok src" and "src_abs src = Exhausted" and "m_event_count src + length evs < size_mod"
  shows "accepted (src_stream U evs src) = []"
  using assms(2-)
proof (induction evs arbitrary: src)
  case (Cons ev evs)
  have "refines_read src f (DoNext U (src, ev))" using DoNext_refines [OF U Cons.prems(1)] Cons.prems(3) by simp
  with Cons show ?case by (auto simp: refines_read_def accepted_Cons)
qed (simp add: accepted_def)

lemma stream_numbers:
  assumes U: "follows U f" and src: "src_ok src" and small: "m_event_count src + length evs < size_mod"
    and limit: "m_nevents src \<noteq> 0 \<Longrightarrow> m_event_count src \<le> m_nskip src + m_nevents src"
  shows "\<exists>k. accepted (src_stream U evs src) = [max (m_event_count src) (m_nskip src)..<k]
    \<and> (m_nevents src \<noteq> 0 \<longrightarrow> k \<le> m_nskip src + m_nevents src)"
  using src small limit
proof (induction evs arbitrary: src)
  case Nil
  then show ?case by (intro exI [of _ 0]) (simp add: accepted_def)
next
  case (Cons ev evs)
  let ?n = "m_event_count src" and ?skip = "m_nskip src" and ?nev = "m_nevents src"
  have "refines_read src f (DoNext U (src, ev))" using DoNext_refines [OF U Cons.prems(1)] Cons.prems(2) by simp
  then obtain src' ev' r where nxt: "DoNext U (src, ev) = ((src', ev'), Inr r)"
    "read_next ?skip ?nev f (src_abs src) = (src_abs src', r)"
    "src_ok src'" "same_limits src src'" "m_event_count src' \<le> ?n + 1"
    by (auto simp: refines_read_def)
  have small': "m_event_count src' + length evs < size_mod" using nxt(5) Cons.prems(2) by simp
  show ?case
  proof (cases "src_abs src'")
    case Exhausted
    then have "r = FailureFinished" using nxt(2)
      by (cases "src_abs src") (auto split: if_splits Result.splits)
    with exhausted_stream [OF U nxt(3) Exhausted small'] nxt(1) Cons.prems(3) show ?thesis
      by (intro exI [of _ 0]) (simp add: accepted_Cons)
  next
    case (Reading n' k')
    then have n': "m_event_count src' = n'" by (simp add: src_abs_def split: if_splits)
    from Reading nxt(2) have abs: "src_abs src = Reading ?n (reads (src_calls src))"
      by (auto simp: src_abs_def split: if_splits)
    with Reading nxt(2) have step: "?nev = 0 \<or> ?n \<noteq> ?skip + ?nev"
      "(n' = Suc ?n \<and> r = (if ?n < ?skip then FailureTryAgain else Success)) \<or> (n' = ?n \<and> r = FailureTryAgain)"
      by (auto split: if_splits Result.splits)
    have "m_nevents src' \<noteq> 0 \<Longrightarrow> m_event_count src' \<le> m_nskip src' + m_nevents src'"
      using step Cons.prems(3) nxt(4) n' by (auto simp: same_limits_def)
    from Cons.IH [OF nxt(3) small' this] nxt(4) n' obtain k where
      k: "accepted (src_stream U evs src') = [max n' ?skip..<k]" "?nev \<noteq> 0 \<longrightarrow> k \<le> ?skip + ?nev"
      by (auto simp: same_limits_def)
    show ?thesis
    proof (cases "r = Success")
      case True
      with step have "n' = Suc ?n" "?skip \<le> ?n" by (auto split: if_splits)
      then have "accepted (src_stream U (ev # evs) src) = ?n # [Suc ?n..<k]"
        using True nxt(1) k(1) by (simp add: accepted_Cons max_def)
      also have "?n # [Suc ?n..<k] = [?n..<max (Suc ?n) k]"
        by (cases "Suc ?n \<le> k") (auto simp: upt_conv_Cons max_def)
      finally show ?thesis
        using \<open>?skip \<le> ?n\<close> k(2) step(1) Cons.prems(3)
        by (intro exI [of _ "max (Suc ?n) k"]) (auto simp: max_def)
    next
      case False
      with step have "max n' ?skip = max ?n ?skip" by (auto split: if_splits)
      with False nxt(1) k show ?thesis by (intro exI [of _ k]) (simp add: accepted_Cons)
    qed
  qed
qed

lemma spec_skipping:
  "spec_stream nskip nevents (\<lambda>_. Success) nskip (Reading 0 0) = replicate nskip FailureTryAgain"
proof -
  have "spec_stream nskip nevents (\<lambda>_. Success) m (Reading n k) = replicate m FailureTryAgain"
    if "n + m \<le> nskip" for m n k using that by (induction m arbitrary: n k) auto
  then show ?thesis by simp
qed

lemma spec_delivering:
  assumes "nevents \<noteq> 0" and "nskip \<le> n" and "n + m = nskip + nevents"
  shows "spec_stream nskip nevents (\<lambda>_. Success) (Suc m) (Reading n k) = replicate m Success @ [FailureFinished]"
  using assms(2,3)
proof (induction m arbitrary: n k)
  case 0
  with assms(1) show ?case by simp
next
  case (Suc m)
  then have "n \<noteq> nskip + nevents" by simp
  with Suc.prems Suc.IH [of "Suc n" "Suc k"] show ?case by simp
qed

lemma spec_stream_add:
  "spec_stream nskip nevents f (m + m') st
   = spec_stream nskip nevents f m st @ spec_stream nskip nevents f m' (((fst \<circ> read_next nskip nevents f) ^^ m) st)"
  by (induction m arbitrary: st) (auto simp: funpow_swap1 split: prod.split)

lemma spec_after_skip:
  "m \<le> nskip \<Longrightarrow> ((fst \<circ> read_next nskip nevents (\<lambda>_. Success)) ^^ m) (Reading 0 0) = Reading m m"
  by (induction m) auto

section \<open>Properties of sources\<close>

definition sample_code :: "Result \<Rightarrow> get_outcome \<Rightarrow> source_code" where
  "sample_code r g = \<lparr>code_user = quiet, code_emit = \<lambda>h ev. (ev, EmitResult r), code_get = \<lambda>h ev. (ev, g),
                      code_output = \<lambda>i ev. (ev, None)\<rparr>"

definition sample_source :: "CallbackStyle \<Rightarrow> nat \<Rightarrow> nat \<Rightarrow> JEventSource" where
  "sample_source style nskip nevents =
     (SetNEvents nevents (SetNSkip nskip (new_JEventSource 7 ''file'')))\<lparr>src_style := style, src_status := CInitialized\<rparr>"

lemma sample_follows: "follows (sample_code Success GetReturn) (\<lambda>_. Success)"
  by (simp add: follows_def sample_code_def)

lemma sample_source_simps [simp]:
  "m_event_count (sample_source style s n) = 0" "src_calls (sample_source style s n) = []"
  "m_nskip (sample_source style s n) = s" "m_nevents (sample_source style s n) = n"
  "src_status (sample_source style s n) = CInitialized" "src_style (sample_source style s n) = style"
  by (simp_all add: sample_source_def SetNEvents_def SetNSkip_def new_JEventSource_def)





text \<open>
  The events a source delivers are numbered consecutively from \<open>nskip\<close>, and with a limit there are
  never more than \<open>nevents\<close> of them, whatever the outcomes of the reads.
\<close>

theorem source_numbers:
  assumes "follows U f" and "src_ok src" and "m_event_count src = 0" and "length evs < size_mod"
  shows "\<exists>k. accepted (src_stream U evs src) = [m_nskip src..<k]
    \<and> (m_nevents src \<noteq> 0 \<longrightarrow> k \<le> m_nskip src + m_nevents src)"
  using stream_numbers [OF assms(1,2), of evs] assms(3,4) by simp

theorem source_numbers_witness:
  "\<exists>k. accepted (src_stream (sample_code Success GetReturn) [new_JEvent] (sample_source ExpertMode 5 2)) = [5..<k] \<and> k \<le> 7"
  using source_numbers [OF sample_follows, of "sample_source ExpertMode 5 2" "[new_JEvent]"]
  by (simp add: src_ok_def size_mod_def)





text \<open>
  When \<open>GetEvent\<close> asks to be called again by throwing, the event keeps the insert origin of a
  source: \<open>DoNextCompatibility\<close> restores the previous origin only after a normal return, and the next
  successful read restores the origin it found.
\<close>

theorem try_again_keeps_origin:
  assumes "code_get U (src_calls src) ev1 = (ev1, GetStatus kTRY_AGAIN)"
    and "ev1 = (SetEventNumber (m_event_count src) ev)\<lparr>mCallGraph := (mCallGraph ev)\<lparr>m_insert_dataorigin_type := ORIGIN_FROM_SOURCE\<rparr>\<rparr>"
    and "src_status src = COpened" and "src_style src = LegacyMode" and "m_event_count src < m_nskip src"
  shows "DoNext U (src, ev)
    = ((src\<lparr>src_calls := src_calls src @ [CbGetEvent (m_event_count src)]\<rparr>, ev1), Inr FailureTryAgain)"
  using assms
  by (simp add: DoNext_def DoNextCompatibility_def compat_body_def get_skipped_def call_get_def Let_def
      catch_status_def SetEventNumber_def src_defs)

theorem try_again_keeps_origin_witness:
  "m_insert_dataorigin_type (mCallGraph (snd (fst (DoNext (sample_code Success (GetStatus kTRY_AGAIN))
     ((sample_source LegacyMode 3 0)\<lparr>src_status := COpened\<rparr>, new_JEvent))))) = ORIGIN_FROM_SOURCE"
  using try_again_keeps_origin [of "sample_code Success (GetStatus kTRY_AGAIN)" "(sample_source LegacyMode 3 0)\<lparr>src_status := COpened\<rparr>" _ new_JEvent]
  by (simp add: sample_code_def)

end
