(* ===== verification/Mailbox.thy ===== *)
theory Mailbox
  imports Prelude
begin

text \<open>
  Model of \<open>src/libraries/JANA/Topology/JMailbox.h\<close>: the bounded event queue between arrows,
  one \<open>LocalQueue\<close> per location, with reservations.  Every method body runs under the mutex of
  one \<open>LocalQueue\<close>, so a method is one atomic step on that queue; \<open>try_lock\<close> is the boolean
  argument \<open>lock_acquired\<close>.  Items of the array-based methods are nullable pointers.
\<close>

section \<open>State\<close>

record 'a LocalQueue =
  queue :: "'a list"
  reserved_count :: nat

record 'a JMailbox =
  m_capacity :: nat
  m_locations_count :: nat
  m_enable_work_stealing :: bool
  m_id :: int
  m_queues :: "'a LocalQueue list"

datatype MailboxStatus = Ready | Congested | Empty | Full

definition new_LocalQueue :: "'a LocalQueue" where
  "new_LocalQueue = \<lparr>queue = [], reserved_count = 0\<rparr>"

definition new_JMailbox :: "nat \<Rightarrow> nat \<Rightarrow> bool \<Rightarrow> 'a JMailbox" where
  "new_JMailbox threshold locations_count enable_work_stealing =
     \<lparr>m_capacity = threshold, m_locations_count = locations_count,
      m_enable_work_stealing = enable_work_stealing, m_id = 0,
      m_queues = replicate locations_count new_LocalQueue\<rparr>"

definition JMailbox_get_threshold :: "'a JMailbox \<Rightarrow> nat" where
  "JMailbox_get_threshold mb = m_capacity mb"

definition JMailbox_set_threshold :: "nat \<Rightarrow> 'a JMailbox \<Rightarrow> 'a JMailbox" where
  "JMailbox_set_threshold threshold mb = mb\<lparr>m_capacity := threshold\<rparr>"

definition JMailbox_set_id :: "int \<Rightarrow> 'a JMailbox \<Rightarrow> 'a JMailbox" where
  "JMailbox_set_id i mb = mb\<lparr>m_id := i\<rparr>"

definition status_string :: "MailboxStatus \<Rightarrow> string" where
  "status_string s = (case s of Ready \<Rightarrow> ''Ready'' | Congested \<Rightarrow> ''Congested''
     | Empty \<Rightarrow> ''Empty'' | Full \<Rightarrow> ''Full'')"

section \<open>Operations on one \<open>LocalQueue\<close>\<close>

text \<open>
  The first argument of each operation is \<open>m_capacity\<close>.  The bodies of the \<open>for\<close> loops over
  the caller's array are \<open>push_loop\<close> and \<open>pop_loop\<close>.
\<close>

function push_loop :: "nat \<Rightarrow> nat \<Rightarrow> 'a ptr list \<Rightarrow> 'a ptr list \<Rightarrow> ('a ptr list \<times> 'a ptr list) result" where
  "push_loop i cnt buffer q =
     (if i < cnt then
        (if i < length buffer
         then push_loop (Suc i) cnt (buffer[i := nullptr]) (q @ [buffer ! i])
         else Inl (UndefinedBehaviour ''buffer index''))
      else Inr (buffer, q))"
  by pat_completeness auto
termination
  by (relation "measure (\<lambda>(i, cnt, buffer, q). cnt - i)") auto

function pop_loop :: "nat \<Rightarrow> nat \<Rightarrow> 'a list \<Rightarrow> 'a list \<Rightarrow> ('a list \<times> 'a list) result" where
  "pop_loop i nitems buffer q =
     (if i < nitems then
        (case q of
           [] \<Rightarrow> Inl (UndefinedBehaviour ''front of an empty deque'')
         | x # q' \<Rightarrow>
             (if i < length buffer
              then pop_loop (Suc i) nitems (buffer[i := x]) q'
              else Inl (UndefinedBehaviour ''buffer index'')))
      else Inr (buffer, q))"
  by pat_completeness auto
termination
  by (relation "measure (\<lambda>(i, nitems, buffer, q). nitems - i)") auto

declare push_loop.simps [simp del] pop_loop.simps [simp del]

definition lq_reserve_upto :: "nat \<Rightarrow> nat \<Rightarrow> 'a LocalQueue \<Rightarrow> 'a LocalQueue \<times> nat" where
  "lq_reserve_upto cap requested_count mb =
     (let doable_count = sz_sub (sz_sub cap (length (queue mb))) (reserved_count mb) in
      if 0 < doable_count then
        (let reservation = min doable_count requested_count in
         (mb\<lparr>reserved_count := sz_add (reserved_count mb) reservation\<rparr>, reservation))
      else (mb, 0))"

definition lq_push_vector ::
    "nat \<Rightarrow> 'a list \<Rightarrow> nat \<Rightarrow> 'a LocalQueue \<Rightarrow> 'a LocalQueue \<times> 'a list \<times> MailboxStatus" where
  "lq_push_vector cap buffer reserved mb =
     (let mb' = mb\<lparr>reserved_count := sz_sub (reserved_count mb) reserved,
                   queue := queue mb @ buffer\<rparr> in
      (mb', [], if cap < length (queue mb') then Full else Ready))"

definition lq_pop_vector ::
    "nat \<Rightarrow> bool \<Rightarrow> 'a list \<Rightarrow> nat \<Rightarrow> 'a LocalQueue \<Rightarrow> 'a LocalQueue \<times> 'a list \<times> MailboxStatus" where
  "lq_pop_vector cap lock_acquired buffer requested_count mb =
     (if \<not> lock_acquired then (mb, buffer, Congested)
      else
        let nitems = min requested_count (length (queue mb));
            mb' = mb\<lparr>queue := drop nitems (queue mb)\<rparr>;
            size = length (queue mb') in
        (mb', buffer @ take nitems (queue mb),
         if cap \<le> size then Full else if size \<noteq> 0 then Ready else Empty))"

text \<open>The single-item \<open>pop\<close>: \<open>None\<close> as the item stands for \<open>success = false\<close>.\<close>

definition lq_pop_one :: "bool \<Rightarrow> 'a LocalQueue \<Rightarrow> 'a LocalQueue \<times> 'a option \<times> MailboxStatus" where
  "lq_pop_one lock_acquired mb =
     (if \<not> lock_acquired then (mb, None, Congested)
      else case queue mb of
             [] \<Rightarrow> (mb, None, Empty)
           | x # q' \<Rightarrow> (mb\<lparr>queue := q'\<rparr>, Some x, if 1 < length (queue mb) then Ready else Empty))"

definition lq_try_push ::
    "nat \<Rightarrow> 'a ptr list \<Rightarrow> nat \<Rightarrow> 'a ptr LocalQueue
       \<Rightarrow> ('a ptr LocalQueue \<times> 'a ptr list \<times> bool) result" where
  "lq_try_push cap buffer cnt mb =
     (if cap < sz_add (length (queue mb)) cnt then Inr (mb, buffer, False)
      else rbind (push_loop 0 cnt buffer (queue mb))
             (\<lambda>(buffer', q). Inr (mb\<lparr>queue := q\<rparr>, buffer', True)))"

definition lq_push_and_unreserve ::
    "nat \<Rightarrow> 'a ptr list \<Rightarrow> nat \<Rightarrow> nat \<Rightarrow> 'a ptr LocalQueue
       \<Rightarrow> ('a ptr LocalQueue \<times> 'a ptr list) result" where
  "lq_push_and_unreserve cap buffer cnt reserved mb =
     (if \<not> reserved \<le> reserved_count mb then Inl (AssertFailed ''reserved_count <= mb.reserved_count'')
      else if \<not> sz_add (length (queue mb)) cnt \<le> cap
      then Inl (AssertFailed ''mb.queue.size() + count <= m_capacity'')
      else rbind (push_loop 0 cnt buffer (queue mb))
             (\<lambda>(buffer', q). Inr (mb\<lparr>reserved_count := sz_sub (reserved_count mb) reserved, queue := q\<rparr>, buffer')))"

definition lq_pop ::
    "'a list \<Rightarrow> nat \<Rightarrow> nat \<Rightarrow> 'a LocalQueue \<Rightarrow> ('a LocalQueue \<times> 'a list \<times> nat) result" where
  "lq_pop buffer min_requested_count max_requested_count mb =
     (if length (queue mb) < min_requested_count then Inr (mb, buffer, 0)
      else
        let nitems = min max_requested_count (length (queue mb)) in
        rbind (pop_loop 0 nitems buffer (queue mb))
          (\<lambda>(buffer', q). Inr (mb\<lparr>queue := q\<rparr>, buffer', nitems)))"

definition lq_pop_and_reserve ::
    "'a list \<Rightarrow> nat \<Rightarrow> nat \<Rightarrow> 'a LocalQueue \<Rightarrow> ('a LocalQueue \<times> 'a list \<times> nat) result" where
  "lq_pop_and_reserve buffer min_requested_count max_requested_count mb =
     (if length (queue mb) < min_requested_count then Inr (mb, buffer, 0)
      else
        let nitems = min max_requested_count (length (queue mb)) in
        rbind (pop_loop 0 nitems buffer (queue mb))
          (\<lambda>(buffer', q).
             Inr (mb\<lparr>reserved_count := sz_add (reserved_count mb) nitems, queue := q\<rparr>, buffer', nitems)))"

definition lq_reserve :: "nat \<Rightarrow> nat \<Rightarrow> nat \<Rightarrow> 'a LocalQueue \<Rightarrow> 'a LocalQueue \<times> nat" where
  "lq_reserve cap min_requested_count max_requested_count mb =
     (let available_count = sz_sub (sz_sub cap (length (queue mb))) (reserved_count mb);
          cnt = min available_count max_requested_count in
      if cnt < min_requested_count then (mb, 0)
      else (mb\<lparr>reserved_count := sz_add (reserved_count mb) cnt\<rparr>, cnt))"

definition lq_unreserve :: "nat \<Rightarrow> 'a LocalQueue \<Rightarrow> 'a LocalQueue result" where
  "lq_unreserve reserved mb =
     (if \<not> reserved \<le> reserved_count mb then Inl (AssertFailed ''reserved_count <= mb.reserved_count'')
      else Inr (mb\<lparr>reserved_count := sz_sub (reserved_count mb) reserved\<rparr>))"

section \<open>Operations on the mailbox\<close>

text \<open>
  \<open>at_location\<close> selects \<open>m_queues[location_id]\<close>; an id that names no location is an access past
  the end of the array.
\<close>

definition at_location ::
    "nat \<Rightarrow> ('a LocalQueue \<Rightarrow> ('a LocalQueue \<times> 'r) result) \<Rightarrow> 'a JMailbox \<Rightarrow> ('a JMailbox \<times> 'r) result" where
  "at_location location_id f mb =
     (if location_id < length (m_queues mb)
      then rbind (f (m_queues mb ! location_id))
             (\<lambda>(lq, r). Inr (mb\<lparr>m_queues := (m_queues mb)[location_id := lq]\<rparr>, r))
      else Inl (UndefinedBehaviour ''m_queues index''))"

fun JMailbox_size_loop :: "nat \<Rightarrow> 'a LocalQueue list \<Rightarrow> nat" where
  "JMailbox_size_loop result [] = result"
| "JMailbox_size_loop result (lq # lqs) = JMailbox_size_loop (sz_add result (length (queue lq))) lqs"

definition JMailbox_size :: "'a JMailbox \<Rightarrow> nat" where
  "JMailbox_size mb = JMailbox_size_loop 0 (take (m_locations_count mb) (m_queues mb))"

definition JMailbox_size_at :: "nat \<Rightarrow> 'a JMailbox \<Rightarrow> nat result" where
  "JMailbox_size_at location_id mb =
     (if location_id < length (m_queues mb) then Inr (length (queue (m_queues mb ! location_id)))
      else Inl (UndefinedBehaviour ''m_queues index''))"

definition JMailbox_reserve_upto :: "nat \<Rightarrow> nat \<Rightarrow> 'a JMailbox \<Rightarrow> ('a JMailbox \<times> nat) result" where
  "JMailbox_reserve_upto requested_count location_id mb =
     at_location location_id (\<lambda>lq. Inr (lq_reserve_upto (m_capacity mb) requested_count lq)) mb"

definition JMailbox_push_vector ::
    "'a list \<Rightarrow> nat \<Rightarrow> nat \<Rightarrow> 'a JMailbox \<Rightarrow> ('a JMailbox \<times> 'a list \<times> MailboxStatus) result" where
  "JMailbox_push_vector buffer reserved location_id mb =
     at_location location_id (\<lambda>lq. Inr (lq_push_vector (m_capacity mb) buffer reserved lq)) mb"

definition JMailbox_pop_vector ::
    "bool \<Rightarrow> 'a list \<Rightarrow> nat \<Rightarrow> nat \<Rightarrow> 'a JMailbox \<Rightarrow> ('a JMailbox \<times> 'a list \<times> MailboxStatus) result" where
  "JMailbox_pop_vector lock_acquired buffer requested_count location_id mb =
     at_location location_id
       (\<lambda>lq. Inr (lq_pop_vector (m_capacity mb) lock_acquired buffer requested_count lq)) mb"

definition JMailbox_pop_one ::
    "bool \<Rightarrow> nat \<Rightarrow> 'a JMailbox \<Rightarrow> ('a JMailbox \<times> 'a option \<times> MailboxStatus) result" where
  "JMailbox_pop_one lock_acquired location_id mb =
     at_location location_id (\<lambda>lq. Inr (lq_pop_one lock_acquired lq)) mb"

definition JMailbox_try_push ::
    "'a ptr list \<Rightarrow> nat \<Rightarrow> nat \<Rightarrow> 'a ptr JMailbox \<Rightarrow> ('a ptr JMailbox \<times> 'a ptr list \<times> bool) result" where
  "JMailbox_try_push buffer cnt location_id mb =
     at_location location_id (lq_try_push (m_capacity mb) buffer cnt) mb"

definition JMailbox_push_and_unreserve ::
    "'a ptr list \<Rightarrow> nat \<Rightarrow> nat \<Rightarrow> nat \<Rightarrow> 'a ptr JMailbox \<Rightarrow> ('a ptr JMailbox \<times> 'a ptr list) result" where
  "JMailbox_push_and_unreserve buffer cnt reserved location_id mb =
     at_location location_id (lq_push_and_unreserve (m_capacity mb) buffer cnt reserved) mb"

definition JMailbox_pop ::
    "'a list \<Rightarrow> nat \<Rightarrow> nat \<Rightarrow> nat \<Rightarrow> 'a JMailbox \<Rightarrow> ('a JMailbox \<times> 'a list \<times> nat) result" where
  "JMailbox_pop buffer min_requested_count max_requested_count location_id mb =
     at_location location_id (lq_pop buffer min_requested_count max_requested_count) mb"

definition JMailbox_pop_and_reserve ::
    "'a list \<Rightarrow> nat \<Rightarrow> nat \<Rightarrow> nat \<Rightarrow> 'a JMailbox \<Rightarrow> ('a JMailbox \<times> 'a list \<times> nat) result" where
  "JMailbox_pop_and_reserve buffer min_requested_count max_requested_count location_id mb =
     at_location location_id (lq_pop_and_reserve buffer min_requested_count max_requested_count) mb"

definition JMailbox_reserve :: "nat \<Rightarrow> nat \<Rightarrow> nat \<Rightarrow> 'a JMailbox \<Rightarrow> ('a JMailbox \<times> nat) result" where
  "JMailbox_reserve min_requested_count max_requested_count location_id mb =
     at_location location_id
       (\<lambda>lq. Inr (lq_reserve (m_capacity mb) min_requested_count max_requested_count lq)) mb"

definition JMailbox_unreserve :: "nat \<Rightarrow> nat \<Rightarrow> 'a JMailbox \<Rightarrow> ('a JMailbox \<times> unit) result" where
  "JMailbox_unreserve reserved location_id mb =
     at_location location_id (\<lambda>lq. rbind (lq_unreserve reserved lq) (\<lambda>lq'. Inr (lq', ()))) mb"


section \<open>The loops in closed form\<close>

lemma push_loop_from:
  "i \<le> cnt \<Longrightarrow> cnt \<le> length buffer \<Longrightarrow>
     push_loop i cnt buffer q =
       Inr (take i buffer @ replicate (cnt - i) nullptr @ drop cnt buffer,
            q @ take (cnt - i) (drop i buffer))"
proof (induction i cnt buffer q rule: push_loop.induct)
  case (1 i cnt buffer q)
  show ?case
  proof (cases "i < cnt")
    case True
    with "1.prems" have i: "i < length buffer" by simp
    from True have cnt: "cnt - i = Suc (cnt - Suc i)" by simp
    from "1.IH" [OF True i] True "1.prems"
    have "push_loop (Suc i) cnt (buffer[i := nullptr]) (q @ [buffer ! i]) =
        Inr (take i buffer @ nullptr # replicate (cnt - Suc i) nullptr @ drop cnt buffer,
             q @ buffer ! i # take (cnt - Suc i) (drop (Suc i) buffer))"
      by (simp add: take_Suc_snoc i)
    with True i cnt show ?thesis
      by (simp add: push_loop.simps [of i] Cons_nth_drop_Suc [symmetric])
  next
    case False
    with "1.prems" show ?thesis by (subst push_loop.simps) simp
  qed
qed

lemma push_loop_eq:
  "cnt \<le> length buffer \<Longrightarrow>
     push_loop 0 cnt buffer q = Inr (replicate cnt nullptr @ drop cnt buffer, q @ take cnt buffer)"
  using push_loop_from [of 0 cnt buffer q] by simp

lemma push_loop_overrun:
  "length buffer < cnt \<Longrightarrow> i \<le> length buffer \<Longrightarrow> push_loop i cnt buffer q = Inl (UndefinedBehaviour ''buffer index'')"
proof (induction i cnt buffer q rule: push_loop.induct)
  case (1 i cnt buffer q)
  then show ?case by (subst push_loop.simps) auto
qed

lemma pop_loop_from:
  "i \<le> nitems \<Longrightarrow> nitems \<le> length buffer \<Longrightarrow> nitems - i \<le> length q \<Longrightarrow>
     pop_loop i nitems buffer q =
       Inr (take i buffer @ take (nitems - i) q @ drop nitems buffer, drop (nitems - i) q)"
proof (induction i nitems buffer q rule: pop_loop.induct)
  case (1 i nitems buffer q)
  show ?case
  proof (cases "i < nitems")
    case True
    with "1.prems" obtain x q' where q: "q = x # q'" by (cases q) auto
    from True "1.prems" have i: "i < length buffer" by simp
    from True have n: "nitems - i = Suc (nitems - Suc i)" by simp
    from "1.IH" [OF True q i] True "1.prems" q
    have "pop_loop (Suc i) nitems (buffer[i := x]) q' =
        Inr (take i buffer @ x # take (nitems - Suc i) q' @ drop nitems buffer,
             drop (nitems - Suc i) q')"
      by (simp add: take_Suc_snoc i)
    with True i n q show ?thesis by (simp add: pop_loop.simps [of i])
  next
    case False
    with "1.prems" show ?thesis by (subst pop_loop.simps) simp
  qed
qed

lemma pop_loop_eq:
  "nitems \<le> length buffer \<Longrightarrow> nitems \<le> length q \<Longrightarrow>
     pop_loop 0 nitems buffer q = Inr (take nitems q @ drop nitems buffer, drop nitems q)"
  using pop_loop_from [of 0 nitems buffer q] by simp

lemma pop_loop_overrun:
  "length buffer < nitems \<Longrightarrow> i \<le> length buffer \<Longrightarrow> nitems - i \<le> length q \<Longrightarrow>
     pop_loop i nitems buffer q = Inl (UndefinedBehaviour ''buffer index'')"
proof (induction i nitems buffer q rule: pop_loop.induct)
  case (1 i nitems buffer q)
  then obtain x q' where "q = x # q'" by (cases q) auto
  with 1 show ?case by (subst pop_loop.simps) auto
qed

lemma pop_loop_Inr:
  assumes "pop_loop 0 nitems buffer q = Inr (buffer', q')" and "nitems \<le> length q"
  shows "nitems \<le> length buffer \<and> buffer' = take nitems q @ drop nitems buffer \<and> q' = drop nitems q"
proof -
  from assms have n: "nitems \<le> length buffer"
    using pop_loop_overrun [of buffer nitems 0 q] by (cases "nitems \<le> length buffer") auto
  with assms show ?thesis by (simp add: pop_loop_eq)
qed

lemma push_loop_Inr:
  assumes "push_loop 0 cnt buffer q = Inr (buffer', q')"
  shows "cnt \<le> length buffer \<and> buffer' = replicate cnt nullptr @ drop cnt buffer \<and> q' = q @ take cnt buffer"
proof -
  from assms have n: "cnt \<le> length buffer"
    using push_loop_overrun [of buffer cnt 0 q] by (cases "cnt \<le> length buffer") auto
  with assms show ?thesis by (simp add: push_loop_eq)
qed

section \<open>First-in first-out\<close>

text \<open>
  Every method of the mailbox as one operation on a \<open>LocalQueue\<close>; \<open>exec_op\<close> runs it and reports
  the items it appended to the queue and the items it handed to the caller.
\<close>

datatype 'a mb_op =
    OpReserveUpto nat
  | OpPushVector "'a ptr list" nat
  | OpPopVector bool nat
  | OpPopOne bool
  | OpTryPush "'a ptr list" nat
  | OpPushAndUnreserve "'a ptr list" nat nat
  | OpPop "'a ptr list" nat nat
  | OpPopAndReserve "'a ptr list" nat nat
  | OpReserve nat nat
  | OpUnreserve nat

fun exec_op ::
    "nat \<Rightarrow> 'a mb_op \<Rightarrow> 'a ptr LocalQueue \<Rightarrow> ('a ptr LocalQueue \<times> 'a ptr list \<times> 'a ptr list) result" where
  "exec_op cap (OpReserveUpto n) lq = Inr (fst (lq_reserve_upto cap n lq), [], [])"
| "exec_op cap (OpPushVector buffer r) lq = Inr (fst (lq_push_vector cap buffer r lq), buffer, [])"
| "exec_op cap (OpPopVector ok n) lq =
     (case lq_pop_vector cap ok [] n lq of (lq', out, _) \<Rightarrow> Inr (lq', [], out))"
| "exec_op cap (OpPopOne ok) lq =
     (case lq_pop_one ok lq of (lq', item, _) \<Rightarrow> Inr (lq', [], case item of None \<Rightarrow> [] | Some x \<Rightarrow> [x]))"
| "exec_op cap (OpTryPush buffer n) lq =
     rbind (lq_try_push cap buffer n lq)
       (\<lambda>(lq', _, ok). Inr (lq', if ok then take n buffer else [], []))"
| "exec_op cap (OpPushAndUnreserve buffer n r) lq =
     rbind (lq_push_and_unreserve cap buffer n r lq) (\<lambda>(lq', _). Inr (lq', take n buffer, []))"
| "exec_op cap (OpPop buffer mn mx) lq =
     rbind (lq_pop buffer mn mx lq) (\<lambda>(lq', buffer', n). Inr (lq', [], take n buffer'))"
| "exec_op cap (OpPopAndReserve buffer mn mx) lq =
     rbind (lq_pop_and_reserve buffer mn mx lq) (\<lambda>(lq', buffer', n). Inr (lq', [], take n buffer'))"
| "exec_op cap (OpReserve mn mx) lq = Inr (fst (lq_reserve cap mn mx lq), [], [])"
| "exec_op cap (OpUnreserve r) lq = rbind (lq_unreserve r lq) (\<lambda>lq'. Inr (lq', [], []))"

fun run_ops ::
    "nat \<Rightarrow> 'a mb_op list \<Rightarrow> 'a ptr LocalQueue \<Rightarrow> ('a ptr LocalQueue \<times> 'a ptr list \<times> 'a ptr list) result" where
  "run_ops cap [] lq = Inr (lq, [], [])"
| "run_ops cap (op # ops) lq =
     rbind (exec_op cap op lq) (\<lambda>(lq', ins, outs).
     rbind (run_ops cap ops lq') (\<lambda>(lq'', ins', outs'). Inr (lq'', ins @ ins', outs @ outs')))"

lemma exec_op_fifo:
  assumes "exec_op cap op lq = Inr (lq', ins, outs)"
  shows "queue lq @ ins = outs @ queue lq'"
  using assms
  by (cases op)
    (auto simp: lq_reserve_upto_def lq_push_vector_def lq_pop_vector_def lq_pop_one_def
       lq_try_push_def lq_push_and_unreserve_def lq_pop_def lq_pop_and_reserve_def
       lq_reserve_def lq_unreserve_def Let_def rbind_Inr_iff
       dest!: pop_loop_Inr push_loop_Inr
       split: if_splits list.splits option.splits)

lemma run_ops_fifo:
  "run_ops cap ops lq = Inr (lq', ins, outs) \<Longrightarrow> queue lq @ ins = outs @ queue lq'"
proof (induction ops arbitrary: lq ins outs)
  case Nil
  then show ?case by simp
next
  case (Cons op ops)
  from Cons.prems obtain lq1 ins1 outs1 ins2 outs2 where
      op: "exec_op cap op lq = Inr (lq1, ins1, outs1)"
    and rest: "run_ops cap ops lq1 = Inr (lq', ins2, outs2)"
    and io: "ins = ins1 @ ins2" "outs = outs1 @ outs2"
    by (auto simp: rbind_Inr_iff)
  from exec_op_fifo [OF op] Cons.IH [OF rest] io show ?case
    by (metis append.assoc)
qed

section \<open>The reservation contract\<close>

text \<open>
  What an arrow relies on when it talks to a queue: a reservation leaves the contents alone and
  takes free space, a pop that reserves keeps the space of what it took, and a push within an
  outstanding reservation always succeeds.  \<open>free\<close> is the space that is neither occupied nor
  reserved, \<open>held\<close> the space reserved by somebody.
\<close>

locale reserving_queue =
  fixes wf :: "'q \<Rightarrow> bool"
    and contents :: "'q \<Rightarrow> 'a ptr list"
    and held :: "'q \<Rightarrow> nat"
    and free :: "'q \<Rightarrow> nat"
    and reserve :: "nat \<Rightarrow> nat \<Rightarrow> 'q \<Rightarrow> 'q \<times> nat"
    and pop_and_reserve :: "'a ptr list \<Rightarrow> nat \<Rightarrow> nat \<Rightarrow> 'q \<Rightarrow> ('q \<times> 'a ptr list \<times> nat) result"
    and push_and_unreserve :: "'a ptr list \<Rightarrow> nat \<Rightarrow> nat \<Rightarrow> 'q \<Rightarrow> ('q \<times> 'a ptr list) result"
  assumes reserve_law:
    "wf q \<Longrightarrow> reserve mn mx q = (q', n) \<Longrightarrow>
       wf q' \<and> contents q' = contents q \<and> held q' = held q + n \<and> free q = free q' + n
       \<and> n = (if min (free q) mx < mn then 0 else min (free q) mx)"
  and pop_law:
    "wf q \<Longrightarrow> mx \<le> length buffer \<Longrightarrow>
       \<exists>q' xs. pop_and_reserve buffer mn mx q = Inr (q', xs @ drop (length xs) buffer, length xs)
         \<and> wf q' \<and> contents q = xs @ contents q' \<and> held q' = held q + length xs
         \<and> free q' = free q
         \<and> length xs = (if length (contents q) < mn then 0 else min mx (length (contents q)))"
  and push_law:
    "wf q \<Longrightarrow> r \<le> held q \<Longrightarrow> cnt \<le> r \<Longrightarrow> cnt \<le> length buffer \<Longrightarrow>
       \<exists>q'. push_and_unreserve buffer cnt r q = Inr (q', replicate cnt nullptr @ drop cnt buffer)
         \<and> wf q' \<and> contents q' = contents q @ take cnt buffer \<and> held q' = held q - r
         \<and> free q' = free q + (r - cnt)"
begin

lemma pop_push_back:
  assumes "wf q" and "mx \<le> length buffer"
    and "pop_and_reserve buffer mn mx q = Inr (q', buffer', n)"
  shows "\<exists>q''. push_and_unreserve buffer' n n q' = Inr (q'', replicate n nullptr @ drop n buffer)
     \<and> wf q'' \<and> contents q'' = drop n (contents q) @ take n (contents q)
     \<and> held q'' = held q \<and> free q'' = free q"
proof -
  from pop_law [OF assms(1,2), of mn] assms(3) obtain xs where
      xs: "buffer' = xs @ drop (length xs) buffer" "n = length xs"
    and q': "wf q'" "contents q = xs @ contents q'" "held q' = held q + length xs" "free q' = free q"
    by auto
  from push_law [OF q'(1), of n n buffer'] xs q' show ?thesis by auto
qed

lemma reserve_push:
  assumes "wf q" and "reserve mn mx q = (q', n)" and "cnt \<le> n" and "cnt \<le> length buffer"
  shows "\<exists>q''. push_and_unreserve buffer cnt n q' = Inr (q'', replicate cnt nullptr @ drop cnt buffer)
     \<and> wf q'' \<and> contents q'' = contents q @ take cnt buffer
     \<and> held q'' = held q \<and> free q'' + cnt = free q"
proof -
  from reserve_law [OF assms(1,2)] have q': "wf q'" "contents q' = contents q" "held q' = held q + n"
    "free q = free q' + n" by blast+
  have "n \<le> held q'" using q'(3) by simp
  from push_law [OF q'(1) this assms(3,4)] assms(3) q' show ?thesis by auto
qed

end

text \<open>The well-formedness invariant of a queue: what it holds and what is reserved fit its capacity.\<close>

definition lq_inv :: "nat \<Rightarrow> 'a LocalQueue \<Rightarrow> bool" where
  "lq_inv cap lq \<longleftrightarrow> length (queue lq) + reserved_count lq \<le> cap \<and> cap < size_mod"

definition lq_free :: "nat \<Rightarrow> 'a LocalQueue \<Rightarrow> nat" where
  "lq_free cap lq = cap - length (queue lq) - reserved_count lq"

lemma lq_available:
  "lq_inv cap lq \<Longrightarrow> sz_sub (sz_sub cap (length (queue lq))) (reserved_count lq) = lq_free cap lq"
proof -
  assume inv: "lq_inv cap lq"
  then have "sz_sub cap (length (queue lq)) = cap - length (queue lq)"
    by (intro sz_sub_exact) (auto simp: lq_inv_def)
  moreover from inv have "sz_sub (cap - length (queue lq)) (reserved_count lq) = lq_free cap lq"
    unfolding lq_free_def by (intro sz_sub_exact) (auto simp: lq_inv_def)
  ultimately show ?thesis by simp
qed

lemma lq_reserve_spec:
  assumes "lq_inv cap lq" and "lq_reserve cap mn mx lq = (lq', n)"
  shows "lq_inv cap lq' \<and> queue lq' = queue lq \<and> reserved_count lq' = reserved_count lq + n
    \<and> lq_free cap lq = lq_free cap lq' + n
    \<and> n = (if min (lq_free cap lq) mx < mn then 0 else min (lq_free cap lq) mx)"
  using assms
  by (auto simp: lq_reserve_def Let_def lq_available sz_add_exact lq_inv_def lq_free_def split: if_splits)

lemma lq_reserve_upto_spec:
  assumes "lq_inv cap lq" and "lq_reserve_upto cap want lq = (lq', n)"
  shows "lq_inv cap lq' \<and> queue lq' = queue lq \<and> reserved_count lq' = reserved_count lq + n
    \<and> lq_free cap lq = lq_free cap lq' + n \<and> n = min (lq_free cap lq) want"
  using assms
  by (auto simp: lq_reserve_upto_def Let_def lq_available sz_add_exact lq_inv_def lq_free_def split: if_splits)

lemma lq_pop_and_reserve_spec:
  assumes "lq_inv cap lq" and "mx \<le> length buffer"
  shows "\<exists>lq' xs. lq_pop_and_reserve buffer mn mx lq = Inr (lq', xs @ drop (length xs) buffer, length xs)
    \<and> lq_inv cap lq' \<and> queue lq = xs @ queue lq' \<and> reserved_count lq' = reserved_count lq + length xs
    \<and> lq_free cap lq' = lq_free cap lq
    \<and> length xs = (if length (queue lq) < mn then 0 else min mx (length (queue lq)))"
proof (cases "length (queue lq) < mn")
  case True
  with assms show ?thesis by (simp add: lq_pop_and_reserve_def)
next
  case False
  let ?n = "min mx (length (queue lq))"
  let ?lq' = "lq\<lparr>reserved_count := reserved_count lq + ?n, queue := drop ?n (queue lq)\<rparr>"
  from assms(1) have "reserved_count lq + ?n < size_mod" by (auto simp: lq_inv_def)
  then have "lq_pop_and_reserve buffer mn mx lq =
      Inr (?lq', take ?n (queue lq) @ drop ?n buffer, ?n)"
    using False assms(2) by (simp add: lq_pop_and_reserve_def Let_def pop_loop_eq sz_add_exact)
  then show ?thesis
    using False assms(1) by (intro exI [of _ ?lq'] exI [of _ "take ?n (queue lq)"])
      (auto simp: lq_inv_def lq_free_def)
qed

lemma lq_push_and_unreserve_spec:
  assumes "lq_inv cap lq" and "r \<le> reserved_count lq" and "cnt \<le> r" and "cnt \<le> length buffer"
  shows "\<exists>lq'. lq_push_and_unreserve cap buffer cnt r lq = Inr (lq', replicate cnt nullptr @ drop cnt buffer)
    \<and> lq_inv cap lq' \<and> queue lq' = queue lq @ take cnt buffer \<and> reserved_count lq' = reserved_count lq - r
    \<and> lq_free cap lq' = lq_free cap lq + (r - cnt)"
proof -
  from assms have fits: "sz_add (length (queue lq)) cnt \<le> cap"
    by (simp add: lq_inv_def sz_add_exact)
  from assms have "sz_sub (reserved_count lq) r = reserved_count lq - r"
    by (simp add: lq_inv_def sz_sub_exact)
  with fits assms show ?thesis
    by (auto simp: lq_push_and_unreserve_def push_loop_eq lq_inv_def lq_free_def)
qed

lemma lq_unreserve_spec:
  assumes "lq_inv cap lq" and "r \<le> reserved_count lq"
  shows "\<exists>lq'. lq_unreserve r lq = Inr lq' \<and> lq_inv cap lq' \<and> queue lq' = queue lq
    \<and> reserved_count lq' = reserved_count lq - r"
  using assms by (auto simp: lq_unreserve_def lq_inv_def sz_sub_exact)

lemma lq_push_vector_spec:
  assumes "lq_inv cap lq" and "r \<le> reserved_count lq" and "length buffer \<le> r"
  shows "lq_push_vector cap buffer r lq =
      (lq\<lparr>reserved_count := reserved_count lq - r, queue := queue lq @ buffer\<rparr>, [], Ready)"
    and "lq_inv cap (lq\<lparr>reserved_count := reserved_count lq - r, queue := queue lq @ buffer\<rparr>)"
  using assms by (auto simp: lq_push_vector_def Let_def lq_inv_def sz_sub_exact)

interpretation lq: reserving_queue "lq_inv cap" queue reserved_count "lq_free cap"
  "lq_reserve cap" lq_pop_and_reserve "lq_push_and_unreserve cap" for cap
proof unfold_locales
  fix q q' :: "'a ptr LocalQueue" and mn mx n
  assume "lq_inv cap q" and "lq_reserve cap mn mx q = (q', n)"
  then show "lq_inv cap q' \<and> queue q' = queue q \<and> reserved_count q' = reserved_count q + n
      \<and> lq_free cap q = lq_free cap q' + n
      \<and> n = (if min (lq_free cap q) mx < mn then 0 else min (lq_free cap q) mx)"
    by (rule lq_reserve_spec)
next
  fix q :: "'a ptr LocalQueue" and buffer :: "'a ptr list" and mn mx
  assume "lq_inv cap q" and "mx \<le> length buffer"
  then show "\<exists>q' xs. lq_pop_and_reserve buffer mn mx q = Inr (q', xs @ drop (length xs) buffer, length xs)
      \<and> lq_inv cap q' \<and> queue q = xs @ queue q' \<and> reserved_count q' = reserved_count q + length xs
      \<and> lq_free cap q' = lq_free cap q
      \<and> length xs = (if length (queue q) < mn then 0 else min mx (length (queue q)))"
    by (rule lq_pop_and_reserve_spec)
next
  fix q :: "'a ptr LocalQueue" and buffer :: "'a ptr list" and r cnt
  assume "lq_inv cap q" and "r \<le> reserved_count q" and "cnt \<le> r" and "cnt \<le> length buffer"
  then show "\<exists>q'. lq_push_and_unreserve cap buffer cnt r q = Inr (q', replicate cnt nullptr @ drop cnt buffer)
      \<and> lq_inv cap q' \<and> queue q' = queue q @ take cnt buffer \<and> reserved_count q' = reserved_count q - r
      \<and> lq_free cap q' = lq_free cap q + (r - cnt)"
    by (rule lq_push_and_unreserve_spec)
qed

section \<open>Interleaved clients\<close>

text \<open>
  Any number of workers share one queue.  Each holds reservations it was granted; the multiset
  \<open>held\<close> collects all grants that are still outstanding.  A step is one method call by some
  worker, and a worker that pushes under a reservation hands exactly that reservation back and
  pushes at most that many items, as the comment on \<open>reserve\<close> demands.
\<close>

record 'a shared_queue =
  sq_queue :: "'a ptr LocalQueue"
  sq_held :: "nat multiset"

inductive mb_step :: "nat \<Rightarrow> 'a shared_queue \<Rightarrow> 'a shared_queue \<Rightarrow> bool" for cap where
  step_reserve: "lq_reserve cap mn mx (sq_queue s) = (lq', n) \<Longrightarrow>
     mb_step cap s \<lparr>sq_queue = lq', sq_held = add_mset n (sq_held s)\<rparr>"
| step_reserve_upto: "lq_reserve_upto cap want (sq_queue s) = (lq', n) \<Longrightarrow>
     mb_step cap s \<lparr>sq_queue = lq', sq_held = add_mset n (sq_held s)\<rparr>"
| step_pop_and_reserve: "lq_pop_and_reserve buffer mn mx (sq_queue s) = Inr (lq', buffer', n) \<Longrightarrow>
     mb_step cap s \<lparr>sq_queue = lq', sq_held = add_mset n (sq_held s)\<rparr>"
| step_push: "r \<in># sq_held s \<Longrightarrow> cnt \<le> r \<Longrightarrow>
     lq_push_and_unreserve cap buffer cnt r (sq_queue s) = Inr (lq', buffer') \<Longrightarrow>
     mb_step cap s \<lparr>sq_queue = lq', sq_held = sq_held s - {#r#}\<rparr>"
| step_push_vector: "r \<in># sq_held s \<Longrightarrow> length buffer \<le> r \<Longrightarrow>
     lq_push_vector cap buffer r (sq_queue s) = (lq', buffer', st) \<Longrightarrow>
     mb_step cap s \<lparr>sq_queue = lq', sq_held = sq_held s - {#r#}\<rparr>"
| step_unreserve: "r \<in># sq_held s \<Longrightarrow> lq_unreserve r (sq_queue s) = Inr lq' \<Longrightarrow>
     mb_step cap s \<lparr>sq_queue = lq', sq_held = sq_held s - {#r#}\<rparr>"
| step_pop: "lq_pop buffer mn mx (sq_queue s) = Inr (lq', buffer', n) \<Longrightarrow>
     mb_step cap s (s\<lparr>sq_queue := lq'\<rparr>)"
| step_pop_vector: "lq_pop_vector cap ok buffer want (sq_queue s) = (lq', buffer', st) \<Longrightarrow>
     mb_step cap s (s\<lparr>sq_queue := lq'\<rparr>)"
| step_pop_one: "lq_pop_one ok (sq_queue s) = (lq', item, st) \<Longrightarrow>
     mb_step cap s (s\<lparr>sq_queue := lq'\<rparr>)"

inductive mb_reachable :: "nat \<Rightarrow> 'a shared_queue \<Rightarrow> bool" for cap where
  mb_start: "mb_reachable cap \<lparr>sq_queue = new_LocalQueue, sq_held = {#}\<rparr>"
| mb_next: "mb_reachable cap s \<Longrightarrow> mb_step cap s t \<Longrightarrow> mb_reachable cap t"

definition sq_inv :: "nat \<Rightarrow> 'a shared_queue \<Rightarrow> bool" where
  "sq_inv cap s \<longleftrightarrow> lq_inv cap (sq_queue s) \<and> reserved_count (sq_queue s) = \<Sum>\<^sub># (sq_held s)"

lemma held_le_reserved: "sq_inv cap s \<Longrightarrow> r \<in># sq_held s \<Longrightarrow> r \<le> reserved_count (sq_queue s)"
  by (auto simp: sq_inv_def sum_mset.remove)

lemma held_remove:
  "sq_inv cap s \<Longrightarrow> r \<in># sq_held s \<Longrightarrow> \<Sum>\<^sub># (sq_held s - {#r#}) = reserved_count (sq_queue s) - r"
  by (auto simp: sq_inv_def sum_mset.remove)

lemma lq_pop_frame:
  assumes "lq_pop buffer mn mx lq = Inr (lq', buffer', n)" and "lq_inv cap lq"
  shows "lq_inv cap lq' \<and> reserved_count lq' = reserved_count lq"
  using assms by (auto simp: lq_pop_def Let_def rbind_Inr_iff lq_inv_def dest!: pop_loop_Inr split: if_splits)

lemma lq_pop_vector_frame:
  assumes "lq_pop_vector cap ok buffer want lq = (lq', buffer', st)" and "lq_inv cap lq"
  shows "lq_inv cap lq' \<and> reserved_count lq' = reserved_count lq"
  using assms by (auto simp: lq_pop_vector_def Let_def lq_inv_def split: if_splits)

lemma lq_pop_one_frame:
  assumes "lq_pop_one ok lq = (lq', item, st)" and "lq_inv cap lq"
  shows "lq_inv cap lq' \<and> reserved_count lq' = reserved_count lq"
  using assms by (auto simp: lq_pop_one_def lq_inv_def split: if_splits list.splits)

lemma lq_pop_and_reserve_frame:
  assumes "lq_pop_and_reserve buffer mn mx lq = Inr (lq', buffer', n)" and "lq_inv cap lq"
  shows "lq_inv cap lq' \<and> reserved_count lq' = reserved_count lq + n"
proof -
  have "sz_add (reserved_count lq) k = reserved_count lq + k" if "k \<le> length (queue lq)" for k
    using assms(2) that by (auto simp: lq_inv_def sz_add_exact)
  with assms show ?thesis
    by (auto simp: lq_pop_and_reserve_def Let_def rbind_Inr_iff lq_inv_def
        dest!: pop_loop_Inr split: if_splits)
qed

lemma sq_inv_step:
  assumes "mb_step cap s t" and inv: "sq_inv cap s"
  shows "sq_inv cap t"
  using assms(1)
proof cases
  case (step_push r cnt buffer lq' buffer')
  from push_loop_overrun [of buffer cnt 0] step_push have "cnt \<le> length buffer"
    by (auto simp: lq_push_and_unreserve_def split: if_splits intro: leI)
  with lq_push_and_unreserve_spec [of cap "sq_queue s" r cnt buffer] step_push inv show ?thesis
    using held_le_reserved [OF inv, of r] held_remove [OF inv, of r] by (auto simp: sq_inv_def)
next
  case (step_push_vector r buffer lq' buffer' st)
  with lq_push_vector_spec [of cap "sq_queue s" r buffer] inv show ?thesis
    using held_le_reserved [OF inv, of r] held_remove [OF inv, of r] by (auto simp: sq_inv_def)
next
  case (step_unreserve r lq')
  with lq_unreserve_spec [of cap "sq_queue s" r] inv show ?thesis
    using held_le_reserved [OF inv, of r] held_remove [OF inv, of r] by (auto simp: sq_inv_def)
qed (use inv in \<open>auto simp: sq_inv_def dest: lq_reserve_spec lq_reserve_upto_spec
       lq_pop_and_reserve_frame lq_pop_frame lq_pop_vector_frame lq_pop_one_frame\<close>)

lemma mb_reachable_inv: "mb_reachable cap s \<Longrightarrow> cap < size_mod \<Longrightarrow> sq_inv cap s"
proof (induction rule: mb_reachable.induct)
  case mb_start
  then show ?case by (simp add: sq_inv_def lq_inv_def new_LocalQueue_def)
next
  case (mb_next s t)
  then show ?case by (blast intro: sq_inv_step)
qed

section \<open>Properties of the mailbox\<close>

definition mb_sample :: "nat shared_queue" where
  "mb_sample = \<lparr>sq_queue = \<lparr>queue = [], reserved_count = 2\<rparr>, sq_held = {#2#}\<rparr>"

lemma mb_sample_reachable: "mb_reachable 3 mb_sample"
proof -
  have "lq_reserve 3 1 2 (sq_queue \<lparr>sq_queue = new_LocalQueue, sq_held = {#}\<rparr>)
      = (\<lparr>queue = [], reserved_count = 2\<rparr> :: nat ptr LocalQueue, 2)"
    by (simp add: lq_reserve_def new_LocalQueue_def sz_sub_def sz_add_def size_mod_def)
  from mb_next [OF mb_start step_reserve [OF this]] show ?thesis
    by (simp add: mb_sample_def)
qed

text \<open>
  C1: however the reservations, pushes and pops of the clients of one queue interleave, the items
  in the queue and the outstanding reservations together never exceed the capacity, and the counter
  \<open>reserved_count\<close> is the sum of the reservations that are still held.
\<close>

theorem mailbox_bounded:
  assumes "mb_reachable cap s" and "cap < size_mod"
  shows "length (queue (sq_queue s)) + \<Sum>\<^sub># (sq_held s) \<le> cap
    \<and> reserved_count (sq_queue s) = \<Sum>\<^sub># (sq_held s)"
  using mb_reachable_inv [OF assms] by (simp add: sq_inv_def lq_inv_def)

theorem mailbox_bounded_witness:
  "length (queue (sq_queue mb_sample)) + \<Sum>\<^sub># (sq_held mb_sample) \<le> 3
    \<and> reserved_count (sq_queue mb_sample) = \<Sum>\<^sub># (sq_held mb_sample)"
  by (rule mailbox_bounded [OF mb_sample_reachable]) (simp add: size_mod_def)

text \<open>
  C2: a worker that holds a reservation can always redeem it: \<open>push_and_unreserve\<close> with at most the
  reserved number of items trips neither assertion, appends exactly those items in order, nulls
  the slots of the caller's buffer and gives the reservation back.
\<close>

theorem mailbox_push_granted:
  assumes "mb_reachable cap s" and "cap < size_mod"
    and "r \<in># sq_held s" and "cnt \<le> r" and "cnt \<le> length buffer"
  shows "\<exists>lq'. lq_push_and_unreserve cap buffer cnt r (sq_queue s)
        = Inr (lq', replicate cnt nullptr @ drop cnt buffer)
    \<and> queue lq' = queue (sq_queue s) @ take cnt buffer
    \<and> reserved_count lq' = \<Sum>\<^sub># (sq_held s - {#r#})"
proof -
  from assms have inv: "sq_inv cap s" by (blast intro: mb_reachable_inv)
  then have "lq_inv cap (sq_queue s)" by (simp add: sq_inv_def)
  from lq_push_and_unreserve_spec [OF this held_le_reserved [OF inv assms(3)] assms(4,5)]
    held_remove [OF inv assms(3)] show ?thesis by auto
qed

theorem mailbox_push_granted_witness:
  "\<exists>lq'. lq_push_and_unreserve 3 [Some 7, Some 8] 2 2 (sq_queue mb_sample)
        = Inr (lq', replicate 2 nullptr @ drop 2 [Some 7, Some 8])
    \<and> queue lq' = queue (sq_queue mb_sample) @ take 2 [Some 7, Some 8]
    \<and> reserved_count lq' = \<Sum>\<^sub># (sq_held mb_sample - {#2#})"
  by (rule mailbox_push_granted [OF mb_sample_reachable]) (simp_all add: size_mod_def mb_sample_def)

text \<open>
  C3: a queue is first-in first-out over any sequence of method calls that returns: what was in the
  queue followed by everything pushed is everything popped followed by what is left.
\<close>

theorem mailbox_fifo:
  assumes "run_ops cap ops lq = Inr (lq', ins, outs)"
  shows "queue lq @ ins = outs @ queue lq'"
  using assms by (rule run_ops_fifo)

theorem mailbox_fifo_witness:
  "queue (new_LocalQueue :: nat ptr LocalQueue) @ [Some 5, Some 6]
     = [Some 5] @ queue \<lparr>queue = [Some 6], reserved_count = 1\<rparr>"
proof (rule mailbox_fifo)
  have step: "pop_loop 0 (Suc 0) [nullptr] [Some 5, Some 6]
      = Inr ([Some 5], [Some (6::nat)])"
    by (simp add: pop_loop.simps)
  show "run_ops 4 [OpReserve 2 2, OpPushVector [Some 5, Some 6] 2, OpPopAndReserve [nullptr] 1 1]
      (new_LocalQueue :: nat ptr LocalQueue)
    = Inr (\<lparr>queue = [Some 6], reserved_count = 1\<rparr>, [Some 5, Some 6], [Some 5])"
    by (simp add: new_LocalQueue_def lq_reserve_def lq_push_vector_def lq_pop_and_reserve_def
        sz_add_def sz_sub_def size_mod_def step)
qed

text \<open>
  The capacity test of \<open>reserve\<close> is computed in unsigned arithmetic.  On a queue that is
  already over its threshold (which \<open>set_threshold\<close> and the unchecked vector \<open>push\<close> both allow)
  the subtraction wraps and the whole request is granted instead of none of it.
\<close>

theorem mailbox_reserve_overfull:
  assumes "cap < length (queue lq) + reserved_count lq"
    and "length (queue lq) + reserved_count lq < size_mod"
    and "mn \<le> mx" and "mx + (length (queue lq) + reserved_count lq - cap) \<le> size_mod"
  shows "snd (lq_reserve cap mn mx lq) = mx"
proof -
  have "sz_sub (sz_sub cap (length (queue lq))) (reserved_count lq)
      = size_mod - (length (queue lq) + reserved_count lq - cap)"
    using assms(1,2) by (rule sz_sub_sub_wraps)
  moreover from assms(4) have "mx \<le> size_mod - (length (queue lq) + reserved_count lq - cap)"
    by simp
  ultimately show ?thesis using assms(3) by (simp add: lq_reserve_def Let_def min_absorb2)
qed

theorem mailbox_reserve_overfull_witness:
  "snd (lq_reserve 1 1 4 (\<lparr>queue = [7, 8], reserved_count = 0\<rparr> :: nat LocalQueue)) = 4"
  by (rule mailbox_reserve_overfull) (simp_all add: size_mod_def)

text \<open>
  C40: \<open>try_push\<close> looks at the items in the queue but not at the reservations, so it can take space
  another worker has reserved: the worker's own \<open>push_and_unreserve\<close> then fails its assertion.
\<close>

theorem mailbox_try_push_steals:
  assumes "lq_inv cap lq" and "r \<le> reserved_count lq" and "cap + r < size_mod"
    and "cnt \<le> length buffer" and "length (queue lq) + cnt \<le> cap"
    and "cap < length (queue lq) + cnt + r"
  shows "\<exists>lq' buffer'. lq_try_push cap buffer cnt lq = Inr (lq', buffer', True)
    \<and> lq_push_and_unreserve cap held_items r r lq'
        = Inl (AssertFailed ''mb.queue.size() + count <= m_capacity'')"
proof -
  from assms have "sz_add (length (queue lq)) cnt = length (queue lq) + cnt"
    "sz_add (length (queue lq) + cnt) r = length (queue lq) + cnt + r"
    by (simp_all add: sz_add_exact)
  with assms show ?thesis
    by (simp add: lq_try_push_def lq_push_and_unreserve_def push_loop_eq min_absorb2)
qed

theorem mailbox_try_push_steals_witness:
  "\<exists>lq' buffer'. lq_try_push 3 [Some 1, Some 2] 2 (sq_queue mb_sample) = Inr (lq', buffer', True)
    \<and> lq_push_and_unreserve 3 [Some 7, Some 8] 2 2 lq'
        = Inl (AssertFailed ''mb.queue.size() + count <= m_capacity'')"
  by (rule mailbox_try_push_steals) (simp_all add: lq_inv_def mb_sample_def size_mod_def)

end
