(* ===== verification/Pool.thy ===== *)
theory Pool
  imports Prelude
begin

text \<open>
  The item pool of \<open>Topology/JPool.h\<close>.  Every location owns an array of \<open>m_pool_size\<close> items and a
  stack of pointers to those that are free; a pool that does not limit the events in flight falls
  back to the heap.  An item is its address: the array of location \<open>j\<close> occupies \<open>m_pool_size\<close>
  consecutive addresses from \<open>items_base\<close>, and \<open>put\<close> recognises where an item came from by comparing
  addresses, as the code does.

  The virtual hooks \<open>configure_item\<close> and \<open>release_item\<close> are recorded in \<open>hook_calls\<close> in call order.
  The addresses returned by the C++ allocator are parameters: \<open>arrays j\<close> for the array of location
  \<open>j\<close>, \<open>malloc live\<close> for \<open>new T\<close> when \<open>live\<close> are the heap items not yet deleted.
\<close>

section \<open>State\<close>

type_synonym addr = nat

datatype pool_hook = ConfigureItem addr | ReleaseItem addr

record LocalPool =
  available_items :: "addr list"
  items_base :: addr

record JPool =
  m_pool_size :: nat
  m_location_count :: nat
  m_limit_total_events_in_flight :: bool
  m_pools :: "LocalPool list option"
  heap_items :: "addr list"
  hook_calls :: "pool_hook list"

definition new_JPool :: "nat \<Rightarrow> nat \<Rightarrow> bool \<Rightarrow> JPool result" where
  "new_JPool pool_size location_count limit_total_events_in_flight =
     (if \<not> 1 \<le> location_count then Inl (AssertFailed ''m_location_count >= 1'')
      else if \<not> (0 < pool_size \<or> \<not> limit_total_events_in_flight)
      then Inl (AssertFailed ''m_pool_size > 0 || !m_limit_total_events_in_flight'')
      else Inr \<lparr>m_pool_size = pool_size, m_location_count = location_count,
                m_limit_total_events_in_flight = limit_total_events_in_flight,
                m_pools = None, heap_items = [], hook_calls = []\<rparr>)"

section \<open>Operations\<close>

fun init_items :: "addr list \<Rightarrow> LocalPool \<Rightarrow> pool_hook list \<Rightarrow> LocalPool \<times> pool_hook list" where
  "init_items [] p hooks = (p, hooks)"
| "init_items (item # items) p hooks =
     init_items items (p\<lparr>available_items := available_items p @ [item]\<rparr>) (hooks @ [ConfigureItem item])"

fun init_pools ::
    "(nat \<Rightarrow> addr) \<Rightarrow> nat \<Rightarrow> nat list \<Rightarrow> LocalPool list \<Rightarrow> pool_hook list \<Rightarrow> LocalPool list \<times> pool_hook list" where
  "init_pools arrays n [] ps hooks = (ps, hooks)"
| "init_pools arrays n (j # js) ps hooks =
     (case init_items [arrays j ..< arrays j + n] \<lparr>available_items = [], items_base = arrays j\<rparr> hooks of
        (p, hooks') \<Rightarrow> init_pools arrays n js (ps @ [p]) hooks')"

definition JPool_init :: "(nat \<Rightarrow> addr) \<Rightarrow> JPool \<Rightarrow> JPool" where
  "JPool_init arrays pool =
     (case init_pools arrays (m_pool_size pool) [0 ..< m_location_count pool] [] (hook_calls pool) of
        (ps, hooks) \<Rightarrow> pool\<lparr>m_pools := Some ps, hook_calls := hooks\<rparr>)"

definition with_pools :: "JPool \<Rightarrow> (LocalPool list \<Rightarrow> 'r result) \<Rightarrow> 'r result" where
  "with_pools pool f =
     (case m_pools pool of None \<Rightarrow> Inl (AssertFailed ''m_pools != nullptr'') | Some ps \<Rightarrow> f ps)"

definition set_available :: "nat \<Rightarrow> addr list \<Rightarrow> LocalPool list \<Rightarrow> JPool \<Rightarrow> JPool" where
  "set_available l items ps pool =
     pool\<lparr>m_pools := Some (ps[l := (ps ! l)\<lparr>available_items := items\<rparr>])\<rparr>"

definition new_item :: "(addr list \<Rightarrow> addr) \<Rightarrow> JPool \<Rightarrow> JPool \<times> addr" where
  "new_item malloc pool =
     (let t = malloc (heap_items pool) in
      (pool\<lparr>heap_items := t # heap_items pool, hook_calls := hook_calls pool @ [ConfigureItem t]\<rparr>, t))"

definition JPool_get :: "(addr list \<Rightarrow> addr) \<Rightarrow> nat \<Rightarrow> JPool \<Rightarrow> (JPool \<times> addr ptr) result" where
  "JPool_get malloc location pool =
     with_pools pool (\<lambda>ps.
       let l = location mod m_location_count pool; available = available_items (ps ! l) in
       if available = [] then
         (if m_limit_total_events_in_flight pool then Inr (pool, nullptr)
          else case new_item malloc pool of (pool', t) \<Rightarrow> Inr (pool', Some t))
       else Inr (set_available l (butlast available) ps pool, Some (last available)))"

text \<open>
  The scan of \<open>put\<close>: \<open>k\<close> locations remain to be considered from \<open>l\<close> on.  With an empty array
  \<open>&(pool.items[0])\<close> is an access out of range.
\<close>

definition came_from :: "nat \<Rightarrow> LocalPool \<Rightarrow> addr \<Rightarrow> bool" where
  "came_from n p item \<longleftrightarrow> items_base p \<le> item \<and> item \<le> items_base p + n - 1"

fun put_scan :: "nat \<Rightarrow> nat \<Rightarrow> addr \<Rightarrow> LocalPool list \<Rightarrow> JPool \<Rightarrow> JPool result" where
  "put_scan 0 l item ps pool =
     (if item \<in> set (heap_items pool)
      then Inr (pool\<lparr>heap_items := remove1 item (heap_items pool)\<rparr>)
      else Inl (UndefinedBehaviour ''delete of an address that new did not return''))"
| "put_scan (Suc k) l item ps pool =
     (let j = l mod m_location_count pool; p = ps ! j in
      if m_pool_size pool = 0 then Inl (UndefinedBehaviour ''pool.items[0]'')
      else if came_from (m_pool_size pool) p item
      then Inr (set_available j (available_items p @ [item]) ps pool)
      else put_scan k (Suc l) item ps pool)"

definition JPool_put :: "addr \<Rightarrow> nat \<Rightarrow> JPool \<Rightarrow> JPool result" where
  "JPool_put item location pool =
     with_pools pool (\<lambda>ps.
       put_scan (m_location_count pool) location item ps
         (pool\<lparr>hook_calls := hook_calls pool @ [ReleaseItem item]\<rparr>))"

definition JPool_size :: "JPool \<Rightarrow> nat" where
  "JPool_size pool = m_pool_size pool"

text \<open>The two loops of \<open>get_many\<close>: drain the stack, then allocate.\<close>

fun get_many_available :: "nat \<Rightarrow> addr list \<Rightarrow> addr list \<Rightarrow> addr list \<times> addr list \<times> nat" where
  "get_many_available 0 dest available = (dest, available, 0)"
| "get_many_available (Suc cnt) dest available =
     (if available = [] then (dest, available, Suc cnt)
      else get_many_available cnt (dest @ [last available]) (butlast available))"

fun get_many_new :: "(addr list \<Rightarrow> addr) \<Rightarrow> nat \<Rightarrow> addr list \<Rightarrow> JPool \<Rightarrow> addr list \<times> JPool" where
  "get_many_new malloc 0 dest pool = (dest, pool)"
| "get_many_new malloc (Suc cnt) dest pool =
     (case new_item malloc pool of (pool', t) \<Rightarrow> get_many_new malloc cnt (dest @ [t]) pool')"

definition JPool_get_many ::
    "(addr list \<Rightarrow> addr) \<Rightarrow> addr list \<Rightarrow> nat \<Rightarrow> nat \<Rightarrow> JPool \<Rightarrow> (JPool \<times> addr list \<times> bool) result" where
  "JPool_get_many malloc dest cnt location pool =
     with_pools pool (\<lambda>ps.
       let l = location mod m_location_count pool; available = available_items (ps ! l) in
       if m_limit_total_events_in_flight pool \<and> length available < cnt then Inr (pool, dest, False)
       else case get_many_available cnt dest available of (dest', available', cnt') \<Rightarrow>
            case get_many_new malloc cnt' dest' (set_available l available' ps pool) of
              (dest'', pool') \<Rightarrow> Inr (pool', dest'', True))"

fun JPool_put_many :: "addr list \<Rightarrow> nat \<Rightarrow> JPool \<Rightarrow> JPool result" where
  "JPool_put_many [] location pool = Inr pool"
| "JPool_put_many (item # items) location pool =
     rbind (JPool_put item location pool) (JPool_put_many items location)"

text \<open>The loops of \<open>pop\<close>, which write to \<open>dest[i]\<close>; \<open>k\<close> counts the remaining iterations.\<close>

fun pop_available :: "nat \<Rightarrow> nat \<Rightarrow> addr ptr list \<Rightarrow> addr list \<Rightarrow> (addr ptr list \<times> addr list) result" where
  "pop_available 0 i dest available = Inr (dest, available)"
| "pop_available (Suc k) i dest available =
     (if available = [] then Inl (UndefinedBehaviour ''back of an empty vector'')
      else if \<not> i < length dest then Inl (UndefinedBehaviour ''dest index'')
      else pop_available k (Suc i) (dest[i := Some (last available)]) (butlast available))"

fun pop_new :: "(addr list \<Rightarrow> addr) \<Rightarrow> nat \<Rightarrow> nat \<Rightarrow> addr ptr list \<Rightarrow> JPool \<Rightarrow> (addr ptr list \<times> JPool) result" where
  "pop_new malloc 0 i dest pool = Inr (dest, pool)"
| "pop_new malloc (Suc k) i dest pool =
     (if \<not> i < length dest then Inl (UndefinedBehaviour ''dest index'')
      else case new_item malloc pool of (pool', t) \<Rightarrow> pop_new malloc k (Suc i) (dest[i := Some t]) pool')"

definition JPool_pop ::
    "(addr list \<Rightarrow> addr) \<Rightarrow> addr ptr list \<Rightarrow> nat \<Rightarrow> nat \<Rightarrow> nat \<Rightarrow> JPool \<Rightarrow> (JPool \<times> addr ptr list \<times> nat) result" where
  "JPool_pop malloc dest min_count max_count location pool =
     with_pools pool (\<lambda>ps.
       let l = location mod m_location_count pool;
           available = available_items (ps ! l);
           cnt = min (length available) max_count in
       if m_limit_total_events_in_flight pool \<and> length available < min_count then Inr (pool, dest, 0)
       else if m_limit_total_events_in_flight pool then
         rbind (pop_available cnt 0 dest available) (\<lambda>(dest', available').
           Inr (set_available l available' ps pool, dest', cnt))
       else
         rbind (pop_available cnt 0 dest available) (\<lambda>(dest', available').
         rbind (pop_new malloc (min_count - cnt) cnt dest' (set_available l available' ps pool))
           (\<lambda>(dest'', pool'). Inr (pool', dest'', max cnt min_count))))"

fun push_items :: "nat \<Rightarrow> nat \<Rightarrow> addr ptr list \<Rightarrow> nat \<Rightarrow> JPool \<Rightarrow> (JPool \<times> addr ptr list) result" where
  "push_items 0 i source location pool = Inr (pool, source)"
| "push_items (Suc k) i source location pool =
     (if \<not> i < length source then Inl (UndefinedBehaviour ''source index'')
      else case source ! i of
             None \<Rightarrow> Inl (UndefinedBehaviour ''release_item(nullptr)'')
           | Some item \<Rightarrow>
               rbind (JPool_put item location pool)
                 (\<lambda>pool'. push_items k (Suc i) (source[i := nullptr]) location pool'))"

definition JPool_push :: "addr ptr list \<Rightarrow> nat \<Rightarrow> nat \<Rightarrow> JPool \<Rightarrow> (JPool \<times> addr ptr list) result" where
  "JPool_push source cnt location pool = push_items cnt 0 source location pool"

section \<open>Who owns an item\<close>

text \<open>
  \<open>pool_ok n ps heap out\<close>: the arrays of the locations are disjoint, and every item of the array of
  location \<open>j\<close> is either on the free stack of location \<open>j\<close> or held by a client, once; the clients
  hold exactly the heap items besides.  \<open>out\<close> is the multiset of the items held by clients.
\<close>

definition pool_ok :: "nat \<Rightarrow> LocalPool list \<Rightarrow> addr list \<Rightarrow> addr multiset \<Rightarrow> bool" where
  "pool_ok n ps heap out \<longleftrightarrow>
     0 < n \<and> distinct heap
     \<and> (\<forall>i<length ps. \<forall>j<length ps. \<forall>a. came_from n (ps ! i) a \<longrightarrow> came_from n (ps ! j) a \<longrightarrow> i = j)
     \<and> (\<forall>j<length ps. mset (available_items (ps ! j)) + filter_mset (came_from n (ps ! j)) out
           = mset [items_base (ps ! j) ..< items_base (ps ! j) + n])
     \<and> filter_mset (\<lambda>a. \<forall>j<length ps. \<not> came_from n (ps ! j) a) out = mset heap"

lemma came_from_upd [simp]:
  "came_from n (ps[l := (ps ! l)\<lparr>available_items := xs\<rparr>] ! j) = came_from n (ps ! j)"
  by (cases "l < length ps"; cases "j = l") (auto simp: came_from_def fun_eq_iff list_update_beyond)

lemma items_base_upd [simp]:
  "items_base (ps[l := (ps ! l)\<lparr>available_items := xs\<rparr>] ! j) = items_base (ps ! j)"
  by (cases "l < length ps"; cases "j = l") (auto simp: list_update_beyond)

lemma pool_ok_change:
  assumes ok: "pool_ok n ps heap out" and "length ps' = length ps"
    and base: "\<And>j. items_base (ps' ! j) = items_base (ps ! j)"
    and arrays: "\<And>j. j < length ps \<Longrightarrow>
      mset (available_items (ps' ! j)) + filter_mset (came_from n (ps ! j)) out'
      = mset (available_items (ps ! j)) + filter_mset (came_from n (ps ! j)) out"
    and heap: "distinct heap'"
      "filter_mset (\<lambda>a. \<forall>j<length ps. \<not> came_from n (ps ! j) a) out' = mset heap'"
  shows "pool_ok n ps' heap' out'"
proof -
  have cf: "came_from n (ps' ! j) = came_from n (ps ! j)" for j
    by (simp add: came_from_def base fun_eq_iff)
  show ?thesis
    unfolding pool_ok_def cf base assms(2)
  proof (intro conjI)
    show "\<forall>j<length ps. mset (available_items (ps' ! j)) + filter_mset (came_from n (ps ! j)) out'
        = mset [items_base (ps ! j) ..< items_base (ps ! j) + n]"
    proof (intro allI impI)
      fix j assume j: "j < length ps"
      from ok j have "mset (available_items (ps ! j)) + filter_mset (came_from n (ps ! j)) out
        = mset [items_base (ps ! j) ..< items_base (ps ! j) + n]" unfolding pool_ok_def by blast
      with arrays [OF j] show "mset (available_items (ps' ! j)) + filter_mset (came_from n (ps ! j)) out'
        = mset [items_base (ps ! j) ..< items_base (ps ! j) + n]" by (rule trans)
    qed
  qed (use ok heap in \<open>unfold pool_ok_def, blast+\<close>)
qed

lemma pool_ok_heap:
  assumes "pool_ok n ps heap out"
  shows "distinct heap" and "filter_mset (\<lambda>a. \<forall>j<length ps. \<not> came_from n (ps ! j) a) out = mset heap"
  using assms unfolding pool_ok_def by blast+

lemma filter_none: "(\<And>a. a \<in># M \<Longrightarrow> \<not> P a) \<Longrightarrow> filter_mset P M = {#}"
  by (induction M) auto

lemma pool_ok_disjoint:
  "pool_ok n ps heap out \<Longrightarrow> i < length ps \<Longrightarrow> j < length ps \<Longrightarrow>
     came_from n (ps ! i) a \<Longrightarrow> came_from n (ps ! j) a \<Longrightarrow> i = j"
  unfolding pool_ok_def by blast

lemma pool_ok_available:
  assumes "pool_ok n ps heap out" and "j < length ps" and "a \<in> set (available_items (ps ! j))"
  shows "came_from n (ps ! j) a"
proof -
  have "mset (available_items (ps ! j)) + filter_mset (came_from n (ps ! j)) out
      = mset [items_base (ps ! j) ..< items_base (ps ! j) + n]"
    using assms(1,2) unfolding pool_ok_def by blast
  from arg_cong [OF this, of set_mset] assms(3)
  have "a \<in> set [items_base (ps ! j) ..< items_base (ps ! j) + n]" by auto
  then show ?thesis by (auto simp: came_from_def)
qed

lemma pool_ok_only:
  assumes "pool_ok n ps heap out" and "j < length ps" and "\<forall>a\<in>set xs. came_from n (ps ! j) a"
    and "i < length ps" and "i \<noteq> j"
  shows "filter_mset (came_from n (ps ! i)) (mset xs) = {#}"
  using pool_ok_disjoint [OF assms(1) assms(4,2)] assms(3,5) by (auto intro!: filter_none)

lemma filter_all: "\<forall>a\<in>set xs. P a \<Longrightarrow> filter_mset P (mset xs) = mset xs"
  by (simp add: filter_mset_eq_conv)

lemma pool_ok_take:
  assumes ok: "pool_ok n ps heap out" and j: "j < length ps" and av: "available_items (ps ! j) = xs @ ys"
  shows "pool_ok n (ps[j := (ps ! j)\<lparr>available_items := xs\<rparr>]) heap (out + mset ys)"
proof (rule pool_ok_change [OF ok])
  have from_j: "\<forall>a\<in>set ys. came_from n (ps ! j) a"
    using pool_ok_available [OF ok j] av by auto
  show "mset (available_items (ps[j := (ps ! j)\<lparr>available_items := xs\<rparr>] ! i))
        + filter_mset (came_from n (ps ! i)) (out + mset ys)
      = mset (available_items (ps ! i)) + filter_mset (came_from n (ps ! i)) out"
    if "i < length ps" for i
  proof (cases "i = j")
    case True
    with j av filter_all [OF from_j] show ?thesis by (simp add: ac_simps)
  next
    case False
    with pool_ok_only [OF ok j from_j that] show ?thesis by simp
  qed
  have "filter_mset (\<lambda>a. \<forall>i<length ps. \<not> came_from n (ps ! i) a) (mset ys) = {#}"
    using from_j j by (intro filter_none) auto
  then show "filter_mset (\<lambda>a. \<forall>i<length ps. \<not> came_from n (ps ! i) a) (out + mset ys) = mset heap"
    using pool_ok_heap [OF ok] by simp
qed (simp_all add: pool_ok_heap [OF ok])

lemma pool_ok_return:
  assumes ok: "pool_ok n ps heap out" and j: "j < length ps" and a: "a \<in># out"
    and from_j: "came_from n (ps ! j) a"
  shows "pool_ok n (ps[j := (ps ! j)\<lparr>available_items := available_items (ps ! j) @ [a]\<rparr>]) heap (out - {#a#})"
proof -
  from a obtain out' where out: "out = add_mset a out'" by (metis insert_DiffM)
  show ?thesis
  proof (rule pool_ok_change [OF ok])
    show "mset (available_items (ps[j := (ps ! j)\<lparr>available_items := available_items (ps ! j) @ [a]\<rparr>] ! i))
          + filter_mset (came_from n (ps ! i)) (out - {#a#})
        = mset (available_items (ps ! i)) + filter_mset (came_from n (ps ! i)) out"
      if "i < length ps" for i
    proof (cases "i = j")
      case True
      with j from_j out show ?thesis by simp
    next
      case False
      with pool_ok_disjoint [OF ok that j, of a] from_j have "\<not> came_from n (ps ! i) a" by blast
      with False out show ?thesis by simp
    qed
    have "filter_mset (\<lambda>b. \<forall>i<length ps. \<not> came_from n (ps ! i) b) out'
        = filter_mset (\<lambda>b. \<forall>i<length ps. \<not> came_from n (ps ! i) b) out"
      using j from_j out by auto
    then show "filter_mset (\<lambda>b. \<forall>i<length ps. \<not> came_from n (ps ! i) b) (out - {#a#}) = mset heap"
      using pool_ok_heap [OF ok] out by simp
  qed (simp_all add: pool_ok_heap [OF ok])
qed

lemma pool_ok_new:
  assumes ok: "pool_ok n ps heap out" and "a \<notin> set heap" and "\<forall>j<length ps. \<not> came_from n (ps ! j) a"
  shows "pool_ok n ps (a # heap) (add_mset a out)"
  by (rule pool_ok_change [OF ok]) (use assms(2,3) pool_ok_heap [OF ok] in simp_all)

lemma pool_ok_delete:
  assumes ok: "pool_ok n ps heap out" and "a \<in># out" and none: "\<forall>j<length ps. \<not> came_from n (ps ! j) a"
  shows "a \<in> set heap" and "pool_ok n ps (remove1 a heap) (out - {#a#})"
proof -
  from assms(2) obtain out' where out: "out = add_mset a out'" by (metis insert_DiffM)
  have heap: "mset heap
      = add_mset a (filter_mset (\<lambda>a. \<forall>j<length ps. \<not> came_from n (ps ! j) a) out')"
    using none out pool_ok_heap(2) [OF ok] by simp
  then have "a \<in># mset heap" by simp
  then show "a \<in> set heap" by simp
  show "pool_ok n ps (remove1 a heap) (out - {#a#})"
    by (rule pool_ok_change [OF ok]) (use none out heap pool_ok_heap(1) [OF ok] in simp_all)
qed

lemma count_distinct: "distinct xs \<Longrightarrow> Multiset.count (mset xs) a \<le> 1"
  by (induction xs) (auto simp: count_eq_zero_iff [THEN iffD2])

lemma pool_ok_distinct:
  assumes "pool_ok n ps heap out"
  shows "Multiset.count out a \<le> 1"
proof (cases "\<exists>j<length ps. came_from n (ps ! j) a")
  case True
  then obtain j where j: "j < length ps" "came_from n (ps ! j) a" by blast
  have "Multiset.count out a = Multiset.count (filter_mset (came_from n (ps ! j)) out) a"
    using j by simp
  also have "\<dots> \<le> Multiset.count (mset [items_base (ps ! j) ..< items_base (ps ! j) + n]) a"
  proof -
    have "mset (available_items (ps ! j)) + filter_mset (came_from n (ps ! j)) out
        = mset [items_base (ps ! j) ..< items_base (ps ! j) + n]"
      using assms j unfolding pool_ok_def by blast
    from this [symmetric] show ?thesis by (simp only: count_union)
  qed
  also have "\<dots> \<le> 1" by (rule count_distinct) simp
  finally show ?thesis .
next
  case False
  then have "Multiset.count out a
      = Multiset.count (filter_mset (\<lambda>a. \<forall>j<length ps. \<not> came_from n (ps ! j) a) out) a" by simp
  also have "\<dots> = Multiset.count (mset heap) a" using assms unfolding pool_ok_def by simp
  also have "\<dots> \<le> 1" by (rule count_distinct) (use assms in \<open>simp add: pool_ok_def\<close>)
  finally show ?thesis .
qed

lemma size_le_classes:
  fixes k :: nat
  assumes "\<forall>a\<in>#M. \<exists>j<k. P j a"
  shows "size M \<le> (\<Sum>j<k. size (filter_mset (P j) M))"
  using assms
proof (induction M)
  case (add a M)
  then obtain j where j: "j < k" "P j a" by auto
  have "(\<Sum>i<k. size (filter_mset (P i) M)) + 1 \<le> (\<Sum>i<k. size (filter_mset (P i) (add_mset a M)))"
  proof -
    have "(\<Sum>i<k. size (filter_mset (P i) M)) + (\<Sum>i<k. if i = j then 1 else 0)
        \<le> (\<Sum>i<k. size (filter_mset (P i) (add_mset a M)))"
      unfolding sum.distrib [symmetric] by (rule sum_mono) (use j in auto)
    moreover have "(\<Sum>i<k. if i = j then 1 else 0) = (1::nat)" using j by simp
    ultimately show ?thesis by simp
  qed
  with add show ?case by simp
qed simp

lemma pool_ok_in_flight:
  assumes "pool_ok n ps [] out"
  shows "size out \<le> length ps * n"
proof -
  have each: "size (filter_mset (came_from n (ps ! j)) out) \<le> n" if "j < length ps" for j
  proof -
    have "size (mset (available_items (ps ! j)) + filter_mset (came_from n (ps ! j)) out) = n"
      using assms that unfolding pool_ok_def by simp
    then show ?thesis by simp
  qed
  have "\<exists>j<length ps. came_from n (ps ! j) a" if "a \<in># out" for a
  proof (rule ccontr)
    assume "\<not> ?thesis"
    with that pool_ok_delete(1) [OF assms] show False by auto
  qed
  then have "size out \<le> (\<Sum>j<length ps. size (filter_mset (came_from n (ps ! j)) out))"
    by (intro size_le_classes) blast
  also have "\<dots> \<le> (\<Sum>j<length ps. n)" by (rule sum_mono) (use each in simp)
  finally show ?thesis by simp
qed

section \<open>The invariant of a pool and its operations\<close>

definition pool_config :: "JPool \<Rightarrow> nat \<times> nat \<times> bool" where
  "pool_config pool = (m_pool_size pool, m_location_count pool, m_limit_total_events_in_flight pool)"

definition pool_inv :: "nat list \<Rightarrow> JPool \<Rightarrow> addr multiset \<Rightarrow> bool" where
  "pool_inv bases pool out \<longleftrightarrow>
     0 < m_location_count pool \<and> length bases = m_location_count pool
     \<and> (m_limit_total_events_in_flight pool \<longrightarrow> heap_items pool = [])
     \<and> (case m_pools pool of
          None \<Rightarrow> False
        | Some ps \<Rightarrow> map items_base ps = bases \<and> pool_ok (m_pool_size pool) ps (heap_items pool) out)"

text \<open>What the code relies on from \<open>new\<close>: the address is neither in use nor inside an array.\<close>

definition malloc_ok :: "nat \<Rightarrow> nat list \<Rightarrow> (addr list \<Rightarrow> addr) \<Rightarrow> bool" where
  "malloc_ok n bases malloc \<longleftrightarrow>
     (\<forall>live. malloc live \<notin> set live \<and> (\<forall>b\<in>set bases. \<not> (b \<le> malloc live \<and> malloc live \<le> b + n - 1)))"

lemma pool_invE:
  assumes "pool_inv bases pool out"
  obtains ps where "m_pools pool = Some ps" and "map items_base ps = bases"
    and "length ps = m_location_count pool" and "0 < m_location_count pool"
    and "pool_ok (m_pool_size pool) ps (heap_items pool) out"
    and "m_limit_total_events_in_flight pool \<Longrightarrow> heap_items pool = []"
  using assms by (auto simp: pool_inv_def split: option.splits)

lemma pool_invI:
  assumes "m_pools pool = Some ps" and "map items_base ps = bases"
    and "length ps = m_location_count pool" and "0 < m_location_count pool"
    and "pool_ok (m_pool_size pool) ps (heap_items pool) out"
    and "m_limit_total_events_in_flight pool \<Longrightarrow> heap_items pool = []"
  shows "pool_inv bases pool out"
  using assms by (auto simp: pool_inv_def)

lemma with_pools_Some [simp]: "m_pools pool = Some ps \<Longrightarrow> with_pools pool f = f ps"
  by (simp add: with_pools_def)

lemma map_items_base_upd [simp]:
  "map items_base (ps[l := (ps ! l)\<lparr>available_items := xs\<rparr>]) = map items_base ps"
  by (rule nth_equalityI) (simp_all)

lemma set_available_take:
  assumes inv: "pool_inv bases pool out" and ps: "m_pools pool = Some ps"
    and l: "l < m_location_count pool" and av: "available_items (ps ! l) = xs @ ys"
  shows "pool_inv bases (set_available l xs ps pool) (out + mset ys)"
proof -
  from inv ps obtain "map items_base ps = bases" "length ps = m_location_count pool"
    "pool_ok (m_pool_size pool) ps (heap_items pool) out"
    "m_limit_total_events_in_flight pool \<Longrightarrow> heap_items pool = []" by (auto elim: pool_invE)
  with l pool_ok_take [OF this(3) _ av] show ?thesis
    by (intro pool_invI) (auto simp: set_available_def)
qed

lemma pool_config_simps [simp]:
  "pool_config (set_available l xs ps pool) = pool_config pool"
  "pool_config (fst (new_item malloc pool)) = pool_config pool"
  by (simp_all add: pool_config_def set_available_def new_item_def Let_def)

lemma new_item_spec:
  assumes inv: "pool_inv bases pool out" and ok: "malloc_ok (m_pool_size pool) bases malloc"
    and unlimited: "\<not> m_limit_total_events_in_flight pool"
  shows "pool_inv bases (fst (new_item malloc pool)) (add_mset (snd (new_item malloc pool)) out)"
  using inv
proof (rule pool_invE)
  fix ps
  assume ps: "m_pools pool = Some ps" "map items_base ps = bases" "length ps = m_location_count pool"
    "0 < m_location_count pool" "pool_ok (m_pool_size pool) ps (heap_items pool) out"
  let ?t = "malloc (heap_items pool)"
  have "\<forall>j<length ps. \<not> came_from (m_pool_size pool) (ps ! j) ?t"
    using ok ps(2) by (auto simp: malloc_ok_def came_from_def)
  moreover have "?t \<notin> set (heap_items pool)" using ok by (simp add: malloc_ok_def)
  ultimately have "pool_ok (m_pool_size pool) ps (?t # heap_items pool) (add_mset ?t out)"
    using ps(5) by (intro pool_ok_new)
  with ps unlimited show ?thesis by (intro pool_invI) (auto simp: new_item_def Let_def)
qed

lemma JPool_get_spec:
  assumes inv: "pool_inv bases pool out" and ok: "malloc_ok (m_pool_size pool) bases malloc"
  shows "\<exists>pool' r. JPool_get malloc location pool = Inr (pool', r) \<and> pool_config pool' = pool_config pool
    \<and> (case r of None \<Rightarrow> m_limit_total_events_in_flight pool \<and> pool' = pool
        | Some a \<Rightarrow> pool_inv bases pool' (add_mset a out))"
  using inv
proof (rule pool_invE)
  fix ps
  assume ps: "m_pools pool = Some ps" and k: "0 < m_location_count pool"
  let ?l = "location mod m_location_count pool"
  let ?av = "available_items (ps ! ?l)"
  have l: "?l < m_location_count pool" using k by simp
  show ?thesis
  proof (cases "?av = []")
    case True
    with ps new_item_spec [OF inv ok] show ?thesis
      by (auto simp: JPool_get_def Let_def split_beta pool_config_simps)
  next
    case False
    then have "?av = butlast ?av @ [last ?av]" by simp
    from set_available_take [OF inv ps l this] False ps show ?thesis
      by (auto simp: JPool_get_def Let_def)
  qed
qed

lemma put_scan_spec:
  assumes inv: "pool_inv bases pool out" and ps: "m_pools pool = Some ps" and a: "a \<in># out"
    and passed: "\<And>i. location \<le> i \<Longrightarrow> i < location + (m_location_count pool - k) \<Longrightarrow>
        \<not> came_from (m_pool_size pool) (ps ! (i mod m_location_count pool)) a"
    and k: "k \<le> m_location_count pool"
  shows "\<exists>pool'. put_scan k (location + (m_location_count pool - k)) a ps pool = Inr pool'
    \<and> pool_inv bases pool' (out - {#a#}) \<and> pool_config pool' = pool_config pool
    \<and> hook_calls pool' = hook_calls pool"
  using passed k
proof (induction k)
  case 0
  from inv ps have len: "length ps = m_location_count pool" "0 < m_location_count pool"
    "map items_base ps = bases" and pok: "pool_ok (m_pool_size pool) ps (heap_items pool) out"
    and lim: "m_limit_total_events_in_flight pool \<Longrightarrow> heap_items pool = []" by (auto elim: pool_invE)
  have none: "\<forall>j<length ps. \<not> came_from (m_pool_size pool) (ps ! j) a"
  proof (intro allI impI)
    fix j assume "j < length ps"
    with len obtain i where "location \<le> i" "i < location + m_location_count pool"
      "i mod m_location_count pool = j" using mod_window by metis
    with "0.prems" show "\<not> came_from (m_pool_size pool) (ps ! j) a" by auto
  qed
  from pool_ok_delete [OF pok a none] ps len lim show ?case
    by (auto simp: pool_config_def intro!: pool_invI)
next
  case (Suc k)
  from inv ps have len: "length ps = m_location_count pool" "0 < m_location_count pool"
    "map items_base ps = bases" and pok: "pool_ok (m_pool_size pool) ps (heap_items pool) out"
    and lim: "m_limit_total_events_in_flight pool \<Longrightarrow> heap_items pool = []" by (auto elim: pool_invE)
  have n: "0 < m_pool_size pool" using pok by (simp add: pool_ok_def)
  let ?l = "location + (m_location_count pool - Suc k)"
  let ?j = "?l mod m_location_count pool"
  have j: "?j < length ps" using len by simp
  show ?case
  proof (cases "came_from (m_pool_size pool) (ps ! ?j) a")
    case True
    with pool_ok_return [OF pok j a True] ps len lim j n show ?thesis
      by (auto simp: Let_def set_available_def pool_config_def intro!: pool_invI)
  next
    case False
    have next_l: "location + (m_location_count pool - k) = Suc ?l" using Suc.prems(2) by simp
    have "\<not> came_from (m_pool_size pool) (ps ! (i mod m_location_count pool)) a"
      if "location \<le> i" "i < location + (m_location_count pool - k)" for i
      using that Suc.prems(1) False by (cases "i = ?l") (auto simp: next_l less_Suc_eq)
    from Suc.IH [OF this] Suc.prems(2) False n show ?thesis by (simp add: Let_def next_l)
  qed
qed

lemma JPool_put_spec:
  assumes inv: "pool_inv bases pool out" and a: "a \<in># out"
  shows "\<exists>pool'. JPool_put a location pool = Inr pool' \<and> pool_inv bases pool' (out - {#a#})
    \<and> pool_config pool' = pool_config pool \<and> hook_calls pool' = hook_calls pool @ [ReleaseItem a]"
proof -
  let ?pool = "pool\<lparr>hook_calls := hook_calls pool @ [ReleaseItem a]\<rparr>"
  from inv obtain ps where ps: "m_pools pool = Some ps" by (rule pool_invE)
  from inv have "pool_inv bases ?pool out" by (simp add: pool_inv_def split: option.splits)
  from put_scan_spec [OF this, of ps a location "m_location_count pool"] ps a show ?thesis
    by (auto simp: JPool_put_def pool_config_def)
qed

lemma pop_available_eq:
  assumes "k \<le> length available" and "i + k \<le> length dest"
  shows "pop_available k i dest available =
    Inr (take i dest @ map Some (take k (rev available)) @ drop (i + k) dest,
         take (length available - k) available)"
  using assms
proof (induction k arbitrary: i dest available)
  case 0
  then show ?case by simp
next
  case (Suc k)
  then have ne: "available \<noteq> []" by auto
  then obtain xs x where av: "available = xs @ [x]" by (metis rev_exhaust)
  from Suc.prems av have "pop_available k (Suc i) (dest[i := Some x]) xs =
      Inr (take (Suc i) (dest[i := Some x]) @ map Some (take k (rev xs)) @ drop (Suc i + k) (dest[i := Some x]),
           take (length xs - k) xs)" by (intro Suc.IH) auto
  moreover have "take (Suc i) (dest[i := Some x]) = take i dest @ [Some x]"
    using Suc.prems by (simp add: take_Suc_conv_app_nth)
  ultimately show ?case using Suc.prems av by simp
qed

lemma pop_new_spec:
  assumes "pool_inv bases pool out" and "malloc_ok (m_pool_size pool) bases malloc"
    and "\<not> m_limit_total_events_in_flight pool" and "i + k \<le> length dest"
  shows "\<exists>pool' items. pop_new malloc k i dest pool =
        Inr (take i dest @ map Some items @ drop (i + k) dest, pool')
    \<and> length items = k \<and> pool_inv bases pool' (out + mset items) \<and> pool_config pool' = pool_config pool"
  using assms
proof (induction k arbitrary: i dest pool out)
  case 0
  then show ?case by (auto intro: exI [of _ "[]"])
next
  case (Suc k)
  let ?pool = "fst (new_item malloc pool)" and ?t = "snd (new_item malloc pool)"
  have cfg: "m_pool_size ?pool = m_pool_size pool"
    "m_limit_total_events_in_flight ?pool = m_limit_total_events_in_flight pool"
    by (simp_all add: new_item_def Let_def)
  from Suc.IH [of ?pool "add_mset ?t out" "Suc i" "dest[i := Some ?t]"] new_item_spec [OF Suc.prems(1-3)]
    Suc.prems obtain pool' items where *: "pop_new malloc k (Suc i) (dest[i := Some ?t]) ?pool =
        Inr (take (Suc i) (dest[i := Some ?t]) @ map Some items @ drop (Suc i + k) (dest[i := Some ?t]), pool')"
      "length items = k" "pool_inv bases pool' (add_mset ?t out + mset items)"
      "pool_config pool' = pool_config pool"
    by (auto simp: cfg)
  moreover have "take (Suc i) (dest[i := Some ?t]) = take i dest @ [Some ?t]"
    using Suc.prems by (simp add: take_Suc_conv_app_nth)
  ultimately show ?case using Suc.prems
    by (intro exI [of _ pool'] exI [of _ "?t # items"]) (simp add: split_beta)
qed

definition pop_count :: "bool \<Rightarrow> nat \<Rightarrow> nat \<Rightarrow> nat \<Rightarrow> nat" where
  "pop_count limited available min_count max_count =
     (if limited then if available < min_count then 0 else min available max_count
      else max (min available max_count) min_count)"

lemma JPool_pop_spec:
  assumes inv: "pool_inv bases pool out" and ok: "malloc_ok (m_pool_size pool) bases malloc"
    and dest: "min_count \<le> length dest" "max_count \<le> length dest"
  shows "\<exists>pool' items. JPool_pop malloc dest min_count max_count location pool =
        Inr (pool', map Some items @ drop (length items) dest, length items)
    \<and> pool_inv bases pool' (out + mset items) \<and> pool_config pool' = pool_config pool
    \<and> length items = pop_count (m_limit_total_events_in_flight pool)
        (length (available_items (the (m_pools pool) ! (location mod m_location_count pool)))) min_count max_count"
  using inv
proof (rule pool_invE)
  fix ps
  assume ps: "m_pools pool = Some ps" and k: "0 < m_location_count pool"
  define l where "l = location mod m_location_count pool"
  define av where "av = available_items (ps ! l)"
  define c where "c = min (length av) max_count"
  define got where "got = take c (rev av)"
  let ?lim = "m_limit_total_events_in_flight pool"
  let ?pool = "set_available l (take (length av - c) av) ps pool"
  have l: "l < m_location_count pool" using k by (simp add: l_def)
  have c: "c \<le> length dest" "length got = c" using dest(2) by (auto simp: c_def got_def)
  have "available_items (ps ! l) = take (length av - c) av @ drop (length av - c) av"
    by (simp add: av_def)
  from set_available_take [OF inv ps l this]
  have inv1: "pool_inv bases ?pool (out + mset got)" by (simp add: got_def take_rev)
  have pa: "pop_available c 0 dest av = Inr (map Some got @ drop c dest, take (length av - c) av)"
    using c pop_available_eq [of c av 0 dest] by (simp add: got_def c_def)
  have pop: "JPool_pop malloc dest min_count max_count location pool =
      (if ?lim \<and> length av < min_count then Inr (pool, dest, 0)
       else if ?lim then Inr (?pool, map Some got @ drop c dest, c)
       else rbind (pop_new malloc (min_count - c) c (map Some got @ drop c dest) ?pool)
              (\<lambda>(dest'', pool'). Inr (pool', dest'', max c min_count)))"
    using ps pa by (simp add: JPool_pop_def Let_def l_def [symmetric] av_def [symmetric] c_def [symmetric])
  have len: "length (available_items (the (m_pools pool) ! (location mod m_location_count pool))) = length av"
    by (simp add: ps av_def l_def)
  consider "?lim" "length av < min_count" | "?lim" "\<not> length av < min_count" | "\<not> ?lim" by blast
  then show ?thesis
  proof cases
    case 1
    with inv show ?thesis
      by (intro exI [of _ pool] exI [of _ "[]"]) (simp add: pop len pop_count_def)
  next
    case 2
    with inv1 c show ?thesis
      by (intro exI [of _ ?pool] exI [of _ got]) (simp add: pop len pop_count_def c_def)
  next
    case 3
    have cfg: "m_pool_size ?pool = m_pool_size pool" "\<not> m_limit_total_events_in_flight ?pool"
      using 3 by (simp_all add: set_available_def)
    have "c + (min_count - c) \<le> length (map Some got @ drop c dest)" using c dest by auto
    from pop_new_spec [OF inv1 _ cfg(2) this, of malloc] ok cfg c obtain pool' items where
      "pop_new malloc (min_count - c) c (map Some got @ drop c dest) ?pool =
        Inr (map Some got @ map Some items @ drop (min_count - c) (drop c dest), pool')"
      "length items = min_count - c" "pool_inv bases pool' (out + mset got + mset items)"
      "pool_config pool' = pool_config pool"
      by auto
    moreover have "max c min_count = c + (min_count - c)" by simp
    ultimately show ?thesis using 3 c
      by (intro exI [of _ pool'] exI [of _ "got @ items"])
        (auto simp: pop len pop_count_def c_def ac_simps)
  qed
qed

lemma push_items_spec:
  assumes "pool_inv bases pool out" and "i + k \<le> length source"
    and "take k (drop i source) = map Some items" and "mset items \<subseteq># out"
  shows "\<exists>pool'. push_items k i source location pool =
        Inr (pool', take i source @ replicate k nullptr @ drop (i + k) source)
    \<and> pool_inv bases pool' (out - mset items) \<and> pool_config pool' = pool_config pool
    \<and> hook_calls pool' = hook_calls pool @ map ReleaseItem items"
  using assms
proof (induction k arbitrary: i source pool out items)
  case 0
  then show ?case by auto
next
  case (Suc k)
  then have i: "i < length source" by simp
  then have "drop i source = source ! i # drop (Suc i) source" by (simp add: Cons_nth_drop_Suc)
  with Suc.prems(3) obtain a as where items: "items = a # as" "source ! i = Some a"
    "take k (drop (Suc i) source) = map Some as" by (cases items) auto
  with Suc.prems(4) have a: "a \<in># out" and as: "mset as \<subseteq># out - {#a#}"
    by (auto simp: insert_subset_eq_iff)
  from JPool_put_spec [OF Suc.prems(1) a, of location] obtain pool1 where
    put: "JPool_put a location pool = Inr pool1" "pool_inv bases pool1 (out - {#a#})"
      "pool_config pool1 = pool_config pool" "hook_calls pool1 = hook_calls pool @ [ReleaseItem a]" by auto
  have "take k (drop (Suc i) (source[i := nullptr])) = map Some as" using items by simp
  from Suc.IH [OF put(2) _ this as] Suc.prems(2) obtain pool' where
    *: "push_items k (Suc i) (source[i := nullptr]) location pool1 =
        Inr (pool', take (Suc i) (source[i := nullptr]) @ replicate k nullptr @ drop (Suc i + k) (source[i := nullptr]))"
      "pool_inv bases pool' (out - {#a#} - mset as)" "pool_config pool' = pool_config pool1"
      "hook_calls pool' = hook_calls pool1 @ map ReleaseItem as" by auto
  moreover have "take (Suc i) (source[i := nullptr]) = take i source @ [nullptr]"
    using i by (simp add: take_Suc_conv_app_nth)
  ultimately show ?case using i items put by simp
qed

lemma JPool_push_spec:
  assumes "pool_inv bases pool out" and "cnt \<le> length source"
    and "take cnt source = map Some items" and "mset items \<subseteq># out"
  shows "\<exists>pool'. JPool_push source cnt location pool = Inr (pool', replicate cnt nullptr @ drop cnt source)
    \<and> pool_inv bases pool' (out - mset items) \<and> pool_config pool' = pool_config pool
    \<and> hook_calls pool' = hook_calls pool @ map ReleaseItem items"
  using push_items_spec [of bases pool out 0 cnt source items location] assms
  by (simp add: JPool_push_def)

lemma get_many_available_eq:
  "get_many_available cnt dest available =
     (dest @ take cnt (rev available), take (length available - cnt) available, cnt - length available)"
proof (induction cnt dest available rule: get_many_available.induct)
  case (2 cnt dest available)
  then show ?case
    by (cases available rule: rev_cases) simp_all
qed simp

lemma get_many_new_spec:
  assumes "pool_inv bases pool out" and "malloc_ok (m_pool_size pool) bases malloc"
    and "\<not> m_limit_total_events_in_flight pool"
  shows "\<exists>items pool'. get_many_new malloc cnt dest pool = (dest @ items, pool')
    \<and> length items = cnt \<and> pool_inv bases pool' (out + mset items) \<and> pool_config pool' = pool_config pool"
  using assms
proof (induction cnt arbitrary: dest pool out)
  case 0
  then show ?case by (intro exI [of _ "[]"]) simp
next
  case (Suc cnt)
  let ?pool = "fst (new_item malloc pool)" and ?t = "snd (new_item malloc pool)"
  have cfg: "m_pool_size ?pool = m_pool_size pool"
    "m_limit_total_events_in_flight ?pool = m_limit_total_events_in_flight pool"
    by (simp_all add: new_item_def Let_def)
  from Suc.IH [of ?pool "add_mset ?t out" "dest @ [?t]"] new_item_spec [OF Suc.prems] Suc.prems
  obtain items pool' where "get_many_new malloc cnt (dest @ [?t]) ?pool = (dest @ ?t # items, pool')"
    "length items = cnt" "pool_inv bases pool' (out + mset (?t # items))"
    "pool_config pool' = pool_config pool" by (auto simp: cfg)
  then show ?case by (intro exI [of _ "?t # items"] exI [of _ pool']) (simp add: split_beta)
qed

lemma JPool_get_many_spec:
  assumes inv: "pool_inv bases pool out" and ok: "malloc_ok (m_pool_size pool) bases malloc"
  shows "\<exists>pool' items. JPool_get_many malloc dest cnt location pool
        = Inr (pool', dest @ items, items \<noteq> [] \<or> cnt = 0)
    \<and> pool_inv bases pool' (out + mset items) \<and> pool_config pool' = pool_config pool
    \<and> (items = [] \<or> length items = cnt)"
  using inv
proof (rule pool_invE)
  fix ps
  assume ps: "m_pools pool = Some ps" and k: "0 < m_location_count pool"
  define l where "l = location mod m_location_count pool"
  define av where "av = available_items (ps ! l)"
  define pool1 where "pool1 = set_available l (take (length av - cnt) av) ps pool"
  let ?lim = "m_limit_total_events_in_flight pool"
  have l: "l < m_location_count pool" using k by (simp add: l_def)
  have "available_items (ps ! l) = take (length av - cnt) av @ drop (length av - cnt) av"
    by (simp add: av_def)
  from set_available_take [OF inv ps l this]
  have inv1: "pool_inv bases pool1 (out + mset (take cnt (rev av)))" by (simp add: pool1_def take_rev)
  have cfg: "m_pool_size pool1 = m_pool_size pool" "m_limit_total_events_in_flight pool1 = ?lim"
    "pool_config pool1 = pool_config pool"
    by (simp_all add: pool1_def set_available_def pool_config_def)
  have get_many: "JPool_get_many malloc dest cnt location pool =
      (if ?lim \<and> length av < cnt then Inr (pool, dest, False)
       else case get_many_new malloc (cnt - length av) (dest @ take cnt (rev av)) pool1 of
         (dest'', pool') \<Rightarrow> Inr (pool', dest'', True))"
    using ps by (simp add: JPool_get_many_def Let_def l_def [symmetric] av_def [symmetric]
        get_many_available_eq pool1_def)
  show ?thesis
  proof (cases ?lim)
    case True
    with inv inv1 cfg show ?thesis unfolding get_many
      by (cases "length av < cnt") (auto intro!: exI [of _ "[]"] exI [of _ "take cnt (rev av)"])
  next
    case False
    from get_many_new_spec [OF inv1, of malloc "cnt - length av" "dest @ take cnt (rev av)"] ok cfg False
    obtain items pool' where "get_many_new malloc (cnt - length av) (dest @ take cnt (rev av)) pool1
        = ((dest @ take cnt (rev av)) @ items, pool')" "length items = cnt - length av"
      "pool_inv bases pool' (out + mset (take cnt (rev av)) + mset items)"
      "pool_config pool' = pool_config pool" by auto
    with False show ?thesis unfolding get_many
      by (intro exI [of _ pool'] exI [of _ "take cnt (rev av) @ items"]) (auto simp: ac_simps)
  qed
qed

lemma JPool_put_many_spec:
  assumes "pool_inv bases pool out" and "mset items \<subseteq># out"
  shows "\<exists>pool'. JPool_put_many items location pool = Inr pool' \<and> pool_inv bases pool' (out - mset items)
    \<and> pool_config pool' = pool_config pool"
  using assms
proof (induction items arbitrary: pool out)
  case (Cons a items)
  then have a: "a \<in># out" "mset items \<subseteq># out - {#a#}" by (auto simp: insert_subset_eq_iff)
  from JPool_put_spec [OF Cons.prems(1) a(1), of location] Cons.IH [OF _ a(2)] show ?case by fastforce
qed simp

section \<open>The contract of a pool\<close>

locale item_pool =
  fixes inv :: "'p \<Rightarrow> 'i multiset \<Rightarrow> bool"
    and pop :: "'i ptr list \<Rightarrow> nat \<Rightarrow> nat \<Rightarrow> nat \<Rightarrow> 'p \<Rightarrow> ('p \<times> 'i ptr list \<times> nat) result"
    and push :: "'i ptr list \<Rightarrow> nat \<Rightarrow> nat \<Rightarrow> 'p \<Rightarrow> ('p \<times> 'i ptr list) result"
  assumes pop_law:
    "inv p out \<Longrightarrow> mn \<le> length dest \<Longrightarrow> mx \<le> length dest \<Longrightarrow>
       \<exists>p' items. pop dest mn mx location p = Inr (p', map Some items @ drop (length items) dest, length items)
         \<and> inv p' (out + mset items) \<and> length items \<le> max mn mx"
  and push_law:
    "inv p out \<Longrightarrow> cnt \<le> length source \<Longrightarrow> take cnt source = map Some items \<Longrightarrow> mset items \<subseteq># out \<Longrightarrow>
       \<exists>p'. push source cnt location p = Inr (p', replicate cnt nullptr @ drop cnt source)
         \<and> inv p' (out - mset items)"
begin

lemma pop_push:
  assumes "inv p out" and "mn \<le> length dest" and "mx \<le> length dest"
    and "pop dest mn mx location p = Inr (p', dest', n)"
  shows "\<exists>p''. push dest' n location' p' = Inr (p'', replicate n nullptr @ drop n dest) \<and> inv p'' out"
proof -
  from pop_law [OF assms(1-3), of location] assms(4) obtain items where
    got: "dest' = map Some items @ drop n dest" "n = length items"
    and p': "inv p' (out + mset items)" and "length items \<le> max mn mx" by auto
  then have "n \<le> length dest'" "take n dest' = map Some items" by simp_all
  from push_law [OF p' this, of location'] got show ?thesis by simp
qed

end

definition pool_ready :: "nat list \<Rightarrow> (addr list \<Rightarrow> addr) \<Rightarrow> JPool \<Rightarrow> addr multiset \<Rightarrow> bool" where
  "pool_ready bases malloc pool out \<longleftrightarrow> pool_inv bases pool out \<and> malloc_ok (m_pool_size pool) bases malloc"

lemma pool_ready_config:
  "malloc_ok (m_pool_size pool) bases malloc \<Longrightarrow> pool_config pool' = pool_config pool \<Longrightarrow>
     pool_ready bases malloc pool' out \<longleftrightarrow> pool_inv bases pool' out"
  by (simp add: pool_ready_def pool_config_def)

lemma pop_count_le: "pop_count lim av mn mx \<le> max mn mx"
  by (auto simp: pop_count_def min_def max_def)

interpretation pl: item_pool "pool_ready bases malloc" "JPool_pop malloc" JPool_push for bases malloc
proof unfold_locales
  fix p out mn mx and dest :: "addr ptr list" and location
  assume "pool_ready bases malloc p out" and "mn \<le> length dest" and "mx \<le> length dest"
  then obtain p' items where "JPool_pop malloc dest mn mx location p
        = Inr (p', map Some items @ drop (length items) dest, length items)"
      "pool_ready bases malloc p' (out + mset items)" "length items \<le> max mn mx"
    using JPool_pop_spec [of bases p out malloc mn dest mx location] pop_count_le
    unfolding pool_ready_def pool_config_def by (metis prod.inject)
  then show "\<exists>p' items. JPool_pop malloc dest mn mx location p
        = Inr (p', map Some items @ drop (length items) dest, length items)
      \<and> pool_ready bases malloc p' (out + mset items) \<and> length items \<le> max mn mx" by blast
next
  fix p out cnt location items and source :: "addr ptr list"
  assume "pool_ready bases malloc p out" and "cnt \<le> length source"
    and "take cnt source = map Some items" and "mset items \<subseteq># out"
  then show "\<exists>p'. JPool_push source cnt location p = Inr (p', replicate cnt nullptr @ drop cnt source)
      \<and> pool_ready bases malloc p' (out - mset items)"
    using JPool_push_spec [of bases p out cnt source items location]
    by (auto simp: pool_ready_def pool_config_def)
qed

section \<open>Interleaved clients\<close>

text \<open>
  Any number of workers share a pool; the multiset collects the items they hold.  A step is one
  method call; a worker gives back only items it holds.
\<close>

inductive pool_step ::
    "(addr list \<Rightarrow> addr) \<Rightarrow> JPool \<times> addr multiset \<Rightarrow> JPool \<times> addr multiset \<Rightarrow> bool" for malloc where
  pool_step_get: "JPool_get malloc location pool = Inr (pool', r) \<Longrightarrow>
     pool_step malloc (pool, out) (pool', out + (case r of None \<Rightarrow> {#} | Some a \<Rightarrow> {#a#}))"
| pool_step_put: "a \<in># out \<Longrightarrow> JPool_put a location pool = Inr pool' \<Longrightarrow>
     pool_step malloc (pool, out) (pool', out - {#a#})"
| pool_step_get_many: "JPool_get_many malloc [] cnt location pool = Inr (pool', items, ok) \<Longrightarrow>
     pool_step malloc (pool, out) (pool', out + mset items)"
| pool_step_put_many: "mset items \<subseteq># out \<Longrightarrow> JPool_put_many items location pool = Inr pool' \<Longrightarrow>
     pool_step malloc (pool, out) (pool', out - mset items)"
| pool_step_pop: "mn \<le> length dest \<Longrightarrow> mx \<le> length dest \<Longrightarrow>
     JPool_pop malloc dest mn mx location pool = Inr (pool', dest', n) \<Longrightarrow>
     pool_step malloc (pool, out) (pool', out + mset (map the (take n dest')))"
| pool_step_push: "cnt \<le> length source \<Longrightarrow> take cnt source = map Some items \<Longrightarrow> mset items \<subseteq># out \<Longrightarrow>
     JPool_push source cnt location pool = Inr (pool', source') \<Longrightarrow>
     pool_step malloc (pool, out) (pool', out - mset items)"

inductive pool_reachable ::
    "(addr list \<Rightarrow> addr) \<Rightarrow> (nat \<Rightarrow> addr) \<Rightarrow> nat \<Rightarrow> nat \<Rightarrow> bool \<Rightarrow> JPool \<times> addr multiset \<Rightarrow> bool"
  for malloc arrays n k lim where
  pool_start: "new_JPool n k lim = Inr pool \<Longrightarrow>
     pool_reachable malloc arrays n k lim (JPool_init arrays pool, {#})"
| pool_next: "pool_reachable malloc arrays n k lim w \<Longrightarrow> pool_step malloc w w' \<Longrightarrow>
     pool_reachable malloc arrays n k lim w'"

definition arrays_ok :: "nat \<Rightarrow> nat \<Rightarrow> (nat \<Rightarrow> addr) \<Rightarrow> bool" where
  "arrays_ok n k arrays \<longleftrightarrow>
     (\<forall>i<k. \<forall>j<k. i \<noteq> j \<longrightarrow> arrays i + n \<le> arrays j \<or> arrays j + n \<le> arrays i)"

lemma init_items_eq:
  "init_items items p hooks =
     (p\<lparr>available_items := available_items p @ items\<rparr>, hooks @ map ConfigureItem items)"
  by (induction items arbitrary: p hooks) simp_all

lemma init_pools_eq:
  "init_pools arrays n js ps hooks =
     (ps @ map (\<lambda>j. \<lparr>available_items = [arrays j ..< arrays j + n], items_base = arrays j\<rparr>) js,
      hooks @ concat (map (\<lambda>j. map ConfigureItem [arrays j ..< arrays j + n]) js))"
  by (induction js arbitrary: ps hooks) (simp_all add: init_items_eq)

lemma pool_init_inv:
  assumes "new_JPool n k lim = Inr pool" and "arrays_ok n k arrays" and "0 < n"
  shows "pool_inv (map arrays [0 ..< k]) (JPool_init arrays pool) {#}"
    and "pool_config (JPool_init arrays pool) = (n, k, lim)"
proof -
  let ?ps = "map (\<lambda>j. \<lparr>available_items = [arrays j ..< arrays j + n], items_base = arrays j\<rparr>) [0 ..< k]"
  from assms(1) have pool: "pool = \<lparr>m_pool_size = n, m_location_count = k,
      m_limit_total_events_in_flight = lim, m_pools = None, heap_items = [], hook_calls = []\<rparr>" and k: "1 \<le> k"
    by (auto simp: new_JPool_def split: if_splits)
  have init: "JPool_init arrays pool = pool\<lparr>m_pools := Some ?ps,
      hook_calls := concat (map (\<lambda>j. map ConfigureItem [arrays j ..< arrays j + n]) [0 ..< k])\<rparr>"
    by (simp add: JPool_init_def pool init_pools_eq)
  have "pool_ok n ?ps [] {#}"
    using assms(2,3) by (fastforce simp: pool_ok_def came_from_def arrays_ok_def)
  with k show "pool_inv (map arrays [0 ..< k]) (JPool_init arrays pool) {#}"
    unfolding init by (simp add: pool pool_inv_def o_def)
  show "pool_config (JPool_init arrays pool) = (n, k, lim)"
    unfolding init by (simp add: pool pool_config_def)
qed

lemma pool_step_ready:
  assumes "pool_step malloc w w'" and "pool_ready bases malloc (fst w) (snd w)"
  shows "pool_ready bases malloc (fst w') (snd w') \<and> pool_config (fst w') = pool_config (fst w)"
  using assms
proof cases
  case (pool_step_get location pool pool' r out)
  with assms JPool_get_spec [of bases pool out malloc location] show ?thesis
    by (auto simp: pool_ready_def pool_config_def split: option.splits)
next
  case (pool_step_put a out location pool pool')
  with assms JPool_put_spec [of bases pool out a location] show ?thesis
    by (auto simp: pool_ready_def pool_config_def)
next
  case (pool_step_get_many cnt location pool pool' items ok out)
  with assms JPool_get_many_spec [of bases pool out malloc "[]" cnt location] show ?thesis
    by (auto simp: pool_ready_def pool_config_def)
next
  case (pool_step_put_many items out location pool pool')
  with assms JPool_put_many_spec [of bases pool out items location] show ?thesis
    by (auto simp: pool_ready_def pool_config_def)
next
  case (pool_step_pop mn dest mx location pool pool' dest' n out)
  with assms JPool_pop_spec [of bases pool out malloc mn dest mx location] show ?thesis
    by (auto simp: pool_ready_def pool_config_def multiset.map_comp o_def)
next
  case (pool_step_push cnt source items out location pool pool' source')
  with assms JPool_push_spec [of bases pool out cnt source items location] show ?thesis
    by (auto simp: pool_ready_def pool_config_def)
qed

lemma pool_reachable_ready:
  assumes "pool_reachable malloc arrays n k lim w"
    and "arrays_ok n k arrays" and "0 < n" and "malloc_ok n (map arrays [0 ..< k]) malloc"
  shows "pool_ready (map arrays [0 ..< k]) malloc (fst w) (snd w) \<and> pool_config (fst w) = (n, k, lim)"
  using assms(1)
proof induction
  case (pool_start pool)
  from pool_init_inv [OF pool_start assms(2,3)] assms(4) show ?case
    by (auto simp: pool_ready_def pool_config_def)
next
  case (pool_next w w')
  with pool_step_ready [OF pool_next.hyps(2)] show ?case by auto
qed

lemma put_scan_home:
  assumes "\<exists>i. l \<le> i \<and> i < l + k \<and> i mod m_location_count pool = j"
    and "\<And>i. i < m_location_count pool \<Longrightarrow> came_from (m_pool_size pool) (ps ! i) a \<Longrightarrow> i = j"
    and "came_from (m_pool_size pool) (ps ! j) a" and "0 < m_pool_size pool" and "0 < m_location_count pool"
  shows "put_scan k l a ps pool = Inr (set_available j (available_items (ps ! j) @ [a]) ps pool)"
  using assms(1)
proof (induction k arbitrary: l)
  case (Suc k)
  show ?case
  proof (cases "l mod m_location_count pool = j")
    case True
    with assms show ?thesis by (simp add: Let_def)
  next
    case False
    with assms(2) [of "l mod m_location_count pool"] assms(5)
    have "\<not> came_from (m_pool_size pool) (ps ! (l mod m_location_count pool)) a" by auto
    moreover from Suc.prems False obtain i where "l \<le> i" "i < l + Suc k" "i mod m_location_count pool = j"
      "i \<noteq> l" by blast
    then have "\<exists>i. Suc l \<le> i \<and> i < Suc l + k \<and> i mod m_location_count pool = j"
      by (intro exI [of _ i]) simp
    ultimately show ?thesis using Suc.IH [of "Suc l"] assms(4) by (simp add: Let_def)
  qed
qed auto

lemma pool_ok_free_not_held:
  assumes ok: "pool_ok n ps heap out" and j: "j < length ps" and a: "a \<in> set (available_items (ps ! j))"
  shows "a \<notin># out"
proof -
  have "mset (available_items (ps ! j)) + filter_mset (came_from n (ps ! j)) out
      = mset [items_base (ps ! j) ..< items_base (ps ! j) + n]"
    using ok j unfolding pool_ok_def by blast
  from arg_cong [OF this, of "\<lambda>M. Multiset.count M a"]
  have "Multiset.count (mset (available_items (ps ! j))) a + Multiset.count out a
      = Multiset.count (mset [items_base (ps ! j) ..< items_base (ps ! j) + n]) a"
    using pool_ok_available [OF ok j a] by simp
  also have "\<dots> \<le> 1" by (rule count_distinct) simp
  finally have "Multiset.count (mset (available_items (ps ! j))) a + Multiset.count out a \<le> 1" .
  moreover have "0 < Multiset.count (mset (available_items (ps ! j))) a" using a by (simp add: count_greater_zero_iff)
  ultimately have "Multiset.count out a = 0" by linarith
  then show ?thesis by (simp add: count_eq_zero_iff)
qed

section \<open>Properties of the pool\<close>

definition sample_malloc :: "addr list \<Rightarrow> addr" where
  "sample_malloc live = 200 + sum_list live"

definition sample_pool :: JPool where
  "sample_pool = \<lparr>m_pool_size = 2, m_location_count = 1, m_limit_total_events_in_flight = True,
     m_pools = Some [\<lparr>available_items = [100], items_base = 100\<rparr>], heap_items = [],
     hook_calls = [ConfigureItem 100, ConfigureItem 101]\<rparr>"

lemma sample_malloc_ok: "malloc_ok 2 (map (\<lambda>_. 100) [0 ..< 1]) sample_malloc"
  by (auto simp: malloc_ok_def sample_malloc_def dest: member_le_sum_list)

lemma sample_pool_reachable: "pool_reachable sample_malloc (\<lambda>_. 100) 2 1 True (sample_pool, {#101#})"
proof -
  let ?new = "\<lparr>m_pool_size = 2, m_location_count = 1, m_limit_total_events_in_flight = True,
     m_pools = None, heap_items = [], hook_calls = []\<rparr>"
  have "new_JPool 2 1 True = Inr ?new" by (simp add: new_JPool_def)
  from pool_start [OF this]
  have "pool_reachable sample_malloc (\<lambda>_. 100) 2 1 True (JPool_init (\<lambda>_. 100) ?new, {#})" .
  moreover have "JPool_get sample_malloc 0 (JPool_init (\<lambda>_. 100) ?new) = Inr (sample_pool, Some 101)"
    by (simp add: JPool_init_def init_pools_eq upt_rec JPool_get_def Let_def set_available_def sample_pool_def)
  from pool_step_get [OF this, of "{#}"]
  have "pool_step sample_malloc (JPool_init (\<lambda>_. 100) ?new, {#}) (sample_pool, {#101#})" by simp
  ultimately show ?thesis by (rule pool_next)
qed

lemma sample_arrays_ok: "arrays_ok 2 1 (\<lambda>_. 100)"
  by (simp add: arrays_ok_def)

text \<open>
  C15: whatever the workers do, no item is held by two of them, no item on a free stack is held by
  anybody, and a pool that limits the events in flight never has more items in flight than the
  locations have slots.
\<close>

theorem pool_exclusive:
  assumes "pool_reachable malloc arrays n k lim (pool, out)"
    and "arrays_ok n k arrays" and "0 < n" and "malloc_ok n (map arrays [0 ..< k]) malloc"
  shows "(\<forall>a. Multiset.count out a \<le> 1)
    \<and> (\<exists>ps. m_pools pool = Some ps \<and> length ps = k \<and>
          (\<forall>j<k. \<forall>a\<in>set (available_items (ps ! j)). a \<notin># out))
    \<and> (lim \<longrightarrow> size out \<le> k * n)"
proof -
  from pool_reachable_ready [OF assms] have inv: "pool_inv (map arrays [0 ..< k]) pool out"
    and cfg: "m_pool_size pool = n" "m_location_count pool = k" "m_limit_total_events_in_flight pool = lim"
    by (auto simp: pool_ready_def pool_config_def)
  from inv show ?thesis
  proof (rule pool_invE)
    fix ps
    assume ps: "m_pools pool = Some ps" "length ps = m_location_count pool"
      and ok: "pool_ok (m_pool_size pool) ps (heap_items pool) out"
      and lim: "m_limit_total_events_in_flight pool \<Longrightarrow> heap_items pool = []"
    have "lim \<longrightarrow> size out \<le> k * n"
      using pool_ok_in_flight [of n ps out] ok lim cfg ps by auto
    moreover have "\<forall>j<k. \<forall>a\<in>set (available_items (ps ! j)). a \<notin># out"
      using pool_ok_free_not_held [OF ok] ps cfg by simp
    ultimately show ?thesis using ps cfg pool_ok_distinct [OF ok] by simp
  qed
qed

theorem pool_exclusive_witness:
  "Multiset.count {#101::addr#} 101 \<le> 1
    \<and> m_pools sample_pool = Some [\<lparr>available_items = [100], items_base = 100\<rparr>]
    \<and> 100 \<notin># {#101::addr#} \<and> size {#101::addr#} \<le> 1 * 2"
  using pool_exclusive [OF sample_pool_reachable sample_arrays_ok _ sample_malloc_ok]
  by (simp add: sample_pool_def)

text \<open>
  C26: \<open>put\<close> finds its way home.  An item that came from the array of location \<open>j\<close> goes back on the
  free stack of location \<open>j\<close>, from whatever location it is returned, after \<open>release_item\<close> has been
  called on it; nothing is deleted and no other location changes.
\<close>

theorem pool_put_home:
  assumes "pool_reachable malloc arrays n k lim (pool, out)"
    and "arrays_ok n k arrays" and "0 < n" and "malloc_ok n (map arrays [0 ..< k]) malloc"
    and "m_pools pool = Some ps" and "j < k" and "came_from n (ps ! j) a"
  shows "JPool_put a location pool =
    Inr (pool\<lparr>m_pools := Some (ps[j := (ps ! j)\<lparr>available_items := available_items (ps ! j) @ [a]\<rparr>]),
              hook_calls := hook_calls pool @ [ReleaseItem a]\<rparr>)"
proof -
  from pool_reachable_ready [OF assms(1-4)] have inv: "pool_inv (map arrays [0 ..< k]) pool out"
    and cfg: "m_pool_size pool = n" "m_location_count pool = k"
    by (auto simp: pool_ready_def pool_config_def)
  from inv assms(5) have ok: "pool_ok n ps (heap_items pool) out" and len: "length ps = k"
    using cfg by (auto elim: pool_invE)
  let ?pool = "pool\<lparr>hook_calls := hook_calls pool @ [ReleaseItem a]\<rparr>"
  have "put_scan k location a ps ?pool = Inr (set_available j (available_items (ps ! j) @ [a]) ps ?pool)"
  proof (rule put_scan_home)
    show "\<exists>i\<ge>location. i < location + k \<and> i mod m_location_count ?pool = j"
      using mod_window [OF assms(6), of location] cfg by simp
    show "i = j" if "i < m_location_count ?pool" "came_from (m_pool_size ?pool) (ps ! i) a" for i
      using that pool_ok_disjoint [OF ok _ _ _ assms(7)] assms(6) cfg len by simp
  qed (use assms(3,6,7) cfg in auto)
  then show ?thesis using assms(5) cfg by (simp add: JPool_put_def set_available_def)
qed

theorem pool_put_home_witness:
  "JPool_put 101 7 sample_pool =
    Inr (sample_pool\<lparr>m_pools := Some ([\<lparr>available_items = [100], items_base = 100\<rparr>]
           [0 := ([\<lparr>available_items = [100], items_base = 100\<rparr>] ! 0)
              \<lparr>available_items := available_items ([\<lparr>available_items = [100], items_base = 100\<rparr>] ! 0) @ [101]\<rparr>]),
         hook_calls := hook_calls sample_pool @ [ReleaseItem 101]\<rparr>)"
  by (rule pool_put_home [OF sample_pool_reachable sample_arrays_ok _ sample_malloc_ok])
    (simp_all add: sample_pool_def came_from_def)

text \<open>
  C21: \<open>pop\<close> hands out exactly the items it says it does.  A limiting pool gives all or nothing of the
  minimum and never more than is free; an unlimited pool always reaches the minimum by allocating
  precisely what is missing.  The slots of the caller's array past the count are not touched.
\<close>

theorem pool_pop_counts:
  assumes "pool_reachable malloc arrays n k lim (pool, out)"
    and "arrays_ok n k arrays" and "0 < n" and "malloc_ok n (map arrays [0 ..< k]) malloc"
    and "min_count \<le> length dest" and "max_count \<le> length dest"
    and "m_pools pool = Some ps" and "available = length (available_items (ps ! (location mod k)))"
  shows "\<exists>pool' items. JPool_pop malloc dest min_count max_count location pool =
        Inr (pool', map Some items @ drop (length items) dest, length items)
    \<and> pool_reachable malloc arrays n k lim (pool', out + mset items)
    \<and> length items = (if lim then if available < min_count then 0 else min available max_count
                      else max (min available max_count) min_count)"
proof -
  from pool_reachable_ready [OF assms(1-4)] have inv: "pool_inv (map arrays [0 ..< k]) pool out"
    and cfg: "m_pool_size pool = n" "m_location_count pool = k" "m_limit_total_events_in_flight pool = lim"
    by (auto simp: pool_ready_def pool_config_def)
  from JPool_pop_spec [OF inv, of malloc min_count dest max_count location] assms(4-8) cfg
  obtain pool' items where pop: "JPool_pop malloc dest min_count max_count location pool =
        Inr (pool', map Some items @ drop (length items) dest, length items)"
    and len: "length items = pop_count lim available min_count max_count" by auto
  from pool_next [OF assms(1) pool_step_pop [OF assms(5,6) pop]]
  have "pool_reachable malloc arrays n k lim (pool', out + mset items)"
    by (simp add: multiset.map_comp o_def)
  with pop len show ?thesis unfolding pop_count_def by blast
qed

theorem pool_pop_counts_witness:
  "\<exists>pool' items. JPool_pop sample_malloc [nullptr, nullptr] 1 2 0 sample_pool =
        Inr (pool', map Some items @ drop (length items) [nullptr, nullptr], length items)
    \<and> pool_reachable sample_malloc (\<lambda>_. 100) 2 1 True (pool', {#101#} + mset items)
    \<and> length items = (if True then if 1 < (1::nat) then 0 else min 1 2 else max (min 1 2) 1)"
  by (rule pool_pop_counts [OF sample_pool_reachable sample_arrays_ok _ sample_malloc_ok,
        where ps = "[\<lparr>available_items = [100], items_base = 100\<rparr>]"])
    (simp_all add: sample_pool_def)

end
