(* ===== verification/Arrow.thy ===== *)
theory Arrow
  imports Mailbox Pool Event ArrowMetrics
begin

text \<open>
  Arrows and the places they are attached to: \<open>JArrow.h\<close>.  A world holds the mailboxes, the pools and
  the events of a topology; mailboxes and pools are referred to by index, events by address.  A
  \<open>PlaceRef\<close> is a \<open>void*\<close> with a flag that says what it points to; using it as the other kind of place
  is undefined behaviour.
\<close>

section \<open>State\<close>

datatype place = QueueRef nat | PoolRef nat

record world =
  w_queues :: "nat \<Rightarrow> addr ptr JMailbox"
  w_pools :: "nat \<Rightarrow> JPool"
  w_events :: eheap

record PlaceRef =
  place_ref :: "place ptr"
  is_queue :: bool
  is_input :: bool
  min_item_count :: nat
  max_item_count :: nat

definition ARROWDATA_MAX_SIZE :: nat where
  "ARROWDATA_MAX_SIZE = 10"

record Data =
  items :: "addr ptr list"
  item_count :: nat
  reserve_count :: nat
  location_id :: nat

definition new_Data :: "nat \<Rightarrow> Data" where
  "new_Data loc = \<lparr>items = replicate ARROWDATA_MAX_SIZE nullptr, item_count = 0, reserve_count = 0, location_id = loc\<rparr>"

definition new_PlaceRef :: "place \<Rightarrow> bool \<Rightarrow> nat \<Rightarrow> nat \<Rightarrow> PlaceRef" where
  "new_PlaceRef pl inp mn mx =
     \<lparr>place_ref = Some pl, is_queue = (case pl of QueueRef _ \<Rightarrow> True | PoolRef _ \<Rightarrow> False), is_input = inp,
      min_item_count = mn, max_item_count = mx\<rparr>"

definition set_queue :: "nat \<Rightarrow> PlaceRef \<Rightarrow> PlaceRef" where
  "set_queue q pr = pr\<lparr>place_ref := Some (QueueRef q), is_queue := True\<rparr>"

definition set_pool :: "nat \<Rightarrow> PlaceRef \<Rightarrow> PlaceRef" where
  "set_pool p pr = pr\<lparr>place_ref := Some (PoolRef p), is_queue := False\<rparr>"

text \<open>The \<open>static_cast\<close>s of the methods, after the assertion that the place is set.\<close>

definition as_queue :: "PlaceRef \<Rightarrow> nat result" where
  "as_queue pr = (case place_ref pr of
       None \<Rightarrow> Inl (AssertFailed ''place_ref != nullptr'')
     | Some (QueueRef q) \<Rightarrow> Inr q
     | Some (PoolRef _) \<Rightarrow> Inl (UndefinedBehaviour ''static_cast<JMailbox*>''))"

definition as_pool :: "PlaceRef \<Rightarrow> nat result" where
  "as_pool pr = (case place_ref pr of
       None \<Rightarrow> Inl (AssertFailed ''place_ref != nullptr'')
     | Some (PoolRef p) \<Rightarrow> Inr p
     | Some (QueueRef _) \<Rightarrow> Inl (UndefinedBehaviour ''static_cast<JPool*>''))"

definition has_place :: "PlaceRef \<Rightarrow> unit result" where
  "has_place pr = (if place_ref pr = None then Inl (AssertFailed ''place_ref != nullptr'') else Inr ())"

definition upd_queue :: "nat \<Rightarrow> addr ptr JMailbox \<Rightarrow> world \<Rightarrow> world" where
  "upd_queue q mb w = w\<lparr>w_queues := (w_queues w)(q := mb)\<rparr>"

definition upd_pool :: "nat \<Rightarrow> JPool \<Rightarrow> world \<Rightarrow> world" where
  "upd_pool p pool w = w\<lparr>w_pools := (w_pools w)(p := pool)\<rparr>"

section \<open>Operations of a place\<close>

definition PlaceRef_get_pending :: "world \<Rightarrow> PlaceRef \<Rightarrow> nat result" where
  "PlaceRef_get_pending w pr =
     rbind (has_place pr) (\<lambda>_.
       if is_input pr \<and> is_queue pr then rbind (as_queue pr) (\<lambda>q. Inr (JMailbox_size (w_queues w q)))
       else Inr 0)"

definition PlaceRef_get_threshold :: "world \<Rightarrow> PlaceRef \<Rightarrow> nat result" where
  "PlaceRef_get_threshold w pr =
     rbind (has_place pr) (\<lambda>_.
       if is_input pr \<and> is_queue pr then rbind (as_queue pr) (\<lambda>q. Inr (JMailbox_get_threshold (w_queues w q)))
       else Inr (size_mod - 1))"

definition PlaceRef_set_threshold :: "nat \<Rightarrow> PlaceRef \<Rightarrow> world \<Rightarrow> world result" where
  "PlaceRef_set_threshold threshold pr w =
     rbind (has_place pr) (\<lambda>_.
       if is_input pr \<and> is_queue pr
       then rbind (as_queue pr) (\<lambda>q. Inr (upd_queue q (JMailbox_set_threshold threshold (w_queues w q)) w))
       else Inr w)"

text \<open>\<open>malloc\<close> is the allocator of each pool.\<close>

definition pull ::
    "(nat \<Rightarrow> addr list \<Rightarrow> addr) \<Rightarrow> PlaceRef \<Rightarrow> Data \<Rightarrow> world \<Rightarrow> (world \<times> Data \<times> bool) result" where
  "pull malloc pr data w =
     rbind (has_place pr) (\<lambda>_.
       if is_input pr then
         if is_queue pr then
           rbind (as_queue pr) (\<lambda>q.
           rbind (JMailbox_pop_and_reserve (items data) (min_item_count pr) (max_item_count pr) (location_id data) (w_queues w q))
             (\<lambda>(mb, buf, n).
               Inr (upd_queue q mb w, data\<lparr>items := buf, item_count := n, reserve_count := n\<rparr>, min_item_count pr \<le> n)))
         else
           rbind (as_pool pr) (\<lambda>p.
           rbind (JPool_pop (malloc p) (items data) (min_item_count pr) (max_item_count pr) (location_id data) (w_pools w p))
             (\<lambda>(pool, buf, n).
               Inr (upd_pool p pool w, data\<lparr>items := buf, item_count := n, reserve_count := 0\<rparr>, min_item_count pr \<le> n)))
       else
         if is_queue pr then
           rbind (as_queue pr) (\<lambda>q.
           rbind (JMailbox_reserve (min_item_count pr) (max_item_count pr) (location_id data) (w_queues w q))
             (\<lambda>(mb, n). Inr (upd_queue q mb w, data\<lparr>item_count := 0, reserve_count := n\<rparr>, min_item_count pr \<le> n)))
         else Inr (w, data\<lparr>item_count := 0, reserve_count := 0\<rparr>, True))"

definition revert :: "PlaceRef \<Rightarrow> Data \<Rightarrow> world \<Rightarrow> (world \<times> Data) result" where
  "revert pr data w =
     rbind (has_place pr) (\<lambda>_.
       if is_queue pr then
         rbind (as_queue pr) (\<lambda>q.
         rbind (JMailbox_push_and_unreserve (items data) (item_count data) (reserve_count data) (location_id data) (w_queues w q))
           (\<lambda>(mb, buf). Inr (upd_queue q mb w, data\<lparr>items := buf\<rparr>)))
       else if is_input pr then
         rbind (as_pool pr) (\<lambda>p.
         rbind (JPool_push (items data) (item_count data) (location_id data) (w_pools w p))
           (\<lambda>(pool, buf). Inr (upd_pool p pool w, data\<lparr>items := buf\<rparr>)))
       else Inr (w, data))"

text \<open>
  \<open>push\<close> clears \<open>item_count\<close> before it returns it, so for a queue the number of messages it reports is 0
  whatever it pushed.
\<close>

definition push :: "PlaceRef \<Rightarrow> Data \<Rightarrow> world \<Rightarrow> (world \<times> Data \<times> nat) result" where
  "push pr data w =
     rbind (has_place pr) (\<lambda>_.
       if is_queue pr then
         rbind (as_queue pr) (\<lambda>q.
         rbind (JMailbox_push_and_unreserve (items data) (item_count data) (reserve_count data) (location_id data) (w_queues w q))
           (\<lambda>(mb, buf).
             let data' = data\<lparr>items := buf, item_count := 0, reserve_count := 0\<rparr> in
             Inr (upd_queue q mb w, data', if is_input pr then 0 else item_count data')))
       else
         rbind (as_pool pr) (\<lambda>p.
         rbind (JPool_push (items data) (item_count data) (location_id data) (w_pools w p))
           (\<lambda>(pool, buf).
             Inr (upd_pool p pool w, data\<lparr>items := buf, item_count := 0, reserve_count := 0\<rparr>, 1))))"

section \<open>Arrows\<close>

record JArrow =
  m_name :: string
  m_is_parallel :: bool
  m_is_source :: bool
  m_is_sink :: bool
  m_chunksize :: nat
  m_listeners :: "nat list"
  m_places :: "nat list"

definition attach_listener :: "nat \<Rightarrow> JArrow \<Rightarrow> JArrow" where
  "attach_listener downstream arrow = arrow\<lparr>m_listeners := m_listeners arrow @ [downstream]\<rparr>"

definition attach_place :: "nat \<Rightarrow> JArrow \<Rightarrow> JArrow" where
  "attach_place place arrow =
     (if place \<in> set (m_places arrow) then arrow else arrow\<lparr>m_places := m_places arrow @ [place]\<rparr>)"

definition new_JArrow :: "string \<Rightarrow> bool \<Rightarrow> bool \<Rightarrow> bool \<Rightarrow> nat \<Rightarrow> JArrow" where
  "new_JArrow name parallel source sink chunksize =
     \<lparr>m_name = name, m_is_parallel = parallel, m_is_source = source, m_is_sink = sink, m_chunksize = chunksize,
      m_listeners = [], m_places = []\<rparr>"

definition set_is_sink :: "bool \<Rightarrow> JArrow \<Rightarrow> JArrow" where
  "set_is_sink b arrow = arrow\<lparr>m_is_sink := b\<rparr>"

definition set_chunksize :: "nat \<Rightarrow> JArrow \<Rightarrow> JArrow" where
  "set_chunksize n arrow = arrow\<lparr>m_chunksize := n\<rparr>"

text \<open>
  The arrow refers to other arrows and to its places by address; the three loops below run over the
  places that \<open>m_places\<close> points to.
\<close>

fun JArrow_get_pending :: "world \<Rightarrow> nat \<Rightarrow> PlaceRef list \<Rightarrow> nat result" where
  "JArrow_get_pending w pending [] = Inr pending"
| "JArrow_get_pending w pending (pr # prs) =
     rbind (PlaceRef_get_pending w pr) (\<lambda>n. JArrow_get_pending w (sz_add pending n) prs)"

fun JArrow_get_threshold :: "world \<Rightarrow> nat \<Rightarrow> PlaceRef list \<Rightarrow> nat result" where
  "JArrow_get_threshold w result [] = Inr result"
| "JArrow_get_threshold w result (pr # prs) =
     rbind (PlaceRef_get_threshold w pr) (\<lambda>n. JArrow_get_threshold w (min result n) prs)"

fun JArrow_set_threshold :: "nat \<Rightarrow> PlaceRef list \<Rightarrow> world \<Rightarrow> world result" where
  "JArrow_set_threshold threshold [] w = Inr w"
| "JArrow_set_threshold threshold (pr # prs) w =
     rbind (PlaceRef_set_threshold threshold pr w) (JArrow_set_threshold threshold prs)"

section \<open>Pipeline arrows\<close>

text \<open>
  \<open>JPipelineArrow::execute\<close>.  \<open>proc\<close> is the \<open>process\<close> of the derived class: it may change events, says
  whether it succeeded and with which status, or throws.  \<open>clock i\<close> is the \<open>i\<close>-th reading of the clock.
\<close>

type_synonym process = "addr \<Rightarrow> eheap \<Rightarrow> (eheap \<times> bool \<times> ArrowStatus) result"

record JPipelineArrow =
  m_input :: PlaceRef
  m_output :: PlaceRef

definition new_JPipelineArrow :: "nat ptr \<Rightarrow> nat ptr \<Rightarrow> nat ptr \<Rightarrow> JPipelineArrow result" where
  "new_JPipelineArrow input_queue output_queue pool =
     (case (input_queue, output_queue, pool) of
        (Some q, Some q', _) \<Rightarrow>
          Inr \<lparr>m_input = new_PlaceRef (QueueRef q) True 1 1, m_output = new_PlaceRef (QueueRef q') False 1 1\<rparr>
      | (None, Some q', Some p) \<Rightarrow>
          Inr \<lparr>m_input = new_PlaceRef (PoolRef p) True 1 1, m_output = new_PlaceRef (QueueRef q') False 1 1\<rparr>
      | (Some q, None, Some p) \<Rightarrow>
          Inr \<lparr>m_input = new_PlaceRef (QueueRef q) True 1 1, m_output = new_PlaceRef (PoolRef p) False 1 1\<rparr>
      | (None, None, Some p) \<Rightarrow>
          Inr \<lparr>m_input = new_PlaceRef (PoolRef p) True 1 1, m_output = new_PlaceRef (PoolRef p) False 1 1\<rparr>
      | _ \<Rightarrow> Inl (AssertFailed ''pool != nullptr''))"

definition pipeline_retreat ::
    "(nat \<Rightarrow> int) \<Rightarrow> JPipelineArrow \<Rightarrow> Data \<Rightarrow> Data \<Rightarrow> JArrowMetrics \<Rightarrow> world \<Rightarrow> (world \<times> JArrowMetrics) result" where
  "pipeline_retreat clock arrow in_data out_data metrics w =
     rbind (revert (m_input arrow) in_data w) (\<lambda>(w1, _).
     rbind (revert (m_output arrow) out_data w1) (\<lambda>(w2, _).
       Inr (w2, JArrowMetrics_update ComeBackLater 0 1 0 (clock 1 - clock 0) metrics)))"

definition pipeline_process ::
    "process \<Rightarrow> (nat \<Rightarrow> int) \<Rightarrow> JPipelineArrow \<Rightarrow> Data \<Rightarrow> Data \<Rightarrow> JArrowMetrics \<Rightarrow> world \<Rightarrow> (world \<times> JArrowMetrics) result" where
  "pipeline_process proc clock arrow in_data out_data metrics w =
     (if item_count in_data \<noteq> 1 then Inl (AssertFailed ''in_data.item_count == 1'')
      else
        case items in_data ! 0 of
          None \<Rightarrow> Inl (UndefinedBehaviour ''process(nullptr)'')
        | Some event \<Rightarrow>
            rbind (proc event (w_events w)) (\<lambda>(E, process_succeeded, process_status).
              let w1 = w\<lparr>w_events := E\<rparr>;
                  in_data' = (if process_succeeded then in_data\<lparr>item_count := 0\<rparr> else in_data);
                  out_data' = (if process_succeeded
                               then out_data\<lparr>item_count := 1, items := (items out_data)[0 := Some event]\<rparr>
                               else out_data) in
              rbind (push (m_input arrow) in_data' w1) (\<lambda>(w2, _, _).
              rbind (push (m_output arrow) out_data' w2) (\<lambda>(w3, _, _).
                let latency = clock 2 - clock 1; overhead = (clock 3 - clock 0) - latency in
                Inr (w3, JArrowMetrics_update process_status (if process_succeeded then 1 else 0) 1 latency overhead metrics)))))"

definition JPipelineArrow_execute ::
    "(nat \<Rightarrow> addr list \<Rightarrow> addr) \<Rightarrow> process \<Rightarrow> (nat \<Rightarrow> int) \<Rightarrow> JPipelineArrow \<Rightarrow> nat \<Rightarrow> JArrowMetrics \<Rightarrow> world
     \<Rightarrow> (world \<times> JArrowMetrics) result" where
  "JPipelineArrow_execute malloc proc clock arrow loc metrics w =
     rbind (pull malloc (m_input arrow) (new_Data loc) w) (\<lambda>(w1, in_data, ok_in).
       if \<not> ok_in then pipeline_retreat clock arrow in_data (new_Data loc) metrics w1
       else
         rbind (pull malloc (m_output arrow) (new_Data loc) w1) (\<lambda>(w2, out_data, ok_out).
           if \<not> ok_out then pipeline_retreat clock arrow in_data out_data metrics w2
           else pipeline_process proc clock arrow in_data out_data metrics w2))"

section \<open>Accounting for events and reservations\<close>

text \<open>
  \<open>Q\<close> and \<open>P\<close> are the mailboxes and pools of a topology, \<open>home q\<close> the pool the events of mailbox \<open>q\<close> come
  from.  \<open>H p\<close> are the events of pool \<open>p\<close> that are in somebody's hands, \<open>R q l\<close> the slots of mailbox \<open>q\<close>
  at location \<open>l\<close> that somebody has reserved.  In a sound world everything adds up: what a pool has
  given out is in a mailbox or in somebody's hands, once, and what a mailbox counts as reserved is what
  somebody holds.
\<close>

record topology =
  t_queues :: "nat set"
  t_pools :: "nat set"
  t_home :: "nat \<Rightarrow> nat"
  t_bases :: "nat \<Rightarrow> nat list"
  t_malloc :: "nat \<Rightarrow> addr list \<Rightarrow> addr"

definition contents :: "addr ptr JMailbox \<Rightarrow> addr multiset" where
  "contents mb = (\<Sum>lq\<leftarrow>m_queues mb. mset (map the (queue lq)))"

definition queued :: "topology \<Rightarrow> world \<Rightarrow> nat \<Rightarrow> addr multiset" where
  "queued t w p = (\<Sum>q\<in>{q \<in> t_queues t. t_home t q = p}. contents (w_queues w q))"

definition queue_sound :: "addr ptr JMailbox \<Rightarrow> (nat \<Rightarrow> nat) \<Rightarrow> bool" where
  "queue_sound mb res \<longleftrightarrow> (\<forall>l<length (m_queues mb).
     lq_inv (m_capacity mb) (m_queues mb ! l) \<and> reserved_count (m_queues mb ! l) = res l
     \<and> None \<notin> set (queue (m_queues mb ! l)))"

definition world_sound ::
    "topology \<Rightarrow> (nat \<Rightarrow> addr multiset) \<Rightarrow> (nat \<Rightarrow> nat \<Rightarrow> nat) \<Rightarrow> world \<Rightarrow> bool" where
  "world_sound t H R w \<longleftrightarrow> finite (t_queues t)
     \<and> (\<forall>q\<in>t_queues t. queue_sound (w_queues w q) (R q))
     \<and> (\<forall>p\<in>t_pools t. pool_ready (t_bases t p) (t_malloc t p) (w_pools w p) (queued t w p + H p))"

definition give :: "nat \<Rightarrow> addr list \<Rightarrow> (nat \<Rightarrow> addr multiset) \<Rightarrow> nat \<Rightarrow> addr multiset" where
  "give p xs H = H(p := H p + mset xs)"

definition book :: "nat \<Rightarrow> nat \<Rightarrow> nat \<Rightarrow> (nat \<Rightarrow> nat \<Rightarrow> nat) \<Rightarrow> nat \<Rightarrow> nat \<Rightarrow> nat" where
  "book q l n R = R(q := (R q)(l := R q l + n))"

lemma give_Nil [simp]: "give p [] H = H"
  by (simp add: give_def)

lemma book_0 [simp]: "book q l 0 R = R"
  by (simp add: book_def)

lemma give_comm: "give p xs (give p' ys H) = give p' ys (give p xs H)"
  by (auto simp: give_def fun_eq_iff)

lemma book_comm: "book q l n (book q' l' n' R) = book q' l' n' (book q l n R)"
  by (auto simp: book_def fun_eq_iff)

lemma contents_split:
  assumes "l < length (m_queues mb)"
  shows "contents mb = mset (map the (queue (m_queues mb ! l)))
    + (\<Sum>lq\<leftarrow>take l (m_queues mb) @ drop (Suc l) (m_queues mb). mset (map the (queue lq)))"
proof -
  have "m_queues mb = take l (m_queues mb) @ m_queues mb ! l # drop (Suc l) (m_queues mb)"
    using assms by (rule id_take_nth_drop)
  then have "contents mb = (\<Sum>lq\<leftarrow>take l (m_queues mb) @ m_queues mb ! l # drop (Suc l) (m_queues mb). mset (map the (queue lq)))"
    unfolding contents_def by simp
  then show ?thesis by (simp add: ac_simps)
qed

lemma contents_upd:
  assumes "l < length (m_queues mb)"
  shows "contents (mb\<lparr>m_queues := (m_queues mb)[l := lq]\<rparr>) + mset (map the (queue (m_queues mb ! l)))
    = contents mb + mset (map the (queue lq))"
proof -
  let ?rest = "(\<Sum>lq\<leftarrow>take l (m_queues mb) @ drop (Suc l) (m_queues mb). mset (map the (queue lq)))"
  have "contents (mb\<lparr>m_queues := (m_queues mb)[l := lq]\<rparr>) = mset (map the (queue lq)) + ?rest"
    using contents_split [of l "mb\<lparr>m_queues := (m_queues mb)[l := lq]\<rparr>"] assms by simp
  with contents_split [OF assms] show ?thesis by (simp add: ac_simps)
qed

lemma queued_upd_queue:
  assumes "finite (t_queues t)" and "q \<in> t_queues t" and "contents mb + M = contents (w_queues w q) + N"
  shows "queued t (upd_queue q mb w) p + (if t_home t q = p then M else {#})
    = queued t w p + (if t_home t q = p then N else {#})"
proof -
  let ?Q = "{q \<in> t_queues t. t_home t q = p}"
  have fin: "finite ?Q" using assms(1) by simp
  show ?thesis
  proof (cases "t_home t q = p")
    case True
    then have q: "q \<in> ?Q" using assms(2) by simp
    have "queued t (upd_queue q mb w) p = contents mb + (\<Sum>q'\<in>?Q - {q}. contents (w_queues w q'))"
      unfolding queued_def sum.remove [OF fin q] by (simp add: upd_queue_def)
    moreover have "queued t w p = contents (w_queues w q) + (\<Sum>q'\<in>?Q - {q}. contents (w_queues w q'))"
      unfolding queued_def by (rule sum.remove [OF fin q])
    ultimately show ?thesis using True assms(3) by (simp add: ac_simps)
  next
    case False
    then have "queued t (upd_queue q mb w) p = queued t w p"
      unfolding queued_def by (intro sum.cong) (auto simp: upd_queue_def)
    with False show ?thesis by simp
  qed
qed

lemma queued_upd_pool [simp]: "queued t (upd_pool p pool w) p' = queued t w p'"
  by (simp add: queued_def upd_pool_def)

lemma queued_events [simp]: "queued t (w\<lparr>w_events := E\<rparr>) p = queued t w p"
  by (simp add: queued_def)

lemma world_sound_events [simp]: "world_sound t H R (w\<lparr>w_events := E\<rparr>) = world_sound t H R w"
  by (simp add: world_sound_def)

text \<open>Changing one local queue changes the books by what it gained and lost.\<close>

lemma world_sound_upd_queue:
  assumes w: "world_sound t H R w" and q: "q \<in> t_queues t" and l: "l < length (m_queues (w_queues w q))"
    and lq: "lq_inv (m_capacity (w_queues w q)) lq" "reserved_count lq = R' q l" "None \<notin> set (queue lq)"
    and R': "\<And>q' l'. (q', l') \<noteq> (q, l) \<Longrightarrow> R' q' l' = R q' l'"
    and H': "\<And>p. p \<noteq> t_home t q \<Longrightarrow> H' p = H p"
      "mset (map the (queue lq)) + H' (t_home t q)
         = mset (map the (queue (m_queues (w_queues w q) ! l))) + H (t_home t q)"
  shows "world_sound t H' R' (upd_queue q ((w_queues w q)\<lparr>m_queues := (m_queues (w_queues w q))[l := lq]\<rparr>) w)"
    (is "world_sound t H' R' (upd_queue q ?mb w)")
proof -
  have fin: "finite (t_queues t)" using w by (simp add: world_sound_def)
  have "queue_sound (w_queues (upd_queue q ?mb w) q') (R' q')" if q': "q' \<in> t_queues t" for q'
  proof (cases "q' = q")
    case True
    have "queue_sound (w_queues w q) (R q)" using w q by (simp add: world_sound_def)
    moreover have "R' q l' = R q l'" if "l' \<noteq> l" for l' using R' that by simp
    ultimately show ?thesis
      using True lq l unfolding queue_sound_def upd_queue_def
      by (simp add: nth_list_update)
  next
    case False
    then have "R' q' = R q'" using R' by auto
    with w q' False show ?thesis by (simp add: world_sound_def upd_queue_def)
  qed
  moreover have "queued t (upd_queue q ?mb w) p + H' p = queued t w p + H p" for p
  proof (cases "p = t_home t q")
    case True
    let ?old = "mset (map the (queue (m_queues (w_queues w q) ! l)))" and ?new = "mset (map the (queue lq))"
    have "contents ?mb + ?old = contents (w_queues w q) + ?new" using l by (rule contents_upd)
    from queued_upd_queue [OF fin q this, of p] True
    have "queued t (upd_queue q ?mb w) p + ?old = queued t w p + ?new" by simp
    then have "queued t (upd_queue q ?mb w) p + ?old + H' p = queued t w p + (?new + H' p)" by (simp add: ac_simps)
    also have "?new + H' p = ?old + H p" using H'(2) True by simp
    finally show ?thesis by (simp add: ac_simps)
  next
    case False
    have "contents ?mb + contents (w_queues w q) = contents (w_queues w q) + contents ?mb" by (rule add.commute)
    from queued_upd_queue [OF fin q this, of p] False H'(1) show ?thesis by simp
  qed
  ultimately show ?thesis using w fin by (auto simp: world_sound_def upd_queue_def)
qed

section \<open>What the operations of a place do to the books\<close>

definition place_fits :: "topology \<Rightarrow> world \<Rightarrow> PlaceRef \<Rightarrow> nat \<Rightarrow> bool" where
  "place_fits t w pr l \<longleftrightarrow>
     (case place_ref pr of
        None \<Rightarrow> False
      | Some (QueueRef q) \<Rightarrow> is_queue pr \<and> q \<in> t_queues t \<and> l < length (m_queues (w_queues w q))
      | Some (PoolRef p) \<Rightarrow> \<not> is_queue pr \<and> p \<in> t_pools t)
     \<and> min_item_count pr \<le> max_item_count pr \<and> max_item_count pr \<le> ARROWDATA_MAX_SIZE"

definition place_home :: "topology \<Rightarrow> PlaceRef \<Rightarrow> nat" where
  "place_home t pr = (case place_ref pr of Some (QueueRef q) \<Rightarrow> t_home t q | Some (PoolRef p) \<Rightarrow> p | None \<Rightarrow> 0)"

definition book_at :: "PlaceRef \<Rightarrow> nat \<Rightarrow> nat \<Rightarrow> (nat \<Rightarrow> nat \<Rightarrow> nat) \<Rightarrow> nat \<Rightarrow> nat \<Rightarrow> nat" where
  "book_at pr l n R = (case place_ref pr of Some (QueueRef q) \<Rightarrow> book q l n R | _ \<Rightarrow> R)"

definition same_layout :: "world \<Rightarrow> world \<Rightarrow> bool" where
  "same_layout w w' \<longleftrightarrow> w_events w' = w_events w
     \<and> (\<forall>q. length (m_queues (w_queues w' q)) = length (m_queues (w_queues w q)))"

text \<open>The buffer carries the events \<open>xs\<close>, and for a mailbox at least as many reservations.\<close>

definition loaded :: "PlaceRef \<Rightarrow> nat \<Rightarrow> Data \<Rightarrow> addr list \<Rightarrow> bool" where
  "loaded pr l data xs \<longleftrightarrow> length (items data) = ARROWDATA_MAX_SIZE \<and> location_id data = l
     \<and> item_count data = length xs \<and> length xs \<le> ARROWDATA_MAX_SIZE \<and> take (length xs) (items data) = map Some xs
     \<and> (is_queue pr \<longrightarrow> length xs \<le> reserve_count data)"

lemma same_layout_refl [simp]: "same_layout w w"
  by (simp add: same_layout_def)

lemma same_layout_trans: "same_layout w w' \<Longrightarrow> same_layout w' w'' \<Longrightarrow> same_layout w w''"
  by (simp add: same_layout_def)

lemma same_layout_queue [simp]:
  "same_layout w (upd_queue q ((w_queues w q)\<lparr>m_queues := (m_queues (w_queues w q))[l := lq]\<rparr>) w)"
  by (simp add: same_layout_def upd_queue_def)

lemma same_layout_pool [simp]: "same_layout w (upd_pool p pool w)"
  by (simp add: same_layout_def upd_pool_def)

lemma place_fits_layout: "same_layout w w' \<Longrightarrow> place_fits t w' pr l = place_fits t w pr l"
  by (simp add: place_fits_def same_layout_def split: option.split place.split)

lemma place_fits_cases:
  assumes "place_fits t w pr l"
  obtains q where "place_ref pr = Some (QueueRef q)" and "is_queue pr" and "q \<in> t_queues t"
      and "l < length (m_queues (w_queues w q))" and "has_place pr = Inr ()" and "as_queue pr = Inr q"
    | p where "place_ref pr = Some (PoolRef p)" and "\<not> is_queue pr" and "p \<in> t_pools t"
      and "has_place pr = Inr ()" and "as_pool pr = Inr p"
  using assms by (auto simp: place_fits_def has_place_def as_queue_def as_pool_def split: option.splits place.splits)

lemma queue_soundD:
  assumes "world_sound t H R w" and "q \<in> t_queues t" and "l < length (m_queues (w_queues w q))"
  shows "lq_inv (m_capacity (w_queues w q)) (m_queues (w_queues w q) ! l)"
    and "reserved_count (m_queues (w_queues w q) ! l) = R q l"
    and "None \<notin> set (queue (m_queues (w_queues w q) ! l))"
  using assms by (auto simp: world_sound_def queue_sound_def)

lemma ptr_list_some: "None \<notin> set xs \<Longrightarrow> \<exists>ys. xs = map Some ys"
  by (induction xs) (auto, metis list.simps(9) not_Some_eq)

lemma take_queue:
  assumes w: "world_sound t H R w" and q: "q \<in> t_queues t" and l: "l < length (m_queues (w_queues w q))"
    and buf: "mx \<le> length buf" and mn: "mn \<le> mx"
  shows "\<exists>mb xs. JMailbox_pop_and_reserve buf mn mx l (w_queues w q)
        = Inr (mb, map Some xs @ drop (length xs) buf, length xs)
    \<and> world_sound t (give (t_home t q) xs H) (book q l (length xs) R) (upd_queue q mb w)
    \<and> same_layout w (upd_queue q mb w) \<and> length xs \<le> mx \<and> (mn \<le> length xs \<or> xs = [])"
proof -
  let ?mb = "w_queues w q"
  let ?lq = "m_queues ?mb ! l"
  note sound = queue_soundD [OF w q l]
  obtain lq' ys where pop: "lq_pop_and_reserve buf mn mx ?lq = Inr (lq', ys @ drop (length ys) buf, length ys)"
    "lq_inv (m_capacity ?mb) lq'" "queue ?lq = ys @ queue lq'" "reserved_count lq' = reserved_count ?lq + length ys"
    "length ys = (if length (queue ?lq) < mn then 0 else min mx (length (queue ?lq)))"
    using lq.pop_law [OF sound(1) buf, of mn] by blast
  from sound(3) pop(3) have none: "None \<notin> set ys" "None \<notin> set (queue lq')" by auto
  then obtain xs where xs: "ys = map Some xs" using ptr_list_some by blast
  have "world_sound t (give (t_home t q) xs H) (book q l (length xs) R)
      (upd_queue q (?mb\<lparr>m_queues := (m_queues ?mb)[l := lq']\<rparr>) w)"
    by (rule world_sound_upd_queue [OF w q l pop(2) _ none(2)])
      (use pop(3,4) sound(2) in \<open>auto simp: give_def book_def xs\<close>)
  moreover have "length xs \<le> mx" "mn \<le> length xs \<or> xs = []" using pop(5) xs mn by (auto split: if_splits)
  moreover have "JMailbox_pop_and_reserve buf mn mx l ?mb
      = Inr (?mb\<lparr>m_queues := (m_queues ?mb)[l := lq']\<rparr>, map Some xs @ drop (length xs) buf, length xs)"
    using pop(1) l xs by (simp add: JMailbox_pop_and_reserve_def at_location_def)
  ultimately show ?thesis by (intro exI [of _ "?mb\<lparr>m_queues := (m_queues ?mb)[l := lq']\<rparr>"] exI [of _ xs]) simp
qed

lemma reserve_queue:
  assumes w: "world_sound t H R w" and q: "q \<in> t_queues t" and l: "l < length (m_queues (w_queues w q))"
  shows "\<exists>mb n. JMailbox_reserve mn mx l (w_queues w q) = Inr (mb, n)
    \<and> world_sound t H (book q l n R) (upd_queue q mb w) \<and> same_layout w (upd_queue q mb w)"
proof -
  let ?mb = "w_queues w q"
  let ?lq = "m_queues ?mb ! l"
  note sound = queue_soundD [OF w q l]
  obtain lq' n where run: "lq_reserve (m_capacity ?mb) mn mx ?lq = (lq', n)" by fastforce
  from lq.reserve_law [OF sound(1) run] have res: "lq_inv (m_capacity ?mb) lq'" "queue lq' = queue ?lq"
    "reserved_count lq' = reserved_count ?lq + n" by blast+
  have "world_sound t H (book q l n R) (upd_queue q (?mb\<lparr>m_queues := (m_queues ?mb)[l := lq']\<rparr>) w)"
    by (rule world_sound_upd_queue [OF w q l res(1)]) (use res sound(2,3) in \<open>auto simp: book_def\<close>)
  moreover have "JMailbox_reserve mn mx l ?mb = Inr (?mb\<lparr>m_queues := (m_queues ?mb)[l := lq']\<rparr>, n)"
    using run l by (simp add: JMailbox_reserve_def at_location_def)
  ultimately show ?thesis by (intro exI [of _ "?mb\<lparr>m_queues := (m_queues ?mb)[l := lq']\<rparr>"] exI [of _ n]) simp
qed

lemma put_queue:
  assumes w: "world_sound t (give (t_home t q) xs H) (book q l r R) w" and q: "q \<in> t_queues t"
    and l: "l < length (m_queues (w_queues w q))"
    and xs: "take (length xs) buf = map Some xs" "length xs \<le> length buf" "length xs \<le> r"
  shows "\<exists>mb buf'. JMailbox_push_and_unreserve buf (length xs) r l (w_queues w q) = Inr (mb, buf')
    \<and> world_sound t H R (upd_queue q mb w) \<and> same_layout w (upd_queue q mb w)"
proof -
  let ?mb = "w_queues w q"
  let ?lq = "m_queues ?mb ! l"
  note sound = queue_soundD [OF w q l]
  have "r \<le> reserved_count ?lq" using sound(2) by (simp add: book_def)
  from lq.push_law [OF sound(1) this xs(3,2)] obtain lq' where
    put: "lq_push_and_unreserve (m_capacity ?mb) buf (length xs) r ?lq
        = Inr (lq', replicate (length xs) nullptr @ drop (length xs) buf)"
    "lq_inv (m_capacity ?mb) lq'" "queue lq' = queue ?lq @ take (length xs) buf" "reserved_count lq' = reserved_count ?lq - r"
    by blast
  have q': "queue lq' = queue ?lq @ map Some xs" using put(3) xs(1) by simp
  have "world_sound t H R (upd_queue q (?mb\<lparr>m_queues := (m_queues ?mb)[l := lq']\<rparr>) w)"
  proof (rule world_sound_upd_queue [OF w q l put(2)])
    show "reserved_count lq' = R q l" using put(4) sound(2) by (simp add: book_def)
    show "None \<notin> set (queue lq')" using q' sound(3) by auto
    show "mset (map the (queue lq')) + H (t_home t q)
        = mset (map the (queue ?lq)) + give (t_home t q) xs H (t_home t q)"
      unfolding q' by (simp add: give_def comp_def)
    show "R q' l' = book q l r R q' l'" if "(q', l') \<noteq> (q, l)" for q' l'
      using that by (cases "q' = q") (simp_all add: book_def)
    show "H p = give (t_home t q) xs H p" if "p \<noteq> t_home t q" for p
      using that by (simp add: give_def)
  qed
  moreover have "JMailbox_push_and_unreserve buf (length xs) r l ?mb = Inr (?mb\<lparr>m_queues := (m_queues ?mb)[l := lq']\<rparr>,
      replicate (length xs) nullptr @ drop (length xs) buf)"
    using put(1) l by (simp add: JMailbox_push_and_unreserve_def at_location_def)
  ultimately show ?thesis
    by (intro exI [of _ "?mb\<lparr>m_queues := (m_queues ?mb)[l := lq']\<rparr>"] exI [of _ "replicate (length xs) nullptr @ drop (length xs) buf"]) simp
qed

lemma pool_soundD:
  assumes "world_sound t H R w" and "p \<in> t_pools t"
  shows "pool_ready (t_bases t p) (t_malloc t p) (w_pools w p) (queued t w p + H p)"
  using assms by (simp add: world_sound_def)

lemma world_sound_upd_pool:
  assumes "world_sound t H R w" and "p \<in> t_pools t"
    and "pool_ready (t_bases t p) (t_malloc t p) pool (queued t w p + H' p)"
    and "\<And>p'. p' \<noteq> p \<Longrightarrow> H' p' = H p'"
  shows "world_sound t H' R (upd_pool p pool w)"
  unfolding world_sound_def
proof (intro conjI ballI)
  show "finite (t_queues t)" using assms(1) by (simp add: world_sound_def)
  show "queue_sound (w_queues (upd_pool p pool w) q) (R q)" if "q \<in> t_queues t" for q
    using assms(1) that by (simp add: world_sound_def upd_pool_def)
  show "pool_ready (t_bases t p') (t_malloc t p') (w_pools (upd_pool p pool w) p') (queued t (upd_pool p pool w) p' + H' p')"
    if "p' \<in> t_pools t" for p'
    unfolding queued_upd_pool
    by (cases "p' = p") (use assms(1,3,4) that in \<open>simp_all add: upd_pool_def world_sound_def\<close>)
qed

lemma take_pool:
  assumes w: "world_sound t H R w" and p: "p \<in> t_pools t" and buf: "mx \<le> length buf" and mn: "mn \<le> mx"
  shows "\<exists>pool xs. JPool_pop (t_malloc t p) buf mn mx l (w_pools w p)
        = Inr (pool, map Some xs @ drop (length xs) buf, length xs)
    \<and> world_sound t (give p xs H) R (upd_pool p pool w) \<and> length xs \<le> mx"
proof -
  have "mn \<le> length buf" using buf mn by simp
  from pl.pop_law [OF pool_soundD [OF w p] this buf] obtain pool xs where
    pop: "JPool_pop (t_malloc t p) buf mn mx l (w_pools w p) = Inr (pool, map Some xs @ drop (length xs) buf, length xs)"
    "pool_ready (t_bases t p) (t_malloc t p) pool (queued t w p + H p + mset xs)" "length xs \<le> max mn mx" by blast
  have "pool_ready (t_bases t p) (t_malloc t p) pool (queued t w p + give p xs H p)"
    using pop(2) by (simp add: give_def add.assoc)
  then have "world_sound t (give p xs H) R (upd_pool p pool w)"
    by (rule world_sound_upd_pool [OF w p, of pool "give p xs H"]) (simp add: give_def)
  with pop(1,3) mn show ?thesis by (intro exI [of _ pool] exI [of _ xs]) simp
qed

lemma put_pool:
  assumes w: "world_sound t (give p xs H) R w" and p: "p \<in> t_pools t"
    and xs: "take (length xs) buf = map Some xs" "length xs \<le> length buf"
  shows "\<exists>pool buf'. JPool_push buf (length xs) l (w_pools w p) = Inr (pool, buf') \<and> world_sound t H R (upd_pool p pool w)"
proof -
  let ?out = "queued t w p + give p xs H p"
  have "mset xs \<subseteq># ?out" by (simp add: give_def)
  from pl.push_law [OF pool_soundD [OF w p] xs(2,1) this] obtain pool where
    push: "JPool_push buf (length xs) l (w_pools w p) = Inr (pool, replicate (length xs) nullptr @ drop (length xs) buf)"
    "pool_ready (t_bases t p) (t_malloc t p) pool (?out - mset xs)" by blast
  have "?out - mset xs = queued t w p + H p" by (simp add: give_def)
  with push(2) have "pool_ready (t_bases t p) (t_malloc t p) pool (queued t w p + H p)" by simp
  then have "world_sound t H R (upd_pool p pool w)"
    by (rule world_sound_upd_pool [OF w p, of pool H]) (simp add: give_def)
  with push(1) show ?thesis by blast
qed

text \<open>\<open>pull\<close> puts events into the caller's hands and reservations on the caller's account.\<close>

lemma pull_sound:
  assumes w: "world_sound t H R w" and pr: "place_fits t w pr l"
    and data: "length (items data) = ARROWDATA_MAX_SIZE" "location_id data = l"
  obtains w' data' ok xs where "pull (t_malloc t) pr data w = Inr (w', data', ok)" and "loaded pr l data' xs"
    and "world_sound t (give (place_home t pr) xs H) (book_at pr l (reserve_count data') R) w'"
    and "same_layout w w'" and "is_input pr \<Longrightarrow> ok \<longleftrightarrow> min_item_count pr \<le> length xs"
    and "\<not> is_input pr \<Longrightarrow> xs = []" and "length xs \<le> max_item_count pr"
    and "\<not> is_input pr \<Longrightarrow> is_queue pr \<Longrightarrow> ok \<longleftrightarrow> min_item_count pr \<le> reserve_count data'"
    and "\<not> is_input pr \<Longrightarrow> \<not> is_queue pr \<Longrightarrow> ok"
proof -
  let ?mn = "min_item_count pr" and ?mx = "max_item_count pr"
  have mx: "?mx \<le> length (items data)" "?mn \<le> ?mx" "?mx \<le> ARROWDATA_MAX_SIZE"
    using pr data by (auto simp: place_fits_def)
  from pr show ?thesis
  proof (cases rule: place_fits_cases)
    case (1 q)
    show ?thesis
    proof (cases "is_input pr")
      case True
      obtain mb xs where pop: "JMailbox_pop_and_reserve (items data) ?mn ?mx l (w_queues w q)
          = Inr (mb, map Some xs @ drop (length xs) (items data), length xs)"
        "world_sound t (give (t_home t q) xs H) (book q l (length xs) R) (upd_queue q mb w)"
        "same_layout w (upd_queue q mb w)" "length xs \<le> ?mx"
        using take_queue [OF w 1(3,4) mx(1,2)] by blast
      let ?data = "data\<lparr>items := map Some xs @ drop (length xs) (items data), item_count := length xs, reserve_count := length xs\<rparr>"
      have "pull (t_malloc t) pr data w = Inr (upd_queue q mb w, ?data, ?mn \<le> length xs)"
        using 1 True pop(1) data(2) by (simp add: pull_def)
      then show ?thesis
        using 1 True pop(2-) data mx by (intro that [of _ ?data _ xs]) (simp_all add: loaded_def place_home_def book_at_def)
    next
      case False
      obtain mb n where res: "JMailbox_reserve ?mn ?mx l (w_queues w q) = Inr (mb, n)"
        "world_sound t H (book q l n R) (upd_queue q mb w)" "same_layout w (upd_queue q mb w)"
        using reserve_queue [OF w 1(3,4)] by blast
      let ?data = "data\<lparr>item_count := 0, reserve_count := n\<rparr>"
      have "pull (t_malloc t) pr data w = Inr (upd_queue q mb w, ?data, ?mn \<le> n)"
        using 1 False res(1) data(2) by (simp add: pull_def)
      then show ?thesis
        using 1 False res(2-) data by (intro that [of _ ?data _ "[]"]) (simp_all add: loaded_def place_home_def book_at_def)
    qed
  next
    case (2 p)
    show ?thesis
    proof (cases "is_input pr")
      case True
      obtain pool xs where pop: "JPool_pop (t_malloc t p) (items data) ?mn ?mx l (w_pools w p)
          = Inr (pool, map Some xs @ drop (length xs) (items data), length xs)"
        "world_sound t (give p xs H) R (upd_pool p pool w)" "length xs \<le> ?mx"
        using take_pool [OF w 2(3) mx(1,2)] by blast
      let ?data = "data\<lparr>items := map Some xs @ drop (length xs) (items data), item_count := length xs, reserve_count := 0\<rparr>"
      have "pull (t_malloc t) pr data w = Inr (upd_pool p pool w, ?data, ?mn \<le> length xs)"
        using 2 True pop(1) data(2) by (simp add: pull_def)
      then show ?thesis
        using 2 True pop(2-) data mx by (intro that [of "upd_pool p pool w" ?data "?mn \<le> length xs" xs]) (simp_all add: loaded_def place_home_def book_at_def)
    next
      case False
      let ?data = "data\<lparr>item_count := 0, reserve_count := 0\<rparr>"
      have "pull (t_malloc t) pr data w = Inr (w, ?data, True)" using 2 False by (simp add: pull_def)
      then show ?thesis
        using 2 False w data by (intro that [of w ?data True "[]"]) (simp_all add: loaded_def place_home_def book_at_def)
    qed
  qed
qed

text \<open>\<open>push\<close> and \<open>revert\<close> take both back.\<close>

lemma push_sound:
  assumes w: "world_sound t (give (place_home t pr) xs H) (book_at pr l (reserve_count data) R) w"
    and pr: "place_fits t w pr l" and data: "loaded pr l data xs"
  obtains w' data' n where "push pr data w = Inr (w', data', n)" and "world_sound t H R w'" and "same_layout w w'"
  using pr
proof (cases rule: place_fits_cases)
  case (1 q)
  have w1: "world_sound t (give (t_home t q) xs H) (book q l (reserve_count data) R) w"
    using w 1(1) by (simp add: place_home_def book_at_def)
  have xs: "take (length xs) (items data) = map Some xs" "length xs \<le> length (items data)" "length xs \<le> reserve_count data"
    "item_count data = length xs" "location_id data = l" using data 1(2) by (simp_all add: loaded_def)
  from put_queue [OF w1 1(3,4) xs(1-3)] obtain mb buf where
    put: "JMailbox_push_and_unreserve (items data) (length xs) (reserve_count data) l (w_queues w q) = Inr (mb, buf)"
    "world_sound t H R (upd_queue q mb w)" "same_layout w (upd_queue q mb w)" by blast
  from put(1) have "\<exists>d n. push pr data w = Inr (upd_queue q mb w, d, n)" using 1 xs by (simp add: push_def Let_def)
  with put(2,3) show ?thesis using that by blast
next
  case (2 p)
  have w1: "world_sound t (give p xs H) R w" using w 2(1) by (simp add: place_home_def book_at_def)
  have xs: "take (length xs) (items data) = map Some xs" "length xs \<le> length (items data)"
    "item_count data = length xs" "location_id data = l" using data by (simp_all add: loaded_def)
  from put_pool [OF w1 2(3) xs(1,2)] obtain pool buf where
    put: "JPool_push (items data) (length xs) l (w_pools w p) = Inr (pool, buf)" "world_sound t H R (upd_pool p pool w)" by blast
  from put(1) have "\<exists>d n. push pr data w = Inr (upd_pool p pool w, d, n)" using 2 xs by (simp add: push_def)
  with put(2) show ?thesis using that same_layout_pool by blast
qed

lemma revert_push:
  assumes "place_fits t w pr l" and "push pr data w = Inr (w', data', n)" and "is_queue pr \<or> is_input pr"
  shows "\<exists>data''. revert pr data w = Inr (w', data'')"
  using assms by (auto simp: revert_def push_def Let_def rbind_Inr_iff split: if_splits)

lemma revert_sound:
  assumes w: "world_sound t (give (place_home t pr) xs H) (book_at pr l (reserve_count data) R) w"
    and pr: "place_fits t w pr l" and data: "loaded pr l data xs" and out: "\<not> is_input pr \<Longrightarrow> xs = []"
  obtains w' data' where "revert pr data w = Inr (w', data')" and "world_sound t H R w'" and "same_layout w w'"
proof (cases "is_queue pr \<or> is_input pr")
  case True
  obtain w' data' n where "push pr data w = Inr (w', data', n)" "world_sound t H R w'" "same_layout w w'"
    using w pr data by (rule push_sound)
  with revert_push [OF pr this(1) True] that show ?thesis by blast
next
  case False
  from pr False obtain p where p: "place_ref pr = Some (PoolRef p)" by (cases rule: place_fits_cases) auto
  with False out w have "world_sound t H R w" by (simp add: place_home_def book_at_def)
  moreover have "revert pr data w = Inr (w, data)" using False p by (simp add: revert_def has_place_def)
  ultimately show ?thesis using that same_layout_refl by blast
qed

section \<open>Pipeline arrows keep the books\<close>

lemma book_at_0 [simp]: "book_at pr l 0 R = R"
  by (simp add: book_at_def split: option.split place.split)

lemma book_at_comm: "book_at pr l n (book_at pr' l' n' R) = book_at pr' l' n' (book_at pr l n R)"
  by (simp add: book_at_def book_comm split: option.split place.split)

lemma place_fits_events [simp]: "place_fits t (w\<lparr>w_events := E\<rparr>) pr l = place_fits t w pr l"
  by (simp add: place_fits_def split: option.split place.split)

lemma new_Data_loaded [simp]: "loaded pr l (new_Data l) []" "reserve_count (new_Data l) = 0"
  "length (items (new_Data l)) = ARROWDATA_MAX_SIZE" "location_id (new_Data l) = l"
  by (simp_all add: loaded_def new_Data_def)

definition same_size :: "world \<Rightarrow> world \<Rightarrow> bool" where
  "same_size w w' \<longleftrightarrow> (\<forall>q. length (m_queues (w_queues w' q)) = length (m_queues (w_queues w q)))"

lemma same_layout_size: "same_layout w w' \<Longrightarrow> same_size w w'"
  by (simp add: same_layout_def same_size_def)

lemma same_size_events [simp]: "same_size (w\<lparr>w_events := E\<rparr>) w' = same_size w w'"
  by (simp add: same_size_def)

lemma same_size_trans: "same_size w w1 \<Longrightarrow> same_size w1 w2 \<Longrightarrow> same_size w w2"
  by (simp add: same_size_def)

lemma place_fits_size: "same_size w w' \<Longrightarrow> place_fits t w' pr l = place_fits t w pr l"
  by (simp add: place_fits_def same_size_def split: option.split place.split)

definition pipeline_fits :: "topology \<Rightarrow> world \<Rightarrow> JPipelineArrow \<Rightarrow> nat \<Rightarrow> bool" where
  "pipeline_fits t w arrow l \<longleftrightarrow>
     place_fits t w (m_input arrow) l \<and> is_input (m_input arrow)
     \<and> min_item_count (m_input arrow) = 1 \<and> max_item_count (m_input arrow) = 1
     \<and> place_fits t w (m_output arrow) l \<and> \<not> is_input (m_output arrow)
     \<and> min_item_count (m_output arrow) = 1 \<and> max_item_count (m_output arrow) = 1
     \<and> place_home t (m_output arrow) = place_home t (m_input arrow)"

lemma retreat_sound:
  assumes w: "world_sound t (give (place_home t (m_input arrow)) xs H)
        (book_at (m_input arrow) l (reserve_count din) (book_at (m_output arrow) l (reserve_count dout) R)) w"
    and fits: "pipeline_fits t w arrow l" and din: "loaded (m_input arrow) l din xs" and dout: "loaded (m_output arrow) l dout []"
  shows "\<exists>w' m'. pipeline_retreat clock arrow din dout m w = Inr (w', m') \<and> world_sound t H R w' \<and> same_layout w w'"
proof -
  obtain w1 d1 where 1: "revert (m_input arrow) din w = Inr (w1, d1)"
    "world_sound t H (book_at (m_output arrow) l (reserve_count dout) R) w1" "same_layout w w1"
    by (rule revert_sound [OF w _ din]) (use fits in \<open>auto simp: pipeline_fits_def\<close>)
  have "world_sound t (give (place_home t (m_output arrow)) [] H) (book_at (m_output arrow) l (reserve_count dout) R) w1"
    using 1(2) by simp
  moreover have "place_fits t w1 (m_output arrow) l" using fits 1(3) by (simp add: pipeline_fits_def place_fits_layout)
  ultimately obtain w2 d2 where "revert (m_output arrow) dout w1 = Inr (w2, d2)" "world_sound t H R w2" "same_layout w1 w2"
    using dout by (rule revert_sound) blast
  moreover from this(3) have "same_layout w w2" by (rule same_layout_trans [OF 1(3)])
  ultimately show ?thesis using 1(1) by (simp add: pipeline_retreat_def)
qed

lemma process_sound:
  assumes w: "world_sound t (give (place_home t (m_input arrow)) [e] H)
        (book_at (m_input arrow) l (reserve_count din) (book_at (m_output arrow) l (reserve_count dout) R)) w"
    and fits: "pipeline_fits t w arrow l" and din: "loaded (m_input arrow) l din [e]"
    and dout: "loaded (m_output arrow) l dout []" and room: "is_queue (m_output arrow) \<Longrightarrow> 1 \<le> reserve_count dout"
    and proc: "proc e (w_events w) = Inr (E, ok, st)"
  shows "\<exists>w' m'. pipeline_process proc clock arrow din dout m w = Inr (w', m') \<and> world_sound t H R w' \<and> same_size w w'"
proof -
  let ?in = "m_input arrow" and ?out = "m_output arrow"
  define din' where "din' = (if ok then din\<lparr>item_count := 0\<rparr> else din)"
  define dout' where "dout' = (if ok then dout\<lparr>item_count := 1, items := (items dout)[0 := Some e]\<rparr> else dout)"
  define xin where "xin = (if ok then [] else [e])"
  define xout where "xout = (if ok then [e] else [])"
  have din': "loaded ?in l din' xin" "reserve_count din' = reserve_count din"
    using din by (auto simp: loaded_def din'_def xin_def)
  have len: "length (items dout) \<noteq> 0" using dout by (simp add: loaded_def ARROWDATA_MAX_SIZE_def)
  then have dout': "loaded ?out l dout' xout" "reserve_count dout' = reserve_count dout"
    using dout room by (cases "items dout"; auto simp: loaded_def dout'_def xout_def)+
  have home: "place_home t ?out = place_home t ?in" using fits by (simp add: pipeline_fits_def)
  have "give (place_home t ?in) xin (give (place_home t ?out) xout H) = give (place_home t ?in) [e] H"
    by (simp add: xin_def xout_def home)
  then have "world_sound t (give (place_home t ?in) xin (give (place_home t ?out) xout H))
      (book_at ?in l (reserve_count din') (book_at ?out l (reserve_count dout') R)) (w\<lparr>w_events := E\<rparr>)"
    using w by (simp add: din'(2) dout'(2))
  moreover have "place_fits t (w\<lparr>w_events := E\<rparr>) ?in l" using fits by (simp add: pipeline_fits_def)
  ultimately obtain w1 d1 n1 where 1: "push ?in din' (w\<lparr>w_events := E\<rparr>) = Inr (w1, d1, n1)"
    "world_sound t (give (place_home t ?out) xout H) (book_at ?out l (reserve_count dout') R) w1"
    "same_layout (w\<lparr>w_events := E\<rparr>) w1" using din'(1) by (rule push_sound)
  have "place_fits t w1 ?out l" using fits place_fits_layout [OF 1(3)] by (simp add: pipeline_fits_def)
  then obtain w2 d2 n2 where 2: "push ?out dout' w1 = Inr (w2, d2, n2)" "world_sound t H R w2" "same_layout w1 w2"
    using dout'(1) by (rule push_sound [OF 1(2)])
  have "same_size w w2"
    using same_size_trans [OF same_layout_size [OF 1(3)] same_layout_size [OF 2(3)]] by simp
  have "item_count din = 1" "items din ! 0 = Some e"
    using din by (cases "items din"; auto simp: loaded_def)+
  with \<open>same_size w w2\<close> proc 1(1) 2(1,2) show ?thesis
    by (simp add: pipeline_process_def Let_def din'_def [symmetric] dout'_def [symmetric])
qed

lemma execute_sound:
  assumes w: "world_sound t H R w" and fits: "pipeline_fits t w arrow l"
    and proc: "\<And>e E. \<exists>E' ok st. proc e E = Inr (E', ok, st)"
  shows "\<exists>w' m'. JPipelineArrow_execute (t_malloc t) proc clock arrow l m w = Inr (w', m') \<and> world_sound t H R w'
    \<and> same_size w w'"
proof -
  let ?in = "m_input arrow" and ?out = "m_output arrow"
  have fit_in: "place_fits t w ?in l" and fit_out: "place_fits t w ?out l" and inp: "is_input ?in" "\<not> is_input ?out"
    and mins: "min_item_count ?in = 1" "max_item_count ?in = 1" "min_item_count ?out = 1"
    using fits by (simp_all add: pipeline_fits_def)
  obtain w1 din ok1 xs where 1: "pull (t_malloc t) ?in (new_Data l) w = Inr (w1, din, ok1)" "loaded ?in l din xs"
    "world_sound t (give (place_home t ?in) xs H) (book_at ?in l (reserve_count din) R) w1" "same_layout w w1"
    "is_input ?in \<Longrightarrow> ok1 \<longleftrightarrow> min_item_count ?in \<le> length xs" "length xs \<le> max_item_count ?in"
    by (rule pull_sound [OF w fit_in new_Data_loaded(3,4)]) blast
  have fits1: "pipeline_fits t w1 arrow l" using fits 1(4) by (simp add: pipeline_fits_def place_fits_layout)
  note size1 = same_layout_size [OF 1(4)]
  show ?thesis
  proof (cases ok1)
    case False
    have "world_sound t (give (place_home t ?in) xs H)
        (book_at ?in l (reserve_count din) (book_at ?out l (reserve_count (new_Data l)) R)) w1" using 1(3) by simp
    from retreat_sound [OF this fits1 1(2) new_Data_loaded(1), of clock m] False 1(1) show ?thesis
      unfolding JPipelineArrow_execute_def by (auto dest: same_layout_size same_size_trans [OF size1])
  next
    case True
    with 1(5,6) inp mins have "length xs = 1" by simp
    then obtain e where xs: "xs = [e]" by (cases xs) auto
    have "place_fits t w1 ?out l" using fits1 by (simp add: pipeline_fits_def)
    then obtain w2 dout ok2 ys where 2: "pull (t_malloc t) ?out (new_Data l) w1 = Inr (w2, dout, ok2)" "loaded ?out l dout ys"
      "world_sound t (give (place_home t ?out) ys (give (place_home t ?in) xs H))
         (book_at ?out l (reserve_count dout) (book_at ?in l (reserve_count din) R)) w2" "same_layout w1 w2"
      "\<not> is_input ?out \<Longrightarrow> ys = []" "\<not> is_input ?out \<Longrightarrow> is_queue ?out \<Longrightarrow> ok2 \<longleftrightarrow> min_item_count ?out \<le> reserve_count dout"
      by (rule pull_sound [OF 1(3) _ new_Data_loaded(3,4)]) blast+
    have ys: "ys = []" using 2(5) inp by simp
    have fits2: "pipeline_fits t w2 arrow l" using fits1 2(4) by (simp add: pipeline_fits_def place_fits_layout)
    note size2 = same_size_trans [OF size1 same_layout_size [OF 2(4)]]
    have sound: "world_sound t (give (place_home t ?in) xs H)
        (book_at ?in l (reserve_count din) (book_at ?out l (reserve_count dout) R)) w2"
      using 2(3) by (simp add: ys book_at_comm [of ?out])
    show ?thesis
    proof (cases ok2)
      case False
      from retreat_sound [OF sound fits2 1(2) 2(2) [unfolded ys], of clock m] 2(1) False True 1(1) show ?thesis
        unfolding JPipelineArrow_execute_def by (auto dest: same_layout_size same_size_trans [OF size2])
    next
      case ok2: True
      obtain E ok st where proc_eq: "proc e (w_events w2) = Inr (E, ok, st)" using proc by blast
      have room: "is_queue ?out \<Longrightarrow> 1 \<le> reserve_count dout" using 2(6) ok2 inp mins by simp
      from process_sound [where proc = proc and clock = clock and m = m, OF sound [unfolded xs] fits2 1(2) [unfolded xs] 2(2) [unfolded ys] room proc_eq]
        2(1) ok2 True 1(1) show ?thesis
        unfolding JPipelineArrow_execute_def by (auto dest: same_size_trans [OF size2])
    qed
  qed
qed

text \<open>
  A network of pipeline arrows, as the workers drive it: \<open>fires\<close> relates the worlds before and after
  any number of executions, of any of the arrows, at any of the locations, in any order.
\<close>

inductive fires :: "topology \<Rightarrow> (JPipelineArrow \<times> process) set \<Rightarrow> nat \<Rightarrow> world \<Rightarrow> world \<Rightarrow> bool"
  for t :: topology and arrows :: "(JPipelineArrow \<times> process) set" and locations :: nat and w :: world where
  fires_none: "fires t arrows locations w w"
| fires_next: "fires t arrows locations w w1 \<Longrightarrow> (arrow, proc) \<in> arrows \<Longrightarrow> l < locations \<Longrightarrow>
    JPipelineArrow_execute (t_malloc t) proc clock arrow l m w1 = Inr (w2, m') \<Longrightarrow> fires t arrows locations w w2"

definition net_fits :: "topology \<Rightarrow> (JPipelineArrow \<times> process) set \<Rightarrow> nat \<Rightarrow> world \<Rightarrow> bool" where
  "net_fits t arrows locations w \<longleftrightarrow> (\<forall>(arrow, proc)\<in>arrows.
     (\<forall>l<locations. pipeline_fits t w arrow l) \<and> (\<forall>e E. \<exists>E' ok st. proc e E = Inr (E', ok, st)))"

lemma net_fits_size: "same_size w w' \<Longrightarrow> net_fits t arrows locations w \<Longrightarrow> net_fits t arrows locations w'"
  unfolding net_fits_def pipeline_fits_def by (simp add: place_fits_size)

lemma net_execute:
  assumes "world_sound t H R w" and "net_fits t arrows locations w" and "(arrow, proc) \<in> arrows" and "l < locations"
  shows "\<exists>w' m'. JPipelineArrow_execute (t_malloc t) proc clock arrow l m w = Inr (w', m') \<and> world_sound t H R w'
    \<and> net_fits t arrows locations w'"
proof -
  have "pipeline_fits t w arrow l" and proc: "\<And>e E. \<exists>E' ok st. proc e E = Inr (E', ok, st)"
    using assms(2-4) by (auto simp: net_fits_def)
  from execute_sound [where proc = proc, OF assms(1) this(1) proc, of clock m] show ?thesis
    using net_fits_size [OF _ assms(2)] by blast
qed

lemma fires_sound:
  assumes "fires t arrows locations w w'" and "world_sound t H R w" and "net_fits t arrows locations w"
  shows "world_sound t H R w' \<and> net_fits t arrows locations w'"
  using assms
proof induction
  case (fires_next w1 arrow proc l clock m w2 m')
  with net_execute [of t H R w1 arrows locations arrow proc l clock m] show ?case by auto
qed simp


definition sample_net :: topology where
  "sample_net = \<lparr>t_queues = {0}, t_pools = {0}, t_home = (\<lambda>_. 0), t_bases = (\<lambda>_. [100]), t_malloc = (\<lambda>_. sample_malloc)\<rparr>"

definition sample_world :: world where
  "sample_world = \<lparr>w_queues = (\<lambda>_. new_JMailbox 2 1 False), w_pools = (\<lambda>_. sample_pool), w_events = sample_events\<rparr>"

definition sample_metrics :: JArrowMetrics where
  "sample_metrics = \<lparr>m_last_status = NotRunYet, m_total_message_count = 0, m_last_message_count = 0,
     m_total_queue_visits = 0, m_last_queue_visits = 0, m_total_latency = 0, m_last_latency = 0,
     m_total_queue_latency = 0, m_last_queue_latency = 0\<rparr>"

definition sample_arrow :: JPipelineArrow where
  "sample_arrow = \<lparr>m_input = new_PlaceRef (PoolRef 0) True 1 1, m_output = new_PlaceRef (QueueRef 0) False 1 1\<rparr>"

definition sample_process :: process where
  "sample_process e E = Inr (E, True, KeepGoing)"

lemma sample_world_sound: "world_sound sample_net (\<lambda>_. {#101#}) (\<lambda>_ _. 0) sample_world"
proof -
  have "pool_ready [100] sample_malloc sample_pool {#101#}"
    using pool_reachable_ready [OF sample_pool_reachable sample_arrays_ok _ sample_malloc_ok] by simp
  then show ?thesis
    by (simp add: world_sound_def sample_net_def sample_world_def queued_def contents_def queue_sound_def
        new_JMailbox_def new_LocalQueue_def lq_inv_def size_mod_def)
qed

lemma sample_net_fits: "net_fits sample_net {(sample_arrow, sample_process)} 1 sample_world"
  by (auto simp: net_fits_def pipeline_fits_def place_fits_def place_home_def sample_arrow_def new_PlaceRef_def
      sample_net_def sample_world_def new_JMailbox_def ARROWDATA_MAX_SIZE_def sample_process_def)


end
