(* ===== verification/Scheduler.thy ===== *)
theory Scheduler
  imports Arrow
begin

text \<open>
  The scheduler: \<open>Engine/JScheduler.h\<close> and \<open>.cc\<close>.  Arrows are referred to by address; \<open>A\<close> is the heap of
  arrows.  What \<open>get_pending\<close> returns depends on the queues and is a parameter of the check-in.  Calls of
  \<open>initialize\<close> and \<open>finalize\<close> on arrows and of the metrics of the topology are recorded in a trace.
  Every public method takes the mutex, so each is one step.
\<close>

section \<open>State\<close>

datatype TopologyStatus = TUninitialized | TRunning | TPausing | TDraining | TPaused | TFinalized

datatype SchedStatus = AUninitialized | AActive | ADraining | AInactive | AFinalized

record ArrowState =
  sa_arrow :: nat
  sa_status :: SchedStatus
  sa_threads :: int
  sa_upstream :: int
  sa_downstream :: "nat list"

datatype sched_call = InitializeArrow nat | FinalizeArrow nat | MetricsReset | MetricsStart int | MetricsStop

record JScheduler =
  sc_arrows :: "nat list"
  arrow_states :: "ArrowState list"
  topology_status :: TopologyStatus
  active_count :: int
  next_arrow_index :: nat
  sc_calls :: "sched_call list"

definition topology_status_string :: "TopologyStatus \<Rightarrow> string" where
  "topology_status_string s = (case s of
     TUninitialized \<Rightarrow> ''Uninitialized'' | TRunning \<Rightarrow> ''Running'' | TPausing \<Rightarrow> ''Pausing''
   | TDraining \<Rightarrow> ''Draining'' | TPaused \<Rightarrow> ''Paused'' | TFinalized \<Rightarrow> ''Finalized'')"

definition sched_status_string :: "SchedStatus \<Rightarrow> string" where
  "sched_status_string s = (case s of
     AUninitialized \<Rightarrow> ''Uninitialized'' | AActive \<Rightarrow> ''Active'' | ADraining \<Rightarrow> ''Draining''
   | AInactive \<Rightarrow> ''Inactive'' | AFinalized \<Rightarrow> ''Finalized'')"

text \<open>The constructor numbers the arrows and translates listeners; one that is not in the topology gets number 0.\<close>

fun number_arrows :: "nat \<Rightarrow> nat list \<Rightarrow> (nat, nat) omap \<Rightarrow> (nat, nat) omap" where
  "number_arrows i [] m = m"
| "number_arrows i (a # arrows) m = number_arrows (Suc i) arrows (om_put a i m)"

definition arrow_number :: "nat \<Rightarrow> (nat, nat) omap \<Rightarrow> nat" where
  "arrow_number a m = (case om_find a m of Some i \<Rightarrow> i | None \<Rightarrow> 0)"

definition new_ArrowState :: "(nat \<Rightarrow> JArrow) \<Rightarrow> (nat, nat) omap \<Rightarrow> nat \<Rightarrow> ArrowState" where
  "new_ArrowState A m a =
     \<lparr>sa_arrow = a, sa_status = AUninitialized, sa_threads = 0, sa_upstream = 0,
      sa_downstream = map (\<lambda>d. arrow_number d m) (m_listeners (A a))\<rparr>"

definition new_JScheduler :: "(nat \<Rightarrow> JArrow) \<Rightarrow> nat list \<Rightarrow> JScheduler" where
  "new_JScheduler A arrows =
     \<lparr>sc_arrows = arrows, arrow_states = map (new_ArrowState A (number_arrows 0 arrows [])) arrows,
      topology_status = TUninitialized, active_count = 0, next_arrow_index = 0, sc_calls = []\<rparr>"

section \<open>Elementary updates\<close>

definition upd_state :: "nat \<Rightarrow> (ArrowState \<Rightarrow> ArrowState) \<Rightarrow> JScheduler \<Rightarrow> JScheduler" where
  "upd_state i f s = s\<lparr>arrow_states := (arrow_states s)[i := f (arrow_states s ! i)]\<rparr>"

definition add_upstream :: "int \<Rightarrow> nat \<Rightarrow> JScheduler \<Rightarrow> JScheduler" where
  "add_upstream n i = upd_state i (\<lambda>as. as\<lparr>sa_upstream := sa_upstream as + n\<rparr>)"

definition add_threads :: "int \<Rightarrow> nat \<Rightarrow> JScheduler \<Rightarrow> JScheduler" where
  "add_threads n i = upd_state i (\<lambda>as. as\<lparr>sa_threads := sa_threads as + n\<rparr>)"

definition set_arrow_status :: "SchedStatus \<Rightarrow> nat \<Rightarrow> JScheduler \<Rightarrow> JScheduler" where
  "set_arrow_status st i = upd_state i (\<lambda>as. as\<lparr>sa_status := st\<rparr>)"

definition add_active :: "int \<Rightarrow> JScheduler \<Rightarrow> JScheduler" where
  "add_active n s = s\<lparr>active_count := active_count s + n\<rparr>"

definition sched_log :: "sched_call \<Rightarrow> JScheduler \<Rightarrow> JScheduler" where
  "sched_log c s = s\<lparr>sc_calls := sc_calls s @ [c]\<rparr>"

section \<open>Starting and stopping the topology\<close>

definition initialize_topology :: "JScheduler \<Rightarrow> JScheduler result" where
  "initialize_topology s =
     (if topology_status s \<noteq> TUninitialized
      then Inl (AssertFailed ''current_topology_status == TopologyStatus::Uninitialized'')
      else Inr ((fold (\<lambda>a. sched_log (InitializeArrow a)) (sc_arrows s) s)\<lparr>topology_status := TPaused\<rparr>))"

text \<open>
  \<open>run_arrow_unprotected\<close> recurses along the listeners and would not return on a cycle; \<open>fuel\<close> bounds the
  depth of the recursion and \<open>None\<close> says that it was not enough.
\<close>

fun run_arrow :: "nat \<Rightarrow> nat \<Rightarrow> JScheduler \<Rightarrow> JScheduler option"
  and run_downstream :: "nat \<Rightarrow> nat list \<Rightarrow> JScheduler \<Rightarrow> JScheduler option" where
  "run_arrow 0 i s = None"
| "run_arrow (Suc fuel) i s =
     map_option (set_arrow_status AActive i)
       (run_downstream fuel (sa_downstream (arrow_states s ! i)) (add_active 1 s))"
| "run_downstream fuel [] s = Some s"
| "run_downstream fuel (d # ds) s =
     (case run_arrow fuel d (add_upstream 1 d s) of None \<Rightarrow> None | Some s' \<Rightarrow> run_downstream fuel ds s')"

fun run_sources :: "(nat \<Rightarrow> JArrow) \<Rightarrow> nat \<Rightarrow> nat list \<Rightarrow> JScheduler \<Rightarrow> JScheduler option" where
  "run_sources A fuel [] s = Some s"
| "run_sources A fuel (i # is) s =
     (if m_is_source (A (sa_arrow (arrow_states s ! i)))
      then case run_arrow fuel i s of None \<Rightarrow> None | Some s' \<Rightarrow> run_sources A fuel is s'
      else run_sources A fuel is s)"

definition run_topology :: "(nat \<Rightarrow> JArrow) \<Rightarrow> nat \<Rightarrow> int \<Rightarrow> JScheduler \<Rightarrow> JScheduler option result" where
  "run_topology A fuel nthreads s =
     (if topology_status s = TRunning \<or> topology_status s = TFinalized then Inr (Some s)
      else if \<not> list_ex (\<lambda>a. m_is_source (A a)) (sc_arrows s) then Inl (JExc ''No event sources found!'')
      else Inr (map_option (\<lambda>s'. (sched_log (MetricsStart nthreads) (sched_log MetricsReset s'))\<lparr>topology_status := TRunning\<rparr>)
                  (run_sources A fuel [0 ..< length (arrow_states s)] s)))"

definition pause_arrow :: "nat \<Rightarrow> JScheduler \<Rightarrow> JScheduler" where
  "pause_arrow i s =
     (if sa_status (arrow_states s ! i) \<noteq> AActive then s
      else set_arrow_status AInactive i
             (fold (add_upstream (- 1)) (sa_downstream (arrow_states s ! i)) (add_active (- 1) s)))"

definition finish_arrow :: "nat \<Rightarrow> JScheduler \<Rightarrow> JScheduler" where
  "finish_arrow i s =
     (let old_status = sa_status (arrow_states s ! i);
          s1 = (if old_status = AActive
                then fold (add_upstream (- 1)) (sa_downstream (arrow_states s ! i)) (add_active (- 1) s) else s);
          s2 = (if old_status \<noteq> AFinalized then sched_log (FinalizeArrow (sa_arrow (arrow_states s ! i))) s1 else s1) in
      set_arrow_status AFinalized i s2)"

definition request_topology_pause :: "JScheduler \<Rightarrow> JScheduler" where
  "request_topology_pause s =
     (if topology_status s = TRunning
      then (fold pause_arrow [0 ..< length (arrow_states s)] s)\<lparr>topology_status := TPausing\<rparr>
      else s)"

fun drain_sources :: "(nat \<Rightarrow> JArrow) \<Rightarrow> nat list \<Rightarrow> JScheduler \<Rightarrow> JScheduler" where
  "drain_sources A [] s = s"
| "drain_sources A (i # is) s =
     drain_sources A is (if m_is_source (A (sa_arrow (arrow_states s ! i))) then pause_arrow i s else s)"

definition drain_topology :: "(nat \<Rightarrow> JArrow) \<Rightarrow> JScheduler \<Rightarrow> JScheduler" where
  "drain_topology A s =
     (if topology_status s = TFinalized then s
      else (drain_sources A [0 ..< length (arrow_states s)] s)\<lparr>topology_status := TDraining\<rparr>)"

definition achieve_topology_pause :: "JScheduler \<Rightarrow> JScheduler" where
  "achieve_topology_pause s =
     (if topology_status s \<in> {TRunning, TPausing, TDraining}
      then (sched_log MetricsStop s)\<lparr>topology_status := TPaused\<rparr> else s)"

definition finish_topology :: "JScheduler \<Rightarrow> JScheduler" where
  "finish_topology s =
     (fold (\<lambda>as s. if sa_status as \<noteq> AFinalized then sched_log (FinalizeArrow (sa_arrow as)) s else s) (arrow_states s) s)
       \<lparr>topology_status := TFinalized\<rparr>"

section \<open>Assignments\<close>

fun find_arrow :: "nat \<Rightarrow> nat \<Rightarrow> ArrowState list \<Rightarrow> nat result" where
  "find_arrow assignment index [] = Inl (UndefinedBehaviour ''arrow_states index'')"
| "find_arrow assignment index (as # states) =
     (if sa_arrow as \<noteq> assignment then find_arrow assignment (Suc index) states else Inr index)"

definition deactivate :: "nat \<Rightarrow> JScheduler \<Rightarrow> JScheduler" where
  "deactivate i s =
     fold (add_upstream (- 1)) (sa_downstream (arrow_states s ! i))
       (add_active (- 1) (set_arrow_status AFinalized i (sched_log (FinalizeArrow (sa_arrow (arrow_states s ! i))) s)))"

text \<open>What becomes of the arrow that was checked in, once its thread count is down.\<close>

definition settle :: "(nat \<Rightarrow> JArrow) \<Rightarrow> (nat \<Rightarrow> nat) \<Rightarrow> nat \<Rightarrow> ArrowStatus \<Rightarrow> nat \<Rightarrow> JScheduler \<Rightarrow> JScheduler" where
  "settle A pending assignment last_result index s =
     (let as = arrow_states s ! index;
          source = m_is_source (A assignment);
          drained = \<not> source \<and> sa_upstream as = 0 \<and> pending assignment = 0;
          found_inactive_source = source \<and> last_result = Finished \<and> sa_status as = AActive;
          found_draining = drained \<and> sa_threads as > 0 \<and> sa_status as = AActive;
          found_inactive = drained \<and> sa_threads as = 0 \<and> (sa_status as = ADraining \<or> sa_status as = AActive) in
      if found_inactive_source \<or> found_inactive then deactivate index s
      else if found_draining then set_arrow_status ADraining index s
      else s)"

definition checkin :: "(nat \<Rightarrow> JArrow) \<Rightarrow> (nat \<Rightarrow> nat) \<Rightarrow> nat \<Rightarrow> ArrowStatus \<Rightarrow> JScheduler \<Rightarrow> JScheduler result" where
  "checkin A pending assignment last_result s =
     rbind (find_arrow assignment 0 (arrow_states s)) (\<lambda>index.
       let s1 = settle A pending assignment last_result index (add_threads (- 1) index s) in
       Inr (if active_count s1 = 0 then achieve_topology_pause s1 else s1))"

definition eligible :: "(nat \<Rightarrow> JArrow) \<Rightarrow> ArrowState \<Rightarrow> bool" where
  "eligible A as \<longleftrightarrow> sa_status as = AActive \<and> (m_is_parallel (A (sa_arrow as)) \<or> sa_threads as = 0)"

text \<open>
  The do-while loop of \<open>checkout_unprotected\<close>: it starts at \<open>next_arrow_index\<close> and stops when it is back
  there.  The first argument bounds the number of rounds.
\<close>

fun checkout_loop :: "(nat \<Rightarrow> JArrow) \<Rightarrow> nat \<Rightarrow> nat \<Rightarrow> JScheduler \<Rightarrow> (JScheduler \<times> nat ptr) result" where
  "checkout_loop A 0 current_idx s = Inl (UndefinedBehaviour ''no end of the loop'')"
| "checkout_loop A (Suc rounds) current_idx s =
     (if current_idx < length (arrow_states s) then
        let candidate = arrow_states s ! current_idx;
            next_idx = Suc current_idx mod length (sc_arrows s) in
        if eligible A candidate
        then Inr (add_threads 1 current_idx (s\<lparr>next_arrow_index := next_idx\<rparr>), Some (sa_arrow candidate))
        else if next_idx \<noteq> next_arrow_index s then checkout_loop A rounds next_idx s
        else Inr (s, nullptr)
      else Inl (UndefinedBehaviour ''arrow_states index''))"

definition checkout_unprotected :: "(nat \<Rightarrow> JArrow) \<Rightarrow> JScheduler \<Rightarrow> (JScheduler \<times> nat ptr) result" where
  "checkout_unprotected A s = checkout_loop A (length (sc_arrows s)) (next_arrow_index s) s"

definition checkout :: "(nat \<Rightarrow> JArrow) \<Rightarrow> nat \<Rightarrow> JScheduler \<Rightarrow> JScheduler \<times> nat ptr" where
  "checkout A arrow_index s =
     (if length (arrow_states s) \<le> arrow_index then (s, nullptr)
      else
        let candidate = arrow_states s ! arrow_index in
        if (sa_status candidate = AActive \<or> sa_status candidate = AInactive)
           \<and> (m_is_parallel (A (sa_arrow candidate)) \<or> sa_threads candidate = 0)
        then (add_threads 1 arrow_index s, Some (sa_arrow candidate))
        else (s, nullptr))"

definition last_assignment ::
    "(nat \<Rightarrow> JArrow) \<Rightarrow> (nat \<Rightarrow> nat) \<Rightarrow> nat ptr \<Rightarrow> ArrowStatus \<Rightarrow> JScheduler \<Rightarrow> JScheduler result" where
  "last_assignment A pending assignment last_result s =
     (case assignment of None \<Rightarrow> Inr s | Some a \<Rightarrow> checkin A pending a last_result s)"

definition next_assignment ::
    "(nat \<Rightarrow> JArrow) \<Rightarrow> (nat \<Rightarrow> nat) \<Rightarrow> nat ptr \<Rightarrow> ArrowStatus \<Rightarrow> JScheduler \<Rightarrow> (JScheduler \<times> nat ptr) result" where
  "next_assignment A pending assignment last_result s =
     rbind (last_assignment A pending assignment last_result s) (checkout_unprotected A)"

section \<open>What the elementary updates leave alone\<close>

abbreviation states_length :: "JScheduler \<Rightarrow> nat" where
  "states_length s \<equiv> length (arrow_states s)"

abbreviation downs :: "JScheduler \<Rightarrow> nat \<Rightarrow> nat list" where
  "downs s i \<equiv> sa_downstream (arrow_states s ! i)"

definition names :: "JScheduler \<Rightarrow> nat list" where
  "names s = map sa_arrow (arrow_states s)"

definition threads :: "JScheduler \<Rightarrow> int list" where
  "threads s = map sa_threads (arrow_states s)"

definition wiring :: "JScheduler \<Rightarrow> nat list list" where
  "wiring s = map sa_downstream (arrow_states s)"

definition same_frame :: "JScheduler \<Rightarrow> JScheduler \<Rightarrow> bool" where
  "same_frame s s' \<longleftrightarrow> sc_arrows s' = sc_arrows s \<and> names s' = names s \<and> wiring s' = wiring s"

lemma map_update_same: "y = f (xs ! i) \<Longrightarrow> (map f xs)[i := y] = map f xs"
  by (cases "i < length xs") (simp_all add: list_update_same_conv list_update_beyond)

lemma states_length_names: "names s' = names s \<Longrightarrow> states_length s' = states_length s"
  unfolding names_def by (metis length_map)

lemma wiring_downs: "wiring s' = wiring s \<Longrightarrow> i < states_length s \<Longrightarrow> downs s' i = downs s i"
  unfolding wiring_def by (metis length_map nth_map)

lemma names_nth: "names s' = names s \<Longrightarrow> i < states_length s \<Longrightarrow> sa_arrow (arrow_states s' ! i) = sa_arrow (arrow_states s ! i)"
  unfolding names_def by (metis length_map nth_map)

lemma same_frame_refl [simp]: "same_frame s s"
  by (simp add: same_frame_def)

lemma same_frame_trans: "same_frame s s' \<Longrightarrow> same_frame s' s'' \<Longrightarrow> same_frame s s''"
  by (simp add: same_frame_def)

lemma same_frameD:
  assumes "same_frame s s'"
  shows "sc_arrows s' = sc_arrows s" "names s' = names s" "wiring s' = wiring s" "states_length s' = states_length s"
proof -
  show "sc_arrows s' = sc_arrows s" "names s' = names s" "wiring s' = wiring s" using assms by (simp_all add: same_frame_def)
  then show "states_length s' = states_length s" by (intro states_length_names)
qed

lemma upd_state_nth: "j < states_length s \<Longrightarrow>
    arrow_states (upd_state i f s) ! j = (if i = j then f (arrow_states s ! j) else arrow_states s ! j)"
  by (simp add: upd_state_def nth_list_update)

lemma upd_state_basic [simp]:
  "states_length (upd_state i f s) = states_length s" "topology_status (upd_state i f s) = topology_status s"
  "active_count (upd_state i f s) = active_count s" "next_arrow_index (upd_state i f s) = next_arrow_index s"
  "sc_arrows (upd_state i f s) = sc_arrows s"
  by (simp_all add: upd_state_def)

lemma upd_state_maps:
  "(\<And>as. sa_arrow (f as) = sa_arrow as) \<Longrightarrow> names (upd_state i f s) = names s"
  "(\<And>as. sa_downstream (f as) = sa_downstream as) \<Longrightarrow> wiring (upd_state i f s) = wiring s"
  "(\<And>as. sa_threads (f as) = sa_threads as) \<Longrightarrow> threads (upd_state i f s) = threads s"
  by (simp_all add: names_def wiring_def threads_def upd_state_def map_update map_update_same)

lemmas upd_defs = add_upstream_def add_threads_def set_arrow_status_def

lemma update_frames [simp]:
  "same_frame s (add_upstream n i s') = same_frame s s'" "same_frame s (add_threads n i s') = same_frame s s'"
  "same_frame s (set_arrow_status st i s') = same_frame s s'"
  by (simp_all add: same_frame_def upd_defs upd_state_maps)

lemma update_frames_more [simp]:
  "same_frame s (add_active n s') = same_frame s s'"
  "same_frame s (sched_log c s') = same_frame s s'" "same_frame s (s'\<lparr>topology_status := ts\<rparr>) = same_frame s s'"
  "same_frame s (s'\<lparr>next_arrow_index := k\<rparr>) = same_frame s s'"
  by (simp_all add: same_frame_def add_active_def sched_log_def names_def wiring_def)

lemma update_threads [simp]:
  "threads (add_upstream n i s) = threads s" "threads (set_arrow_status st i s) = threads s"
  by (simp_all add: upd_defs upd_state_maps)

lemma update_threads_more [simp]:
  "threads (add_active n s) = threads s" "threads (sched_log c s) = threads s"
  "threads (s\<lparr>topology_status := ts\<rparr>) = threads s" "threads (s\<lparr>next_arrow_index := k\<rparr>) = threads s"
  by (simp_all add: add_active_def sched_log_def threads_def)

lemma threads_add: "i < states_length s \<Longrightarrow> threads (add_threads n i s) = (threads s)[i := threads s ! i + n]"
  by (simp add: threads_def add_threads_def upd_state_def map_update)

lemma threads_nth: "i < states_length s \<Longrightarrow> threads s ! i = sa_threads (arrow_states s ! i)"
  by (simp add: threads_def)

text \<open>
  Every operation but check-in and check-out keeps the thread counts and the place where the next check-out
  starts; all of them keep the frame.
\<close>

definition calm :: "JScheduler \<Rightarrow> JScheduler \<Rightarrow> bool" where
  "calm s s' \<longleftrightarrow> same_frame s s' \<and> threads s' = threads s \<and> next_arrow_index s' = next_arrow_index s"

lemma calm_simps [simp]:
  "calm s s" "calm s (add_upstream n i s') = calm s s'" "calm s (set_arrow_status st i s') = calm s s'"
  "calm s (add_active n s') = calm s s'" "calm s (sched_log c s') = calm s s'"
  "calm s (s'\<lparr>topology_status := ts\<rparr>) = calm s s'"
  by (simp_all add: calm_def) (simp_all add: upd_defs add_active_def sched_log_def)

lemma calm_trans: "calm s s' \<Longrightarrow> calm s' s'' \<Longrightarrow> calm s s''"
  by (simp add: calm_def same_frame_def)

lemma calm_from [simp]: "calm (add_active n s) s' = calm s s'" "calm (add_upstream n i s) s' = calm s s'"
  using calm_simps(4) [of s n s] calm_simps(2) [of s n i s] by (auto simp: calm_def same_frame_def)

lemma calm_fold:
  assumes "\<And>x s. calm s (f x s)"
  shows "calm s (fold f xs s)"
proof (induction xs arbitrary: s)
  case (Cons x xs)
  from calm_trans [OF assms Cons] show ?case by simp
qed simp

lemma calm_run_arrow:
  "run_arrow fuel i s = Some s' \<Longrightarrow> calm s s'" "run_downstream fuel ds s = Some s' \<Longrightarrow> calm s s'"
proof (induction fuel i s and fuel ds s arbitrary: s' and s' rule: run_arrow_run_downstream.induct)
  case (4 fuel d ds s)
  then obtain s1 where s1: "run_arrow fuel d (add_upstream 1 d s) = Some s1" "run_downstream fuel ds s1 = Some s'"
    by (auto split: option.splits)
  from calm_trans [OF 4(1) [OF s1(1)] 4(2) [OF s1]] show ?case by simp
qed auto

lemma calm_run_sources: "run_sources A fuel is s = Some s' \<Longrightarrow> calm s s'"
proof (induction A fuel "is" s arbitrary: s' rule: run_sources.induct)
  case (2 A fuel i "is" s)
  show ?case
  proof (cases "m_is_source (A (sa_arrow (arrow_states s ! i)))")
    case True
    with 2(3) obtain s1 where s1: "run_arrow fuel i s = Some s1" "run_sources A fuel is s1 = Some s'"
      by (auto split: option.splits)
    from calm_trans [OF calm_run_arrow(1) [OF s1(1)] 2(1) [OF True s1]] show ?thesis .
  qed (use 2 in simp)
qed simp

lemma calm_run: "run_topology A fuel n s = Inr (Some s') \<Longrightarrow> calm s s'"
  by (auto simp: run_topology_def split: if_splits dest: calm_run_sources)

lemma calm_add_upstreams [simp]: "calm s (fold (add_upstream n) ds s') = calm s s'"
  by (induction ds arbitrary: s') simp_all

lemma calm_pause_arrow [simp]: "calm s (pause_arrow i s)"
  by (simp add: pause_arrow_def)

lemma calm_pause: "calm s (request_topology_pause s)"
  by (simp add: request_topology_pause_def calm_fold)

lemma calm_drain_sources: "calm s (drain_sources A is s)"
proof (induction A "is" s rule: drain_sources.induct)
  case (2 A i "is" s)
  from calm_trans [OF _ 2, of s] show ?case by (simp split: if_splits)
qed simp

lemma calm_drain: "calm s (drain_topology A s)"
  by (simp add: drain_topology_def calm_drain_sources)

lemma calm_achieve [simp]: "calm s (achieve_topology_pause s') = calm s s'"
  by (simp add: achieve_topology_pause_def)

lemma calm_finish: "calm s (finish_topology s)"
  by (simp add: finish_topology_def calm_fold)

lemma calm_initialize: "initialize_topology s = Inr s' \<Longrightarrow> calm s s'"
  by (auto simp: initialize_topology_def calm_fold split: if_splits)

lemma calm_deactivate [simp]: "calm s (deactivate i s') = calm s s'"
  by (simp add: deactivate_def)

section \<open>Check-in and check-out\<close>

lemma find_arrow_spec:
  "find_arrow a k states = Inr i \<Longrightarrow> k \<le> i \<and> i < k + length states \<and> sa_arrow (states ! (i - k)) = a"
proof (induction a k states rule: find_arrow.induct)
  case (2 a k as states)
  then show ?case by (cases "sa_arrow as = a") (auto simp: nth_Cons' Suc_diff_Suc)
qed simp

lemma find_arrow_finds: "a \<in> sa_arrow ` set states \<Longrightarrow> \<exists>i. find_arrow a k states = Inr i"
  by (induction a k states rule: find_arrow.induct) auto

lemma find_arrowD: "find_arrow a 0 (arrow_states s) = Inr i \<Longrightarrow> i < states_length s \<and> sa_arrow (arrow_states s ! i) = a"
  using find_arrow_spec [of a 0 "arrow_states s" i] by simp

lemma settle_cases:
  "settle A pending a r i s = s
   \<or> settle A pending a r i s = deactivate i s \<and> sa_status (arrow_states s ! i) \<in> {AActive, ADraining}
   \<or> settle A pending a r i s = set_arrow_status ADraining i s \<and> sa_status (arrow_states s ! i) = AActive"
  unfolding settle_def Let_def by (simp split: if_split) blast

lemma calm_settle [simp]: "calm s (settle A pending a r i s)"
  using settle_cases [of A pending a r i s] by auto

lemma checkin_threads:
  assumes "checkin A pending a r s = Inr s'"
  shows "same_frame s s' \<and> next_arrow_index s' = next_arrow_index s \<and> (\<exists>i. i < states_length s \<and> sa_arrow (arrow_states s ! i) = a
    \<and> threads s' = (threads s)[i := threads s ! i - 1])"
proof -
  from assms obtain i where i: "find_arrow a 0 (arrow_states s) = Inr i"
    and s': "s' = (let s1 = settle A pending a r i (add_threads (- 1) i s) in if active_count s1 = 0 then achieve_topology_pause s1 else s1)"
    by (auto simp: checkin_def Let_def elim!: rbind_InrE)
  have "calm (add_threads (- 1) i s) s'" using s' by (simp add: Let_def)
  moreover have "same_frame s (add_threads (- 1) i s)" by simp
  moreover have "next_arrow_index (add_threads (- 1) i s) = next_arrow_index s" by (simp add: add_threads_def)
  ultimately have "same_frame s s'" "next_arrow_index s' = next_arrow_index s" "threads s' = threads (add_threads (- 1) i s)"
    by (simp_all add: calm_def same_frame_def)
  then show ?thesis using find_arrowD [OF i] threads_add [of i s "- 1"] by auto
qed

definition takes :: "(nat \<Rightarrow> JArrow) \<Rightarrow> JScheduler \<Rightarrow> JScheduler \<Rightarrow> nat ptr \<Rightarrow> bool" where
  "takes A s s' r \<longleftrightarrow> same_frame s s' \<and>
     (case r of
        None \<Rightarrow> threads s' = threads s
      | Some a \<Rightarrow> \<exists>i. i < states_length s \<and> sa_arrow (arrow_states s ! i) = a \<and> threads s' = (threads s)[i := threads s ! i + 1]
          \<and> (m_is_parallel (A a) \<or> threads s ! i = 0))"

lemma takes_nothing: "takes A s s nullptr"
  by (simp add: takes_def)

lemma takes_one:
  assumes "i < states_length s" and "m_is_parallel (A (sa_arrow (arrow_states s ! i))) \<or> sa_threads (arrow_states s ! i) = 0"
  shows "takes A s (add_threads 1 i (s\<lparr>next_arrow_index := k\<rparr>)) (Some (sa_arrow (arrow_states s ! i)))"
proof -
  have "threads (add_threads 1 i (s\<lparr>next_arrow_index := k\<rparr>)) = (threads s)[i := threads s ! i + 1]"
    using threads_add [of i "s\<lparr>next_arrow_index := k\<rparr>" 1] assms(1) by simp
  with assms show ?thesis unfolding takes_def by (auto simp: threads_nth intro!: exI [of _ i])
qed

lemma checkout_takes: "checkout A i s = (s', r) \<Longrightarrow> takes A s s' r"
  using takes_one [of i s A "next_arrow_index s"] takes_nothing [of A s]
  by (auto simp: checkout_def Let_def not_le split: if_splits)

lemma checkout_loop_takes: "checkout_loop A rounds k s = Inr (s', r) \<Longrightarrow> takes A s s' r"
proof (induction A rounds k s rule: checkout_loop.induct)
  case (2 A rounds k s)
  then show ?case
    using takes_one [of k s A "Suc k mod length (sc_arrows s)"] takes_nothing [of A s]
    by (auto simp: Let_def eligible_def split: if_splits)
qed simp

section \<open>Workers\<close>

text \<open>
  The scheduler as its workers and its controller use it, one public method after another.  \<open>held w\<close> is the
  arrow that worker \<open>w\<close> is working on; a worker that dies of an exception just makes no further step.
  \<open>restart\<close> restricts the states in which \<open>run_topology\<close> is called.
\<close>

type_synonym crew = "nat \<Rightarrow> nat ptr"

inductive sched_step ::
    "(nat \<Rightarrow> JArrow) \<Rightarrow> nat \<Rightarrow> (JScheduler \<Rightarrow> bool) \<Rightarrow> JScheduler \<times> crew \<Rightarrow> JScheduler \<times> crew \<Rightarrow> bool"
  for A :: "nat \<Rightarrow> JArrow" and fuel :: nat and restart :: "JScheduler \<Rightarrow> bool" where
  step_next: "next_assignment A pending (held w) r s = Inr (s', a) \<Longrightarrow> sched_step A fuel restart (s, held) (s', held(w := a))"
| step_last: "last_assignment A pending (held w) r s = Inr s' \<Longrightarrow> sched_step A fuel restart (s, held) (s', held(w := None))"
| step_checkout: "held w = None \<Longrightarrow> checkout A i s = (s', a) \<Longrightarrow> sched_step A fuel restart (s, held) (s', held(w := a))"
| step_init: "initialize_topology s = Inr s' \<Longrightarrow> sched_step A fuel restart (s, held) (s', held)"
| step_run: "restart s \<Longrightarrow> run_topology A fuel n s = Inr (Some s') \<Longrightarrow> sched_step A fuel restart (s, held) (s', held)"
| step_pause: "sched_step A fuel restart (s, held) (request_topology_pause s, held)"
| step_drain: "sched_step A fuel restart (s, held) (drain_topology A s, held)"
| step_achieve: "sched_step A fuel restart (s, held) (achieve_topology_pause s, held)"
| step_finish: "sched_step A fuel restart (s, held) (finish_topology s, held)"

inductive sched_reachable ::
    "(nat \<Rightarrow> JArrow) \<Rightarrow> nat \<Rightarrow> (JScheduler \<Rightarrow> bool) \<Rightarrow> nat list \<Rightarrow> JScheduler \<times> crew \<Rightarrow> bool"
  for A :: "nat \<Rightarrow> JArrow" and fuel :: nat and restart :: "JScheduler \<Rightarrow> bool" and arrows :: "nat list" where
  sched_start: "sched_reachable A fuel restart arrows (new_JScheduler A arrows, \<lambda>_. None)"
| sched_more: "sched_reachable A fuel restart arrows c \<Longrightarrow> sched_step A fuel restart c c' \<Longrightarrow> sched_reachable A fuel restart arrows c'"

definition crewed :: "(nat \<Rightarrow> JArrow) \<Rightarrow> nat \<Rightarrow> int \<Rightarrow> crew \<Rightarrow> bool" where
  "crewed A a n held \<longleftrightarrow> n = int (card {w. held w = Some a}) \<and> (\<not> m_is_parallel (A a) \<longrightarrow> n \<le> 1)"

definition exclusive :: "(nat \<Rightarrow> JArrow) \<Rightarrow> JScheduler \<Rightarrow> crew \<Rightarrow> bool" where
  "exclusive A s held \<longleftrightarrow> distinct (names s) \<and> finite {w. held w \<noteq> None} \<and> (\<forall>w a. held w = Some a \<longrightarrow> a \<in> set (names s))
     \<and> (\<forall>i<length (names s). crewed A (names s ! i) (threads s ! i) held)"

lemma names_length [simp]: "length (names s) = states_length s" "length (threads s) = states_length s"
  by (simp_all add: names_def threads_def)

lemma names_arrow: "i < states_length s \<Longrightarrow> sa_arrow (arrow_states s ! i) = names s ! i"
  by (simp add: names_def)

lemma exclusiveI:
  assumes "distinct (names s)" and "finite {w. held w \<noteq> None}" and "\<And>w a. held w = Some a \<Longrightarrow> a \<in> set (names s)"
    and "\<And>i. i < states_length s \<Longrightarrow> crewed A (names s ! i) (threads s ! i) held"
  shows "exclusive A s held"
  using assms by (simp add: exclusive_def)

lemma exclusiveD:
  assumes "exclusive A s held"
  shows "distinct (names s)" "finite {w. held w \<noteq> None}" "held w = Some a \<Longrightarrow> a \<in> set (names s)"
    "i < states_length s \<Longrightarrow> crewed A (names s ! i) (threads s ! i) held" "finite {w. held w = Some a}"
proof -
  show "distinct (names s)" "held w = Some a \<Longrightarrow> a \<in> set (names s)"
    "i < states_length s \<Longrightarrow> crewed A (names s ! i) (threads s ! i) held"
    using assms unfolding exclusive_def names_length by blast+
  show fin: "finite {w. held w \<noteq> None}" using assms unfolding exclusive_def by blast
  show "finite {w. held w = Some a}" by (rule finite_subset [OF _ fin]) auto
qed

lemma exclusive_same:
  assumes "same_frame s s'" and "threads s' = threads s" and "exclusive A s held"
  shows "exclusive A s' held"
proof -
  from assms(1) have same: "names s' = names s" by (simp add: same_frame_def)
  from assms(3) show ?thesis unfolding exclusive_def same assms(2) .
qed

lemma exclusive_calm: "calm s s' \<Longrightarrow> exclusive A s held \<Longrightarrow> exclusive A s' held"
  unfolding calm_def by (blast intro: exclusive_same)

text \<open>One worker changes its assignment and one thread count follows.\<close>

lemma exclusive_update:
  assumes ex: "exclusive A s held" and i: "i < states_length s" and frame: "same_frame s s'"
    and threads: "threads s' = (threads s)[i := n]"
    and mine: "crewed A (names s ! i) n (held(w := r))"
    and others: "\<And>a. a \<noteq> names s ! i \<Longrightarrow> (held w = Some a) = (r = Some a)" and r: "\<And>a. r = Some a \<Longrightarrow> a \<in> set (names s)"
  shows "exclusive A s' (held(w := r))"
proof (rule exclusiveI)
  note fr = same_frameD [OF frame]
  show "distinct (names s')" using exclusiveD(1) [OF ex] fr by simp
  show "finite {w'. (held(w := r)) w' \<noteq> None}"
    by (rule finite_subset [of _ "insert w {w'. held w' \<noteq> None}"]) (use exclusiveD(2) [OF ex] in auto)
  show "a \<in> set (names s')" if "(held(w := r)) w' = Some a" for w' a
    using that r exclusiveD(3) [OF ex, of w' a] fr by (cases "w' = w") auto
  show "crewed A (names s' ! j) (threads s' ! j) (held(w := r))" if j: "j < states_length s'" for j
  proof (cases "j = i")
    case True
    with mine threads i fr show ?thesis by simp
  next
    case False
    with j i fr have "names s ! j \<noteq> names s ! i"
      using nth_eq_iff_index_eq [OF exclusiveD(1) [OF ex], of j i] by simp
    then have "{w'. (held(w := r)) w' = Some (names s ! j)} = {w'. held w' = Some (names s ! j)}"
      using others by auto
    with exclusiveD(4) [OF ex, of j] j fr threads False show ?thesis by (auto simp: crewed_def)
  qed
qed

lemma exclusive_give_back:
  assumes ex: "exclusive A s held" and w: "held w = Some a" and run: "checkin A pending a r s = Inr s'"
  shows "exclusive A s' (held(w := None))"
proof -
  from checkin_threads [OF run] obtain i where i: "i < states_length s" "names s ! i = a"
    and frame: "same_frame s s'" and threads: "threads s' = (threads s)[i := threads s ! i - 1]"
    by (auto simp: names_arrow)
  let ?n = "card {w'. held w' = Some a}"
  have "{w'. (held(w := None)) w' = Some a} = {w'. held w' = Some a} - {w}" by auto
  then have less: "card {w'. (held(w := None)) w' = Some a} = ?n - 1" using w by simp
  have "0 < ?n" using w exclusiveD(5) [OF ex, of a] card_gt_0_iff by blast
  moreover have "threads s ! i = int ?n" "\<not> m_is_parallel (A a) \<Longrightarrow> threads s ! i \<le> 1"
    using exclusiveD(4) [OF ex i(1)] unfolding i(2) crewed_def by blast+
  ultimately have "crewed A (names s ! i) (threads s ! i - 1) (held(w := None))"
    unfolding i(2) crewed_def less by (cases "m_is_parallel (A a)") linarith+
  then show ?thesis by (rule exclusive_update [OF ex i(1) frame threads]) (use w i in simp_all)
qed

lemma exclusive_take:
  assumes ex: "exclusive A s held" and w: "held w = None" and run: "takes A s s' r"
  shows "exclusive A s' (held(w := r))"
proof (cases r)
  case None
  with run have "same_frame s s'" "threads s' = threads s" by (simp_all add: takes_def)
  then have "exclusive A s' held" using ex by (rule exclusive_same)
  moreover have "held(w := r) = held" using w None by auto
  ultimately show ?thesis by simp
next
  case (Some a)
  with run obtain i where i: "i < states_length s" "names s ! i = a" and frame: "same_frame s s'"
    and threads: "threads s' = (threads s)[i := threads s ! i + 1]" and free: "m_is_parallel (A a) \<or> threads s ! i = 0"
    by (auto simp: takes_def names_arrow)
  let ?n = "card {w'. held w' = Some a}"
  have "{w'. (held(w := r)) w' = Some a} = insert w {w'. held w' = Some a}" using Some by auto
  then have more: "card {w'. (held(w := r)) w' = Some a} = Suc ?n" using w exclusiveD(5) [OF ex, of a] by simp
  have "threads s ! i = int ?n" using exclusiveD(4) [OF ex i(1)] unfolding i(2) crewed_def by blast
  then have mine: "crewed A (names s ! i) (threads s ! i + 1) (held(w := r))"
    unfolding i(2) crewed_def more using free by (cases "m_is_parallel (A a)") simp_all
  have "a \<in> set (names s)" using i by (metis names_length(1) nth_mem)
  then show ?thesis by (intro exclusive_update [OF ex i(1) frame threads mine]) (use w i Some in simp_all)
qed

lemma exclusive_last:
  assumes "exclusive A s held" and "last_assignment A pending (held w) r s = Inr s'"
  shows "exclusive A s' (held(w := None))"
proof (cases "held w")
  case None
  then have "held(w := None) = held" by auto
  with assms None show ?thesis by (simp add: last_assignment_def)
next
  case (Some a)
  with assms exclusive_give_back [OF assms(1) Some] show ?thesis by (simp add: last_assignment_def)
qed

lemma exclusive_next:
  assumes "exclusive A s held" and "next_assignment A pending (held w) r s = Inr (s', a)"
  shows "exclusive A s' (held(w := a))"
proof -
  from assms(2) obtain s1 where s1: "last_assignment A pending (held w) r s = Inr s1" "checkout_unprotected A s1 = Inr (s', a)"
    by (auto simp: next_assignment_def elim: rbind_InrE)
  from s1(2) have "takes A s1 s' a" by (simp add: checkout_unprotected_def checkout_loop_takes)
  from exclusive_take [OF exclusive_last [OF assms(1) s1(1)] _ this, of w] show ?thesis by simp
qed

lemma exclusive_step:
  assumes "sched_step A fuel restart c c'" and "exclusive A (fst c) (snd c)"
  shows "exclusive A (fst c') (snd c')"
  using assms
proof cases
  case (step_next pending held w r s s' a)
  with assms(2) exclusive_next [of A s held pending w r s' a] show ?thesis by simp
next
  case (step_last pending held w r s s')
  with assms(2) exclusive_last [of A s held pending w r s'] show ?thesis by simp
next
  case (step_checkout held w i s s' a)
  with assms(2) exclusive_take [of A s held w s' a] checkout_takes [of A i s s' a] show ?thesis by simp
next
  case (step_init s s' held)
  with assms(2) exclusive_calm [OF calm_initialize [OF step_init(3)], of A held] show ?thesis by simp
next
  case (step_run s n s' held)
  with assms(2) exclusive_calm [OF calm_run [OF step_run(4)], of A held] show ?thesis by simp
next
  case (step_pause s held)
  with assms(2) exclusive_calm [OF calm_pause, of A s held] show ?thesis by simp
next
  case (step_drain s held)
  with assms(2) exclusive_calm [OF calm_drain, of A s held A] show ?thesis by simp
next
  case (step_achieve s held)
  with assms(2) exclusive_calm [of s "achieve_topology_pause s" A held] show ?thesis by simp
next
  case (step_finish s held)
  with assms(2) exclusive_calm [OF calm_finish, of A s held] show ?thesis by simp
qed

lemma exclusive_start: "distinct arrows \<Longrightarrow> exclusive A (new_JScheduler A arrows) (\<lambda>_. None)"
  by (simp add: exclusive_def new_JScheduler_def names_def threads_def new_ArrowState_def o_def crewed_def)

lemma frame_last: "last_assignment A pending h r s = Inr s' \<Longrightarrow> same_frame s s'"
  by (auto simp: last_assignment_def split: option.splits dest: checkin_threads)

lemma frame_next: "next_assignment A pending h r s = Inr (s', a) \<Longrightarrow> same_frame s s'"
proof -
  assume "next_assignment A pending h r s = Inr (s', a)"
  then obtain s1 where s1: "last_assignment A pending h r s = Inr s1" "checkout_unprotected A s1 = Inr (s', a)"
    by (auto simp: next_assignment_def elim: rbind_InrE)
  from s1(2) have "same_frame s1 s'" using checkout_loop_takes by (auto simp: checkout_unprotected_def takes_def)
  with frame_last [OF s1(1)] show ?thesis by (rule same_frame_trans)
qed

lemma calm_frame: "calm s s' \<Longrightarrow> same_frame s s'"
  by (simp add: calm_def)

lemma frame_step: "sched_step A fuel restart c c' \<Longrightarrow> same_frame (fst c) (fst c')"
  by (induction rule: sched_step.induct)
     (auto dest: frame_next frame_last checkout_takes calm_initialize calm_run
       simp: takes_def intro: calm_frame calm_pause calm_drain calm_finish)

lemma reachable_frame: "sched_reachable A fuel restart arrows c \<Longrightarrow> same_frame (new_JScheduler A arrows) (fst c)"
  by (induction rule: sched_reachable.induct) (auto dest: frame_step intro: same_frame_trans)

lemma reachable_exclusive:
  "sched_reachable A fuel restart arrows c \<Longrightarrow> distinct arrows \<Longrightarrow> exclusive A (fst c) (snd c)"
  by (induction rule: sched_reachable.induct) (simp_all add: exclusive_start exclusive_step)

lemma new_names: "names (new_JScheduler A arrows) = arrows"
  by (simp add: new_JScheduler_def names_def new_ArrowState_def o_def)

lemma exclusive_sole:
  assumes ex: "exclusive A s held" and "held w = Some a" and "held w' = Some a" and seq: "\<not> m_is_parallel (A a)"
  shows "w = w'"
proof (rule ccontr)
  assume "w \<noteq> w'"
  from exclusiveD(3) [OF ex assms(2)] obtain i where i: "i < states_length s" "names s ! i = a" by (auto simp: in_set_conv_nth)
  from exclusiveD(4) [OF ex i(1)] seq have "card {w. held w = Some a} \<le> 1" unfolding i(2) crewed_def by linarith
  moreover have "card {w, w'} \<le> card {w. held w = Some a}"
    by (rule card_mono [OF exclusiveD(5) [OF ex]]) (use assms in auto)
  ultimately show False using \<open>w \<noteq> w'\<close> by simp
qed

text \<open>
  C7: a sequential arrow is never given to two workers.  In every state that any topology can reach, by any
  sequence of assignments, pauses, drains, restarts and explicit check-outs, two different workers hold the
  same arrow only if that arrow is parallel, and the thread count of every arrow is exactly the number of
  workers that hold it.
\<close>

theorem scheduler_exclusive:
  assumes "sched_reachable A fuel restart arrows (s, held)" and "distinct arrows"
  shows "(held w = Some a \<and> held w' = Some a \<and> w \<noteq> w' \<longrightarrow> m_is_parallel (A a))
    \<and> (i < length arrows \<longrightarrow> sa_arrow (arrow_states s ! i) = arrows ! i
         \<and> sa_threads (arrow_states s ! i) = int (card {w. held w = Some (arrows ! i)}))"
proof (intro conjI impI)
  have ex: "exclusive A s held" using reachable_exclusive [OF assms] by simp
  have names: "names s = arrows"
    using same_frameD(2) [OF reachable_frame [OF assms(1)]] by (simp add: new_names)
  have len: "states_length s = length arrows" using names_length(1) [of s] names by simp
  show "m_is_parallel (A a)" if "held w = Some a \<and> held w' = Some a \<and> w \<noteq> w'"
    using exclusive_sole [OF ex, of w a w'] that by blast
  assume i: "i < length arrows"
  show "sa_arrow (arrow_states s ! i) = arrows ! i" using names_arrow [of i s] i names len by simp
  show "sa_threads (arrow_states s ! i) = int (card {w. held w = Some (arrows ! i)})"
    using exclusiveD(4) [OF ex, of i] threads_nth [of i s] i names len by (auto simp: crewed_def)
qed

section \<open>The counters\<close>

text \<open>An arrow is live while it is active or draining.  The counters of the scheduler are meant to count live arrows.\<close>

definition is_live :: "JScheduler \<Rightarrow> nat \<Rightarrow> bool" where
  "is_live s i \<longleftrightarrow> sa_status (arrow_states s ! i) = AActive \<or> sa_status (arrow_states s ! i) = ADraining"

definition live :: "JScheduler \<Rightarrow> nat set" where
  "live s = {i. i < states_length s \<and> is_live s i}"

definition feeds :: "JScheduler \<Rightarrow> nat \<Rightarrow> nat \<Rightarrow> int" where
  "feeds s d i = int (count_list (wiring s ! i) d)"

definition counters :: "JScheduler \<Rightarrow> bool" where
  "counters s \<longleftrightarrow> active_count s = int (card (live s))
     \<and> (\<forall>d<length (arrow_states s). sa_upstream (arrow_states s ! d) = sum (feeds s d) (live s))"

text \<open>The arrows that \<open>run_topology\<close> visits, in the order in which it first counts them.\<close>

fun visit :: "nat \<Rightarrow> nat list list \<Rightarrow> nat \<Rightarrow> nat list option"
  and visits :: "nat \<Rightarrow> nat list list \<Rightarrow> nat list \<Rightarrow> nat list option" where
  "visit 0 W i = None"
| "visit (Suc fuel) W i = map_option (\<lambda>vs. i # vs) (visits fuel W (W ! i))"
| "visits fuel W [] = Some []"
| "visits fuel W (d # ds) =
     (case visit fuel W d of None \<Rightarrow> None | Some vs \<Rightarrow> map_option (\<lambda>us. vs @ us) (visits fuel W ds))"

definition run_order :: "(nat \<Rightarrow> JArrow) \<Rightarrow> nat \<Rightarrow> JScheduler \<Rightarrow> nat list option" where
  "run_order A fuel s = visits fuel (wiring s) (filter (\<lambda>i. m_is_source (A (names s ! i))) [0 ..< states_length s])"

lemma finite_live [simp]: "finite (live s)"
  by (simp add: live_def)

lemma wiring_nth: "i < states_length s \<Longrightarrow> wiring s ! i = downs s i"
  by (simp add: wiring_def)

text \<open>What a piece of the activation does: \<open>vs\<close> are the arrows activated, \<open>es\<close> the edges counted besides theirs.\<close>

definition activated :: "nat list \<Rightarrow> nat list \<Rightarrow> JScheduler \<Rightarrow> JScheduler \<Rightarrow> bool" where
  "activated vs es s s' \<longleftrightarrow> same_frame s s' \<and> active_count s' = active_count s + int (length vs)
     \<and> (\<forall>d<length (arrow_states s). sa_upstream (arrow_states s' ! d)
          = sa_upstream (arrow_states s ! d) + int (count_list es d) + sum_list (map (feeds s d) vs))
     \<and> (\<forall>i<length (arrow_states s). sa_status (arrow_states s' ! i) = (if i \<in> set vs then AActive else sa_status (arrow_states s ! i)))"

lemma feeds_frame: "same_frame s s' \<Longrightarrow> feeds s' = feeds s"
  by (rule ext)+ (simp add: feeds_def same_frame_def)

lemma activated_trans:
  assumes "activated vs es s s'" and "activated us fs s' s''"
  shows "activated (vs @ us) (es @ fs) s s''"
proof -
  from assms have fr: "same_frame s s'" by (simp add: activated_def)
  with assms show ?thesis by (auto simp: activated_def feeds_frame [OF fr] same_frameD(4) [OF fr] intro: same_frame_trans)
qed

lemma activated_add_upstream: "d < states_length s \<Longrightarrow> activated [] [d] s (add_upstream 1 d s)"
  by (simp add: activated_def upd_defs upd_state_nth) (simp add: same_frame_def upd_state_maps)

lemma activated_head:
  assumes "activated vs (wiring s ! i) (add_active 1 s) s'" and i: "i < states_length s"
  shows "activated (i # vs) [] s (set_arrow_status AActive i s')"
proof -
  have "same_frame s (add_active 1 s)" by simp
  moreover have fr: "same_frame (add_active 1 s) s'" using assms(1) by (simp add: activated_def)
  ultimately have fr': "same_frame s s'" by (rule same_frame_trans)
  have len: "states_length s' = states_length s" using same_frameD(4) [OF fr'] .
  have fd: "feeds (add_active 1 s) = feeds s" by (rule feeds_frame) simp
  have as: "arrow_states (add_active 1 s) = arrow_states s" by (simp add: add_active_def)
  from assms(1) show ?thesis
    unfolding activated_def fd as
    using fr' len by (auto simp: set_arrow_status_def upd_state_nth feeds_def add_active_def update_frames(3) [unfolded set_arrow_status_def])
qed

definition wired :: "JScheduler \<Rightarrow> bool" where
  "wired s \<longleftrightarrow> (\<forall>ds\<in>set (wiring s). \<forall>d\<in>set ds. d < states_length s)"

lemma wired_frame: "same_frame s s' \<Longrightarrow> wired s' = wired s"
  unfolding wired_def same_frame_def using states_length_names by metis

lemma wiredD: "wired s \<Longrightarrow> i < states_length s \<Longrightarrow> \<forall>d\<in>set (wiring s ! i). d < states_length s"
  by (simp add: wired_def wiring_nth) (metis length_map nth_mem wiring_def wiring_nth)

lemma add_active_views [simp]: "arrow_states (add_active n s) = arrow_states s" "wiring (add_active n s) = wiring s"
  "wired (add_active n s) = wired s"
  by (simp_all add: add_active_def wiring_def wired_def)

lemma run_arrow_activated:
  "run_arrow fuel i s = Some s' \<Longrightarrow> wired s \<Longrightarrow> i < states_length s \<Longrightarrow>
     \<exists>vs. visit fuel (wiring s) i = Some vs \<and> activated vs [] s s'"
  "run_downstream fuel ds s = Some s' \<Longrightarrow> wired s \<Longrightarrow> \<forall>d\<in>set ds. d < states_length s \<Longrightarrow>
     \<exists>vs. visits fuel (wiring s) ds = Some vs \<and> activated vs ds s s'"
proof (induction fuel i s and fuel ds s arbitrary: s' and s' rule: run_arrow_run_downstream.induct)
  case (2 fuel i s)
  then obtain s1 where s1: "run_downstream fuel (wiring s ! i) (add_active 1 s) = Some s1"
    and s': "s' = set_arrow_status AActive i s1" by (auto simp: wiring_nth)
  from 2(1) [of s1] s1 2(3,4) wiredD [OF 2(3,4)] obtain vs
    where vs: "visits fuel (wiring s) (wiring s ! i) = Some vs" "activated vs (wiring s ! i) (add_active 1 s) s1"
    by (auto simp: wiring_nth)
  from activated_head [OF vs(2) 2(4)] vs(1) s' show ?case by simp
next
  case (3 fuel s)
  then show ?case by (simp add: activated_def)
next
  case (4 fuel d ds s)
  then obtain s1 where s1: "run_arrow fuel d (add_upstream 1 d s) = Some s1" "run_downstream fuel ds s1 = Some s'"
    by (auto split: option.splits)
  have fr: "same_frame s (add_upstream 1 d s)" by simp
  have d: "d < states_length s" using 4 by simp
  from 4(1) [OF s1(1)] 4(4) d obtain vs where vs: "visit fuel (wiring s) d = Some vs" "activated vs [] (add_upstream 1 d s) s1"
    using wired_frame [OF fr] same_frameD(3,4) [OF fr] by auto
  have r1: "activated vs [d] s s1" using activated_trans [OF activated_add_upstream [OF d] vs(2)] by simp
  then have fr1: "same_frame s s1" by (simp add: activated_def)
  from 4(2) [OF s1] 4(4,5) obtain us where us: "visits fuel (wiring s) ds = Some us" "activated us ds s1 s'"
    using wired_frame [OF fr1] same_frameD(3,4) [OF fr1] by auto
  from activated_trans [OF r1 us(2)] vs(1) us(1) show ?case by simp
qed simp

lemma run_sources_activated:
  "run_sources A fuel is s = Some s' \<Longrightarrow> wired s \<Longrightarrow> \<forall>i\<in>set is. i < states_length s \<Longrightarrow>
     \<exists>vs. visits fuel (wiring s) (filter (\<lambda>i. m_is_source (A (names s ! i))) is) = Some vs \<and> activated vs [] s s'"
proof (induction A fuel "is" s arbitrary: s' rule: run_sources.induct)
  case (1 A fuel s)
  then show ?case by (simp add: activated_def)
next
  case (2 A fuel i "is" s)
  have i: "i < states_length s" using 2 by simp
  show ?case
  proof (cases "m_is_source (A (sa_arrow (arrow_states s ! i)))")
    case True
    with 2(3) obtain s1 where s1: "run_arrow fuel i s = Some s1" "run_sources A fuel is s1 = Some s'"
      by (auto split: option.splits)
    from run_arrow_activated(1) [OF s1(1) 2(4) i] obtain vs
      where vs: "visit fuel (wiring s) i = Some vs" "activated vs [] s s1" by blast
    then have fr: "same_frame s s1" by (simp add: activated_def)
    from 2(1) [OF True s1] 2(4,5) obtain us
      where us: "visits fuel (wiring s) (filter (\<lambda>i. m_is_source (A (names s ! i))) is) = Some us" "activated us [] s1 s'"
      using wired_frame [OF fr] same_frameD(2-4) [OF fr] by auto
    from activated_trans [OF vs(2) us(2)] vs(1) us(1) True show ?thesis by (simp add: names_arrow [OF i])
  next
    case False
    with 2 show ?thesis by (simp add: names_arrow)
  qed
qed

lemma visits_range:
  "visit fuel W i = Some vs \<Longrightarrow> \<forall>ds\<in>set W. \<forall>d\<in>set ds. d < length W \<Longrightarrow> i < length W \<Longrightarrow> set vs \<subseteq> {..<length W}"
  "visits fuel W ds = Some vs \<Longrightarrow> \<forall>ds\<in>set W. \<forall>d\<in>set ds. d < length W \<Longrightarrow> \<forall>d\<in>set ds. d < length W \<Longrightarrow> set vs \<subseteq> {..<length W}"
proof (induction fuel W i and fuel W ds arbitrary: vs and vs rule: visit_visits.induct)
  case (2 fuel W i)
  then obtain us where us: "visits fuel W (W ! i) = Some us" "vs = i # us" by auto
  from 2(3,4) have "\<forall>d\<in>set (W ! i). d < length W" using nth_mem by blast
  with 2(1) [OF us(1) 2(3)] us 2(4) show ?case by simp
next
  case (4 fuel W d ds)
  from 4(3) obtain us ws where "visit fuel W d = Some us" "visits fuel W ds = Some ws" "vs = us @ ws"
    by (auto split: option.splits)
  with 4(1) [of us] 4(2) [of us ws] 4(4,5) show ?case by simp
qed simp_all

text \<open>From a state with nothing live, the activation of distinct arrows leaves right counters.\<close>

lemma counters_activated:
  assumes act: "activated vs [] s s'" and "counters s" and none: "live s = {}" and "distinct vs"
    and vs: "set vs \<subseteq> {..<length (arrow_states s)}"
  shows "counters s' \<and> live s' = set vs"
proof -
  from act have fr: "same_frame s s'" by (simp add: activated_def)
  note len = same_frameD(4) [OF fr]
  have live: "live s' = set vs"
    using none vs act by (auto simp: live_def is_live_def activated_def len split: if_splits)
  then show ?thesis using assms
    by (simp add: counters_def activated_def len feeds_frame [OF fr] distinct_card sum_list_distinct_conv_sum_set)
qed

text \<open>An operation that concerns neither the counters nor which arrows are live.\<close>

definition quiet :: "JScheduler \<Rightarrow> JScheduler \<Rightarrow> bool" where
  "quiet s s' \<longleftrightarrow> same_frame s s' \<and> active_count s' = active_count s \<and> live s' = live s
     \<and> (\<forall>d<length (arrow_states s). sa_upstream (arrow_states s' ! d) = sa_upstream (arrow_states s ! d))"

lemma counters_quiet: "quiet s s' \<Longrightarrow> counters s' = counters s"
proof -
  assume q: "quiet s s'"
  then have fr: "same_frame s s'" by (simp add: quiet_def)
  from q show ?thesis by (simp add: counters_def quiet_def feeds_frame [OF fr] same_frameD(4) [OF fr])
qed

lemma quiet_refl [simp]: "quiet s s"
  by (simp add: quiet_def)

lemma quiet_same: "arrow_states s' = arrow_states s \<Longrightarrow> active_count s' = active_count s \<Longrightarrow> sc_arrows s' = sc_arrows s \<Longrightarrow> quiet s s'"
  by (simp add: quiet_def same_frame_def names_def wiring_def live_def is_live_def)

lemma quiet_trans: "quiet s s' \<Longrightarrow> quiet s' s'' \<Longrightarrow> quiet s s''"
proof -
  assume q: "quiet s s'" "quiet s' s''"
  then have "same_frame s s'" by (simp add: quiet_def)
  from q same_frameD(4) [OF this] show ?thesis by (auto simp: quiet_def intro: same_frame_trans)
qed

lemma quiet_add_threads: "quiet s (add_threads n i s)"
  by (auto simp: quiet_def live_def is_live_def add_threads_def upd_state_nth same_frame_def upd_state_maps split: if_splits)

lemma quiet_draining: "sa_status (arrow_states s ! i) = AActive \<Longrightarrow> quiet s (set_arrow_status ADraining i s)"
  by (auto simp: quiet_def live_def is_live_def set_arrow_status_def upd_state_nth same_frame_def upd_state_maps split: if_splits)

text \<open>One live arrow stops being live.\<close>

definition stopped :: "nat \<Rightarrow> JScheduler \<Rightarrow> JScheduler \<Rightarrow> bool" where
  "stopped i s s' \<longleftrightarrow> same_frame s s' \<and> i \<in> live s \<and> live s' = live s - {i} \<and> active_count s' = active_count s - 1
     \<and> (\<forall>d<length (arrow_states s). sa_upstream (arrow_states s' ! d) = sa_upstream (arrow_states s ! d) - feeds s d i)"

lemma counters_stopped:
  assumes "stopped i s s'" and "counters s"
  shows "counters s'"
proof -
  from assms(1) have fr: "same_frame s s'" and i: "i \<in> live s" by (simp_all add: stopped_def)
  have "card (live s) > 0" using i card_gt_0_iff by fastforce
  moreover have "sum (feeds s d) (live s - {i}) = sum (feeds s d) (live s) - feeds s d i" for d
    using i by (simp add: sum_diff1)
  ultimately show ?thesis using assms i
    by (simp add: counters_def stopped_def same_frameD(4) [OF fr] feeds_frame [OF fr] of_nat_diff)
qed

lemma add_upstreams_nth: "d < states_length s \<Longrightarrow> arrow_states (fold (add_upstream n) ds s) ! d =
    (arrow_states s ! d)\<lparr>sa_upstream := sa_upstream (arrow_states s ! d) + n * int (count_list ds d)\<rparr>"
  by (induction ds arbitrary: s) (auto simp: add_upstream_def upd_state_nth algebra_simps)

lemma add_upstreams_basic [simp]: "states_length (fold (add_upstream n) ds s) = states_length s"
  "active_count (fold (add_upstream n) ds s) = active_count s"
  by (induction ds arbitrary: s) (auto simp: add_upstream_def)

lemma stopped_pause_arrow:
  assumes "i < states_length s"
  shows "pause_arrow i s = s \<or> stopped i s (pause_arrow i s)"
proof (cases "sa_status (arrow_states s ! i) = AActive")
  case True
  have "same_frame s (pause_arrow i s)" using calm_pause_arrow by (rule calm_frame)
  with True assms show ?thesis
    by (auto simp: stopped_def pause_arrow_def live_def is_live_def set_arrow_status_def upd_state_nth add_upstreams_nth
        feeds_def wiring_nth add_active_def split: if_splits)
qed (simp add: pause_arrow_def)

lemma stopped_deactivate:
  assumes "i < states_length s" and "sa_status (arrow_states s ! i) \<in> {AActive, ADraining}"
  shows "stopped i s (deactivate i s)"
proof -
  have "same_frame s (deactivate i s)" by (rule calm_frame) simp
  with assms show ?thesis
    by (auto simp: stopped_def deactivate_def live_def is_live_def set_arrow_status_def upd_state_nth add_upstreams_nth
        feeds_def wiring_nth add_active_def sched_log_def split: if_splits)
qed


lemma counters_pause_arrow: "i < states_length s \<Longrightarrow> counters s \<Longrightarrow> counters (pause_arrow i s)"
  using stopped_pause_arrow [of i s] counters_stopped by metis

lemma pause_arrow_length: "states_length (pause_arrow i s) = states_length s"
  by (rule same_frameD(4) [OF calm_frame]) simp

lemma counters_pauses: "\<forall>i\<in>set is. i < states_length s \<Longrightarrow> counters s \<Longrightarrow> counters (fold pause_arrow is s)"
  by (induction "is" arbitrary: s) (simp_all add: counters_pause_arrow pause_arrow_length)

lemma counters_drain_sources: "\<forall>i\<in>set is. i < states_length s \<Longrightarrow> counters s \<Longrightarrow> counters (drain_sources A is s)"
  by (induction A "is" s rule: drain_sources.induct) (auto simp: counters_pause_arrow pause_arrow_length)

lemma counters_status [simp]: "counters (s\<lparr>topology_status := t\<rparr>) = counters s"
  by (rule counters_quiet) (simp add: quiet_same)

lemma counters_log [simp]: "counters (sched_log c s) = counters s"
  by (rule counters_quiet) (simp add: quiet_same sched_log_def)

lemma counters_next [simp]: "counters (s\<lparr>next_arrow_index := k\<rparr>) = counters s"
  by (rule counters_quiet) (simp add: quiet_same)

lemma counters_threads [simp]: "counters (add_threads n i s) = counters s"
  by (rule counters_quiet) (rule quiet_add_threads)

lemma counters_fold_log: "(\<And>x s. counters (f x s) = counters s) \<Longrightarrow> counters (fold f xs s) = counters s"
  by (induction xs arbitrary: s) simp_all

lemma counters_settle: "i < states_length s \<Longrightarrow> counters s \<Longrightarrow> counters (settle A pending a r i s)"
  using settle_cases [of A pending a r i s] stopped_deactivate [of i s] counters_stopped quiet_draining [of s i] counters_quiet
  by metis

lemma counters_achieve [simp]: "counters (achieve_topology_pause s) = counters s"
  by (simp add: achieve_topology_pause_def)

lemma checkinE:
  assumes "checkin A pending a r s = Inr s'"
  obtains i s1 where "i < states_length s" "names s ! i = a" "s1 = settle A pending a r i (add_threads (- 1) i s)"
    "s' = (if active_count s1 = 0 then achieve_topology_pause s1 else s1)"
proof -
  from assms obtain i where i: "find_arrow a 0 (arrow_states s) = Inr i"
    and s': "s' = (let s1 = settle A pending a r i (add_threads (- 1) i s) in if active_count s1 = 0 then achieve_topology_pause s1 else s1)"
    by (auto simp: checkin_def Let_def elim!: rbind_InrE)
  from that find_arrowD [OF i] s' show ?thesis by (auto simp: Let_def names_arrow)
qed

lemma counters_checkin: "checkin A pending a r s = Inr s' \<Longrightarrow> counters s \<Longrightarrow> counters s'"
proof (erule checkinE)
  fix i s1
  assume i: "i < states_length s" and s1: "s1 = settle A pending a r i (add_threads (- 1) i s)"
    and s': "s' = (if active_count s1 = 0 then achieve_topology_pause s1 else s1)" and "counters s"
  moreover have "states_length (add_threads (- 1) i s) = states_length s" by (simp add: add_threads_def)
  ultimately have "counters s1" using counters_settle [of i "add_threads (- 1) i s"] by simp
  with s' show "counters s'" by simp
qed

lemma counters_last: "last_assignment A pending h r s = Inr s' \<Longrightarrow> counters s \<Longrightarrow> counters s'"
  by (auto simp: last_assignment_def counters_checkin split: option.splits)

lemma counters_checkout_loop: "checkout_loop A rounds k s = Inr (s', r) \<Longrightarrow> counters s' = counters s"
  by (induction A rounds k s rule: checkout_loop.induct) (auto simp: Let_def split: if_splits)

lemma counters_next_assignment: "next_assignment A pending h r s = Inr (s', a) \<Longrightarrow> counters s \<Longrightarrow> counters s'"
  by (auto simp: next_assignment_def checkout_unprotected_def counters_last counters_checkout_loop elim!: rbind_InrE)

lemma counters_checkout: "checkout A i s = (s', a) \<Longrightarrow> counters s' = counters s"
  by (auto simp: checkout_def Let_def split: if_splits)

lemma length_wiring [simp]: "length (wiring s) = states_length s"
  by (simp add: wiring_def)

text \<open>\<open>run_topology\<close> keeps the counters right when nothing is live and no arrow is reached along two paths.\<close>

definition idle :: "JScheduler \<Rightarrow> bool" where
  "idle s \<longleftrightarrow> active_count s = 0"

lemma idle_live: "counters s \<Longrightarrow> idle s \<longleftrightarrow> live s = {}"
  by (simp add: counters_def idle_def)

lemma counters_run:
  assumes "run_topology A fuel n s = Inr (Some s')" and "idle s" and "counters s" and "wired s"
    and "run_order A fuel s = Some vs" and "distinct vs"
  shows "counters s'"
proof (cases "topology_status s = TRunning \<or> topology_status s = TFinalized")
  case True
  with assms show ?thesis by (auto simp: run_topology_def)
next
  case False
  with assms(1) obtain s1 where s1: "run_sources A fuel [0 ..< length (arrow_states s)] s = Some s1"
    and s': "s' = (sched_log (MetricsStart n) (sched_log MetricsReset s1))\<lparr>topology_status := TRunning\<rparr>"
    by (auto simp: run_topology_def split: if_splits)
  from run_sources_activated [OF s1 assms(4)] assms(5) have act: "activated vs [] s s1" by (simp add: run_order_def)
  have "set vs \<subseteq> {..<length (arrow_states s)}"
    using visits_range(2) [of fuel "wiring s" _ vs] assms(4,5) by (simp add: run_order_def wired_def)
  from counters_activated [OF act assms(3) _ assms(6) this] assms(2,3) s' show ?thesis by (simp add: idle_live)
qed


lemma counters_step:
  assumes "sched_step A fuel idle c c'" and "counters (fst c)" and "wired (fst c)"
    and "run_order A fuel (fst c) = Some vs" and "distinct vs"
  shows "counters (fst c')"
  using assms
proof cases
  case (step_init s s' held)
  with assms(2) show ?thesis by (auto simp: initialize_topology_def counters_fold_log split: if_splits)
next
  case (step_run s n s' held)
  with assms show ?thesis by (auto intro: counters_run)
qed (auto simp: request_topology_pause_def drain_topology_def finish_topology_def counters_pauses
       counters_drain_sources counters_fold_log counters_checkout dest: counters_next_assignment counters_last)

lemma om_put_values: "snd ` set (om_put k v m) \<subseteq> insert v (snd ` set m)"
  by (induction k v m rule: om_put.induct) auto

lemma number_arrows_range: "snd ` set (number_arrows i arrows m) \<subseteq> snd ` set m \<union> {i ..< i + length arrows}"
proof (induction i arrows m rule: number_arrows.induct)
  case (2 i a arrows m)
  have "{i ..< i + length (a # arrows)} = insert i {Suc i ..< Suc i + length arrows}" by auto
  with 2 om_put_values [of a i m] show ?case by (simp only: number_arrows.simps) blast
qed simp

lemma arrow_number_range: "arrows \<noteq> [] \<Longrightarrow> arrow_number d (number_arrows 0 arrows []) < length arrows"
proof (cases "om_find d (number_arrows 0 arrows [])")
  case (Some i)
  then have "i \<in> snd ` set (number_arrows 0 arrows [])" using om_find_in [OF Some] by (simp add: rev_image_eqI)
  with number_arrows_range [of 0 arrows "[]"] Some show ?thesis by (auto simp: arrow_number_def)
qed (simp add: arrow_number_def)

lemma wired_new: "wired (new_JScheduler A arrows)"
proof (cases "arrows = []")
  case False
  with arrow_number_range [OF False] show ?thesis
    by (simp add: wired_def wiring_def new_JScheduler_def new_ArrowState_def)
qed (simp add: wired_def wiring_def new_JScheduler_def)

lemma counters_new: "counters (new_JScheduler A arrows)"
proof -
  have "live (new_JScheduler A arrows) = {}"
    by (auto simp: live_def is_live_def new_JScheduler_def new_ArrowState_def)
  then show ?thesis by (simp add: counters_def) (simp add: new_JScheduler_def new_ArrowState_def)
qed

lemma run_order_frame: "same_frame s s' \<Longrightarrow> run_order A fuel s' = run_order A fuel s"
  using same_frameD [of s s'] by (simp add: run_order_def)

lemma reachable_counters:
  assumes "sched_reachable A fuel idle arrows c"
    and "run_order A fuel (new_JScheduler A arrows) = Some vs" and "distinct vs"
  shows "counters (fst c)"
  using assms(1)
proof (induction rule: sched_reachable.induct)
  case (sched_more c c')
  note fr = reachable_frame [OF sched_more(1)]
  show ?case
    by (rule counters_step [OF sched_more(2,3) _ _ assms(3)])
       (simp_all add: wired_frame [OF fr] wired_new run_order_frame [OF fr] assms(2))
qed (simp add: counters_new)

section \<open>Choosing an arrow\<close>

text \<open>The specification of \<open>checkout_unprotected\<close>: the first eligible arrow in cyclic order.\<close>

definition assign_first :: "(nat \<Rightarrow> JArrow) \<Rightarrow> JScheduler \<Rightarrow> nat list \<Rightarrow> JScheduler \<times> nat ptr" where
  "assign_first A s is = (case find (\<lambda>i. eligible A (arrow_states s ! i)) is of
     None \<Rightarrow> (s, nullptr)
   | Some i \<Rightarrow> (add_threads 1 i (s\<lparr>next_arrow_index := Suc i mod length (sc_arrows s)\<rparr>), Some (sa_arrow (arrow_states s ! i))))"

definition cyclic_from :: "nat \<Rightarrow> nat \<Rightarrow> nat list" where
  "cyclic_from x n = map (\<lambda>k. (x + k) mod n) [0 ..< n]"

definition indexed :: "JScheduler \<Rightarrow> bool" where
  "indexed s \<longleftrightarrow> states_length s = length (sc_arrows s) \<and> next_arrow_index s < length (sc_arrows s)"

lemma indexed_pos: "indexed s \<Longrightarrow> 0 < length (sc_arrows s)"
  unfolding indexed_def by linarith

lemma assign_first_Cons: "assign_first A s (i # is) =
    (if eligible A (arrow_states s ! i)
     then (add_threads 1 i (s\<lparr>next_arrow_index := Suc i mod length (sc_arrows s)\<rparr>), Some (sa_arrow (arrow_states s ! i)))
     else assign_first A s is)"
  by (simp add: assign_first_def)

lemma assign_first_Nil: "assign_first A s [] = (s, nullptr)"
  by (simp add: assign_first_def)

lemma cyclic_step: "(x::nat) < n \<Longrightarrow> j < n \<Longrightarrow> (x + Suc j) mod n = x \<longleftrightarrow> Suc j = n"
proof (cases "x + Suc j < n")
  case False
  assume "x < n" "j < n"
  with False have "(x + Suc j) mod n = x + Suc j - n" by (simp add: mod_if)
  with False show ?thesis by linarith
qed simp

lemma checkout_loop_scans:
  assumes "indexed s" and "j < length (sc_arrows s)" and "rounds = length (sc_arrows s) - j"
    and "k = (next_arrow_index s + j) mod length (sc_arrows s)"
  shows "checkout_loop A rounds k s =
    Inr (assign_first A s (map (\<lambda>k. (next_arrow_index s + k) mod length (sc_arrows s)) [j ..< length (sc_arrows s)]))"
  using assms(2-)
proof (induction rounds arbitrary: j k)
  case (Suc rounds)
  define n where "n = length (sc_arrows s)"
  define x where "x = next_arrow_index s"
  have len: "states_length s = n" and x: "x < n" using assms(1) by (simp_all add: indexed_def n_def x_def)
  have j: "j < n" "Suc rounds = n - j" and k: "k = (x + j) mod n" using Suc(2-4) by (simp_all add: n_def x_def)
  have kn: "k < n" using k x by simp
  have nx: "Suc k mod n = (x + Suc j) mod n" using k by (simp add: mod_Suc_eq)
  have upt: "[j ..< n] = j # [Suc j ..< n]" using j by (simp add: upt_conv_Cons)
  have IH: "checkout_loop A rounds (Suc k mod n) s = Inr (assign_first A s (map (\<lambda>k. (x + k) mod n) [Suc j ..< n]))"
    if "Suc j < n"
  proof -
    from j(2) have "rounds = n - Suc j" by linarith
    from Suc(1) [OF that [unfolded n_def] this [unfolded n_def] nx [unfolded n_def x_def]] show ?thesis
      unfolding n_def x_def .
  qed
  show ?case unfolding n_def [symmetric] x_def [symmetric] upt list.map assign_first_Cons k [symmetric]
    using IH cyclic_step [OF x j(1)] j(1) kn len nx
    by (cases "Suc j = n") (simp_all add: Let_def n_def [symmetric] x_def [symmetric] assign_first_Nil)
qed simp

lemma checkout_assigns:
  assumes "indexed s"
  shows "checkout_unprotected A s = Inr (assign_first A s (cyclic_from (next_arrow_index s) (length (sc_arrows s))))"
proof -
  have "next_arrow_index s = (next_arrow_index s + 0) mod length (sc_arrows s)" using assms by (simp add: indexed_def)
  from checkout_loop_scans [OF assms indexed_pos [OF assms] _ this, of "length (sc_arrows s)" A] show ?thesis
    by (simp add: checkout_unprotected_def cyclic_from_def)
qed

text \<open>In every reachable state the index is in range.\<close>

lemma indexed_same: "same_frame s s' \<Longrightarrow> next_arrow_index s' = next_arrow_index s \<Longrightarrow> indexed s' = indexed s"
  using same_frameD [of s s'] by (simp add: indexed_def)

lemma indexed_calm: "calm s s' \<Longrightarrow> indexed s' = indexed s"
  unfolding calm_def by (rule indexed_same) simp_all

lemma indexed_last: "last_assignment A pending h r s = Inr s' \<Longrightarrow> indexed s' = indexed s"
  by (cases h) (simp_all add: last_assignment_def indexed_same checkin_threads)

lemma indexed_assign: "indexed s \<Longrightarrow> assign_first A s is = (s', a) \<Longrightarrow> indexed s'"
  using indexed_pos [of s] mod_less_divisor [of "length (sc_arrows s)"]
  by (auto simp: assign_first_def indexed_def add_threads_def split: option.splits)

lemma indexed_next: "next_assignment A pending h r s = Inr (s', a) \<Longrightarrow> indexed s \<Longrightarrow> indexed s'"
proof -
  assume "next_assignment A pending h r s = Inr (s', a)" and "indexed s"
  then obtain s1 where "last_assignment A pending h r s = Inr s1" "checkout_unprotected A s1 = Inr (s', a)"
    by (auto simp: next_assignment_def elim!: rbind_InrE)
  with indexed_last [of A pending h r s s1] \<open>indexed s\<close> show ?thesis by (simp add: checkout_assigns indexed_assign)
qed

lemma indexed_checkout: "checkout A i s = (s', a) \<Longrightarrow> indexed s' = indexed s"
  by (auto simp: checkout_def Let_def indexed_def add_threads_def split: if_splits)

lemma indexed_step: "sched_step A fuel restart c c' \<Longrightarrow> indexed (fst c) \<Longrightarrow> indexed (fst c')"
  by (induction rule: sched_step.induct)
     (auto simp: indexed_last indexed_checkout dest: indexed_next indexed_calm [OF calm_initialize] indexed_calm [OF calm_run]
       indexed_calm [OF calm_pause, THEN iffD2] indexed_calm [OF calm_drain, THEN iffD2]
       indexed_calm [OF calm_finish, THEN iffD2] indexed_calm [OF calm_achieve [THEN iffD2, OF calm_simps(1)], THEN iffD2])

lemma reachable_indexed: "sched_reachable A fuel restart arrows c \<Longrightarrow> arrows \<noteq> [] \<Longrightarrow> indexed (fst c)"
  by (induction rule: sched_reachable.induct) (auto simp: new_JScheduler_def indexed_def dest: indexed_step [unfolded indexed_def])


lemma checkin_total: "exclusive A s held \<Longrightarrow> held w = Some a \<Longrightarrow> \<exists>s'. checkin A pending a r s = Inr s'"
  using exclusiveD(3) [of A s held w a] find_arrow_finds [of a "arrow_states s" 0]
  by (auto simp: checkin_def names_def Let_def)

lemma reachable_names: "sched_reachable A fuel restart arrows c \<Longrightarrow> names (fst c) = arrows"
  using reachable_frame same_frameD(2) by (metis new_names)

lemma cyclic_from_set: "x < n \<Longrightarrow> set (cyclic_from x n) = {i. i < n}"
proof (intro equalityI subsetI)
  fix i
  assume x: "x < n" and "i \<in> {i. i < n}"
  then have "i = (x + (i + n - x) mod n) mod n" by (simp add: mod_add_right_eq)
  moreover have "(i + n - x) mod n \<in> {0 ..< n}" using x by simp
  ultimately show "i \<in> set (cyclic_from x n)" unfolding cyclic_from_def set_map set_upt by (rule image_eqI)
qed (auto simp: cyclic_from_def)

lemma settle_closes:
  assumes "\<not> is_live (settle A pending a r i (add_threads (- 1) i s)) i" and "i < length (arrow_states s)" and "is_live s i"
    and "\<not> m_is_source (A a)"
  shows "pending a = 0 \<and> sa_threads (arrow_states s ! i) = 1 \<and> sa_upstream (arrow_states s ! i) = 0"
proof -
  let ?s = "add_threads (- 1) i s"
  have at: "arrow_states ?s ! i = (arrow_states s ! i)\<lparr>sa_threads := sa_threads (arrow_states s ! i) - 1\<rparr>"
    using assms(2) by (simp add: add_threads_def upd_state_nth)
  have "is_live ?s i" "is_live (set_arrow_status ADraining i ?s) i"
    using assms(2,3) at by (simp_all add: is_live_def set_arrow_status_def add_threads_def upd_state_nth)
  with assms(1,4) at show ?thesis by (auto simp: settle_def Let_def split: if_splits)
qed

text \<open>
  C16: whatever a worker reports, the scheduler answers, and it answers fairly.  In every reachable state the
  search for the worker's arrow stays within the table, the check-in returns, and the do-while loop of
  \<open>checkout_unprotected\<close> ends after at most one turn: it hands out the first eligible arrow in the cyclic
  order that starts just after the arrow handed out last, or \<open>nullptr\<close> exactly when no arrow is eligible.
\<close>

theorem next_assignment_fair:
  assumes "sched_reachable A fuel restart arrows (s, held)" and "distinct arrows" and "arrows \<noteq> []"
  shows "\<exists>s1. last_assignment A pending (held w) r s = Inr s1
    \<and> next_assignment A pending (held w) r s = Inr (assign_first A s1 (cyclic_from (next_arrow_index s1) (length arrows)))
    \<and> set (cyclic_from (next_arrow_index s1) (length arrows)) = {i. i < length (arrow_states s1)}"
proof -
  have ex: "exclusive A s held" using reachable_exclusive [OF assms(1,2)] by simp
  have "\<exists>s1. last_assignment A pending (held w) r s = Inr s1"
    using checkin_total [OF ex, of w] by (cases "held w") (simp_all add: last_assignment_def)
  then obtain s1 where s1: "last_assignment A pending (held w) r s = Inr s1" by blast
  have ix: "indexed s1" using reachable_indexed [OF assms(1,3)] indexed_last [OF s1] by simp
  have "states_length s1 = length arrows"
    using same_frameD(4) [OF frame_last [OF s1]] reachable_names [OF assms(1)] names_length(1) [of s] by simp
  moreover from this ix have "length (sc_arrows s1) = length arrows" "next_arrow_index s1 < length arrows"
    by (simp_all add: indexed_def)
  ultimately show ?thesis
    using s1 checkout_assigns [OF ix, of A] cyclic_from_set [of "next_arrow_index s1" "length arrows"]
    by (simp add: next_assignment_def)
qed


text \<open>
  C12: a stage is closed last.  Under the same conditions, when a worker's check-in takes an arrow that is not
  a source out of service, nothing was waiting for that arrow, no other worker was working on it, and no
  arrow that feeds it was active or draining.
\<close>

theorem stage_closes_last:
  assumes "sched_reachable A fuel idle arrows (s, held)" and "distinct arrows"
    and "run_order A fuel (new_JScheduler A arrows) = Some vs" and "distinct vs"
    and "held w = Some (arrows ! i)" and "i < length arrows" and "\<not> m_is_source (A (arrows ! i))"
    and "checkin A pending (arrows ! i) r s = Inr s'" and "is_live s i" and "\<not> is_live s' i"
  shows "pending (arrows ! i) = 0 \<and> {w'. held w' = Some (arrows ! i)} = {w}
    \<and> (j < length arrows \<and> is_live s j \<longrightarrow> i \<notin> set (sa_downstream (arrow_states s ! j)))"
proof -
  have ex: "exclusive A s held" and c: "counters s"
    using reachable_exclusive [OF assms(1,2)] reachable_counters [OF assms(1,3,4)] by simp_all
  have names: "names s = arrows" using reachable_names [OF assms(1)] by simp
  have len: "states_length s = length arrows" using names names_length(1) [of s] by simp
  from assms(8) obtain k s1 where k: "k < states_length s" "names s ! k = arrows ! i"
    and s1: "s1 = settle A pending (arrows ! i) r k (add_threads (- 1) k s)"
    and s': "s' = (if active_count s1 = 0 then achieve_topology_pause s1 else s1)" by (rule checkinE)
  have ki: "k = i" using k names len assms(2,6) by (simp add: nth_eq_iff_index_eq)
  have "is_live s1 i = is_live s' i" using s' by (simp add: is_live_def achieve_topology_pause_def sched_log_def)
  with assms(10) have dead: "\<not> is_live s1 i" by simp
  have i: "i < states_length s" using assms(6) len by simp
  note closed = settle_closes [OF dead [unfolded s1 ki] i assms(9,7)]
  from closed have "sa_threads (arrow_states s ! i) = 1" by simp
  then have "card {w'. held w' = Some (arrows ! i)} = 1"
    using exclusiveD(4) [OF ex i] threads_nth [OF i] names by (auto simp: crewed_def)
  moreover have "w \<in> {w'. held w' = Some (arrows ! i)}" using assms(5) by simp
  ultimately have "{w'. held w' = Some (arrows ! i)} = {w}" by (metis card_1_singletonE singletonD)
  moreover have "i \<notin> set (sa_downstream (arrow_states s ! j))" if "j < length arrows" "is_live s j"
  proof -
    have "sum (feeds s i) (live s) = 0" using c closed i by (simp add: counters_def)
    then have "feeds s i j = 0"
      using sum_nonneg_eq_0_iff [of "live s" "feeds s i"] that len by (auto simp: feeds_def live_def)
    then show ?thesis using that len by (simp add: feeds_def wiring_nth count_list_0_iff)
  qed
  ultimately show ?thesis using closed by blast
qed

section \<open>Where the counters go wrong\<close>

lemma visits_roots:
  "visit fuel W i = Some vs \<Longrightarrow> i \<in> set vs"
  "visits fuel W ds = Some vs \<Longrightarrow> set ds \<subseteq> set vs"
  by (induction fuel W i and fuel W ds arbitrary: vs and vs rule: visit_visits.induct) (fastforce split: option.splits)+

text \<open>
  Running again reactivates finished sources.  Whenever \<open>run_topology\<close> starts a topology, every source
  ends up active, also one that has been finalized before.
\<close>

theorem run_reactivates_sources:
  assumes "run_topology A fuel n s = Inr (Some s')" and "topology_status s \<noteq> TRunning" and "topology_status s \<noteq> TFinalized"
    and "wired s" and "i < length (arrow_states s)" and "m_is_source (A (sa_arrow (arrow_states s ! i)))"
  shows "sa_status (arrow_states s' ! i) = AActive"
proof -
  from assms(1-3) obtain s1 where s1: "run_sources A fuel [0 ..< length (arrow_states s)] s = Some s1"
    and s': "s' = (sched_log (MetricsStart n) (sched_log MetricsReset s1))\<lparr>topology_status := TRunning\<rparr>"
    by (auto simp: run_topology_def split: if_splits)
  from run_sources_activated [OF s1 assms(4)] obtain vs where act: "activated vs [] s s1"
    and vs: "visits fuel (wiring s) (filter (\<lambda>i. m_is_source (A (names s ! i))) [0 ..< length (arrow_states s)]) = Some vs"
    by auto
  from visits_roots(2) [OF vs] assms(5,6) have "i \<in> set vs" by (auto simp: names_arrow)
  with act assms(5) s' show ?thesis by (simp add: activated_def sched_log_def)
qed

section \<open>Sample runs\<close>

definition sample_stage :: "bool \<Rightarrow> nat list \<Rightarrow> JArrow" where
  "sample_stage source ds = (new_JArrow ''a'' (\<not> source) source (ds = []) 1)\<lparr>m_listeners := ds\<rparr>"

definition chain_arrows :: "nat \<Rightarrow> JArrow" where
  "chain_arrows a = (if a = 10 then sample_stage True [20] else sample_stage False [])"

definition chain_state ::
    "SchedStatus \<Rightarrow> int \<Rightarrow> SchedStatus \<Rightarrow> int \<Rightarrow> int \<Rightarrow> TopologyStatus \<Rightarrow> int \<Rightarrow> nat \<Rightarrow> sched_call list \<Rightarrow> JScheduler" where
  "chain_state st t st' t' u ts n k calls =
     \<lparr>sc_arrows = [10, 20],
      arrow_states = [\<lparr>sa_arrow = 10, sa_status = st, sa_threads = t, sa_upstream = 0, sa_downstream = [1]\<rparr>,
                      \<lparr>sa_arrow = 20, sa_status = st', sa_threads = t', sa_upstream = u, sa_downstream = []\<rparr>],
      topology_status = ts, active_count = n, next_arrow_index = k,
      sc_calls = [InitializeArrow 10, InitializeArrow 20, MetricsReset, MetricsStart 4] @ calls\<rparr>"

definition chain_crew :: "nat ptr \<Rightarrow> nat ptr \<Rightarrow> crew" where
  "chain_crew a b = (\<lambda>w. if w = 0 then a else if w = 1 then b else None)"

lemma chain_crew_upd: "(chain_crew a b)(0 := c) = chain_crew c b" "(chain_crew a b)(1 := c) = chain_crew a c"
  by (auto simp: chain_crew_def)

lemma chain_crew_none: "chain_crew None None = (\<lambda>_. None)"
  by (auto simp: chain_crew_def)

lemmas sched_eval = new_JScheduler_def new_ArrowState_def arrow_number_def om_find_def chain_arrows_def sample_stage_def
  new_JArrow_def initialize_topology_def run_topology_def set_arrow_status_def upd_state_def add_active_def add_upstream_def
  add_threads_def sched_log_def chain_state_def next_assignment_def last_assignment_def checkout_unprotected_def
  eligible_def checkin_def settle_def deactivate_def Let_def achieve_topology_pause_def chain_crew_def

lemma chain_started: "sched_reachable chain_arrows 2 idle [10, 20]
    (chain_state AActive 0 AActive 0 1 TRunning 2 0 [], chain_crew None None)"
proof -
  have "initialize_topology (new_JScheduler chain_arrows [10, 20])
      = Inr ((new_JScheduler chain_arrows [10, 20])\<lparr>topology_status := TPaused, sc_calls := [InitializeArrow 10, InitializeArrow 20]\<rparr>)"
    (is "_ = Inr ?s") by (simp add: initialize_topology_def new_JScheduler_def sched_log_def)
  from sched_more [OF sched_start step_init [OF this]]
  have r: "sched_reachable chain_arrows 2 idle [10, 20] (?s, \<lambda>_. None)" .
  have "idle ?s" by (simp add: idle_def new_JScheduler_def)
  moreover have "run_topology chain_arrows 2 4 ?s = Inr (Some (chain_state AActive 0 AActive 0 1 TRunning 2 0 []))"
    by (simp add: sched_eval upt_rec numeral_2_eq_2)
  ultimately have "sched_step chain_arrows 2 idle (?s, \<lambda>_. None) (chain_state AActive 0 AActive 0 1 TRunning 2 0 [], \<lambda>_. None)"
    by (rule step_run)
  from sched_more [OF r this] show ?thesis by (simp add: chain_crew_none)
qed

lemma chain_next:
  assumes "sched_reachable chain_arrows 2 idle [10, 20] (s, held)"
    and "next_assignment chain_arrows (\<lambda>_. 0) (held w) r s = Inr (s', a)" and "held(w := a) = held'"
  shows "sched_reachable chain_arrows 2 idle [10, 20] (s', held')"
  using sched_more [OF assms(1) step_next [where held = held and w = w, OF assms(2)]] assms(3) by simp

lemma chain_busy: "sched_reachable chain_arrows 2 idle [10, 20]
    (chain_state AActive 1 AActive 1 1 TRunning 2 0 [], chain_crew (Some 10) (Some 20))"
proof -
  have a: "sched_reachable chain_arrows 2 idle [10, 20]
      (chain_state AActive 1 AActive 0 1 TRunning 2 1 [], chain_crew (Some 10) None)"
    by (rule chain_next [OF chain_started _ chain_crew_upd(1), of KeepGoing]) (simp add: sched_eval)
  show ?thesis
    by (rule chain_next [OF a _ chain_crew_upd(2), of KeepGoing]) (simp add: sched_eval)
qed

lemma chain_source_done: "sched_reachable chain_arrows 2 idle [10, 20]
    (chain_state AFinalized 0 AActive 2 0 TRunning 1 0 [FinalizeArrow 10], chain_crew (Some 20) (Some 20))"
  by (rule chain_next [OF chain_busy _ chain_crew_upd(1), of Finished]) (simp add: sched_eval)

lemma chain_last_worker: "sched_reachable chain_arrows 2 idle [10, 20]
    (chain_state AFinalized 0 ADraining 1 0 TRunning 1 0 [FinalizeArrow 10], chain_crew None (Some 20))"
  by (rule chain_next [OF chain_source_done _ chain_crew_upd(1), of ComeBackLater]) (simp add: sched_eval)

lemma chain_closing: "checkin chain_arrows (\<lambda>_. 0) 20 ComeBackLater
      (chain_state AFinalized 0 ADraining 1 0 TRunning 1 0 [FinalizeArrow 10])
    = Inr (chain_state AFinalized 0 AFinalized 0 0 TPaused 0 0 [FinalizeArrow 10, FinalizeArrow 20, MetricsStop])"
  by (simp add: sched_eval)

lemma chain_order: "run_order chain_arrows 2 (new_JScheduler chain_arrows [10, 20]) = Some [0, 1]"
  by (simp add: run_order_def wiring_def names_def sched_eval numeral_2_eq_2 upt_rec)

theorem scheduler_exclusive_witness:
  "m_is_parallel (chain_arrows 20)
    \<and> sa_threads (arrow_states (chain_state AFinalized 0 AActive 2 0 TRunning 1 0 [FinalizeArrow 10]) ! 1)
        = int (card {w. chain_crew (Some 20) (Some 20) w = Some 20})"
  using scheduler_exclusive [OF chain_source_done, of 0 20 1 1] by (simp add: chain_crew_def)

theorem next_assignment_fair_witness:
  "\<exists>s1. last_assignment chain_arrows (\<lambda>_. 0) (Some 10) Finished (chain_state AActive 1 AActive 1 1 TRunning 2 0 []) = Inr s1
    \<and> next_assignment chain_arrows (\<lambda>_. 0) (Some 10) Finished (chain_state AActive 1 AActive 1 1 TRunning 2 0 [])
        = Inr (assign_first chain_arrows s1 (cyclic_from (next_arrow_index s1) 2))
    \<and> set (cyclic_from (next_arrow_index s1) 2) = {i. i < length (arrow_states s1)}"
  using next_assignment_fair [OF chain_busy, of "\<lambda>_. 0" 0 Finished] by (simp add: chain_crew_def numeral_2_eq_2)


theorem stage_closes_last_witness:
  "{w'. chain_crew None (Some 20) w' = Some 20} = {1}
    \<and> 1 \<notin> set (sa_downstream (arrow_states (chain_state AFinalized 0 ADraining 1 0 TRunning 1 0 [FinalizeArrow 10]) ! 1))"
  using stage_closes_last [OF chain_last_worker _ chain_order, of 1 1 "\<lambda>_. 0" ComeBackLater _ 1] chain_closing
  by (simp add: is_live_def) (simp add: chain_state_def chain_crew_def chain_arrows_def sample_stage_def new_JArrow_def)

lemma chain_rerun: "run_topology chain_arrows 2 4
      (chain_state AFinalized 0 AFinalized 0 0 TPaused 0 0 [FinalizeArrow 10, FinalizeArrow 20, MetricsStop])
    = Inr (Some (chain_state AActive 0 AActive 0 1 TRunning 2 0
        [FinalizeArrow 10, FinalizeArrow 20, MetricsStop, MetricsReset, MetricsStart 4]))"
  by (simp add: sched_eval upt_rec numeral_2_eq_2)

theorem run_reactivates_sources_witness:
  "sa_status (arrow_states (chain_state AFinalized 0 AFinalized 0 0 TPaused 0 0
       [FinalizeArrow 10, FinalizeArrow 20, MetricsStop]) ! 0) = AFinalized
    \<and> sa_status (arrow_states (chain_state AActive 0 AActive 0 1 TRunning 2 0
       [FinalizeArrow 10, FinalizeArrow 20, MetricsStop, MetricsReset, MetricsStart 4]) ! 0) = AActive"
  using run_reactivates_sources [OF chain_rerun, of 0]
  by (simp add: chain_state_def wired_def wiring_def chain_arrows_def sample_stage_def new_JArrow_def)

text \<open>Two sources that feed one stage.\<close>

definition diamond_arrows :: "nat \<Rightarrow> JArrow" where
  "diamond_arrows a = (if a = 10 \<or> a = 11 then sample_stage True [20] else sample_stage False [])"

definition diamond_state :: "SchedStatus \<Rightarrow> SchedStatus \<Rightarrow> SchedStatus \<Rightarrow> int \<Rightarrow> int \<Rightarrow> int \<Rightarrow> int \<Rightarrow> int \<Rightarrow> nat \<Rightarrow> sched_call list \<Rightarrow> JScheduler" where
  "diamond_state st1 st2 st3 t1 t2 t3 u n k calls =
     \<lparr>sc_arrows = [10, 11, 20],
      arrow_states = [\<lparr>sa_arrow = 10, sa_status = st1, sa_threads = t1, sa_upstream = 0, sa_downstream = [2]\<rparr>,
                      \<lparr>sa_arrow = 11, sa_status = st2, sa_threads = t2, sa_upstream = 0, sa_downstream = [2]\<rparr>,
                      \<lparr>sa_arrow = 20, sa_status = st3, sa_threads = t3, sa_upstream = u, sa_downstream = []\<rparr>],
      topology_status = TRunning, active_count = n, next_arrow_index = k,
      sc_calls = [InitializeArrow 10, InitializeArrow 11, InitializeArrow 20, MetricsReset, MetricsStart 1] @ calls\<rparr>"

lemma diamond_started: "sched_reachable diamond_arrows 2 idle [10, 11, 20]
    (diamond_state AActive AActive AActive 0 0 0 2 4 0 [], \<lambda>_. None)"
proof -
  have "initialize_topology (new_JScheduler diamond_arrows [10, 11, 20])
      = Inr ((new_JScheduler diamond_arrows [10, 11, 20])
          \<lparr>topology_status := TPaused, sc_calls := [InitializeArrow 10, InitializeArrow 11, InitializeArrow 20]\<rparr>)"
    (is "_ = Inr ?s") by (simp add: initialize_topology_def new_JScheduler_def sched_log_def)
  from sched_more [OF sched_start step_init [OF this]]
  have r: "sched_reachable diamond_arrows 2 idle [10, 11, 20] (?s, \<lambda>_. None)" .
  have "idle ?s" by (simp add: idle_def new_JScheduler_def)
  moreover have "run_topology diamond_arrows 2 1 ?s = Inr (Some (diamond_state AActive AActive AActive 0 0 0 2 4 0 []))"
    by (simp add: sched_eval diamond_arrows_def diamond_state_def upt_rec numeral_2_eq_2)
  ultimately have "sched_step diamond_arrows 2 idle (?s, \<lambda>_. None) (diamond_state AActive AActive AActive 0 0 0 2 4 0 [], \<lambda>_. None)"
    by (rule step_run)
  from sched_more [OF r this] show ?thesis .
qed

lemma diamond_next:
  assumes "sched_reachable diamond_arrows 2 idle [10, 11, 20] (s, (\<lambda>_. None)(0 := h))"
    and "next_assignment diamond_arrows (\<lambda>_. 0) h r s = Inr (s', a)"
  shows "sched_reachable diamond_arrows 2 idle [10, 11, 20] (s', (\<lambda>_. None)(0 := a))"
  using sched_more [OF assms(1) step_next [where held = "(\<lambda>_. None)(0 := h)" and w = 0 and pending = "\<lambda>_. 0" and r = r]] assms(2)
  by simp

text \<open>
  A stage with two upstream paths is counted twice.  With two sources that feed one stage,
  \<open>run_topology\<close> counts four live arrows where there are three.  After the one worker has seen both sources
  finish and the stage drain, every arrow is finalized and nobody holds one, but the count is 1, so the
  topology is still running and the worker is idle for ever.
\<close>

theorem diamond_never_pauses:
  "\<exists>s. sched_reachable diamond_arrows 2 idle [10, 11, 20] (s, \<lambda>_. None)
    \<and> map sa_status (arrow_states s) = [AFinalized, AFinalized, AFinalized] \<and> active_count s = 1 \<and> topology_status s = TRunning
    \<and> (\<forall>pending r. next_assignment diamond_arrows pending None r s = Inr (s, nullptr))"
proof (intro exI conjI allI)
  let ?calls = "[FinalizeArrow 10, FinalizeArrow 11, FinalizeArrow 20]"
  let ?s = "diamond_state AFinalized AFinalized AFinalized 0 0 0 0 1 0 ?calls"
  note ev = sched_eval diamond_arrows_def diamond_state_def
  have r0: "sched_reachable diamond_arrows 2 idle [10, 11, 20]
      (diamond_state AActive AActive AActive 0 0 0 2 4 0 [], (\<lambda>_. None)(0 := None))"
    using diamond_started by (simp add: fun_upd_def)
  have r1: "sched_reachable diamond_arrows 2 idle [10, 11, 20]
      (diamond_state AActive AActive AActive 1 0 0 2 4 1 [], (\<lambda>_. None)(0 := Some 10))"
    by (rule diamond_next [OF r0, of KeepGoing]) (simp add: ev)
  have r2: "sched_reachable diamond_arrows 2 idle [10, 11, 20]
      (diamond_state AFinalized AActive AActive 0 1 0 1 3 2 [FinalizeArrow 10], (\<lambda>_. None)(0 := Some 11))"
    by (rule diamond_next [OF r1, of Finished]) (simp add: ev)
  have r3: "sched_reachable diamond_arrows 2 idle [10, 11, 20]
      (diamond_state AFinalized AFinalized AActive 0 0 1 0 2 0 [FinalizeArrow 10, FinalizeArrow 11], (\<lambda>_. None)(0 := Some 20))"
    by (rule diamond_next [OF r2, of Finished]) (simp add: ev)
  have "sched_reachable diamond_arrows 2 idle [10, 11, 20] (?s, (\<lambda>_. None)(0 := None))"
    by (rule diamond_next [OF r3, of ComeBackLater]) (simp add: ev)
  then show "sched_reachable diamond_arrows 2 idle [10, 11, 20] (?s, \<lambda>_. None)" by (simp add: fun_upd_def)
  show "map sa_status (arrow_states ?s) = [AFinalized, AFinalized, AFinalized]" "active_count ?s = 1" "topology_status ?s = TRunning"
    by (simp_all add: diamond_state_def)
  show "next_assignment diamond_arrows pending None r ?s = Inr (?s, nullptr)" for pending r by (simp add: ev)
qed

end
