(* ===== verification/Processor.thy ===== *)
theory Processor
  imports Event ArrowMetrics
begin

text \<open>
  The components that are driven by events: \<open>JEventProcessor.h\<close>, \<open>JMultifactory.h\<close>/\<open>.cc\<close> and
  \<open>JEventUnfolder.h\<close>, with the arrows that call them (\<open>JEventProcessorArrow.cc\<close>,
  \<open>JEventMapArrow.cc\<close>).  Registered parameters, services, resources, inputs and outputs are framework
  calls; user callbacks and framework calls are recorded in one trace.
\<close>

section \<open>Components with registered members\<close>

datatype framework_call =
    FwConfigure nat | FwService nat | FwPrefetch nat nat | FwFetch nat nat | FwResource nat int
  | FwResetOutput nat | FwInsertOutput nat nat

datatype trace_item = UserCb callback | FwCb framework_call

type_synonym framework = "framework_call \<Rightarrow> JException option"

record component =
  cs_id :: component_id
  cs_status :: ComponentStatus
  cs_style :: CallbackStyle
  cs_last_run :: int
  cs_parameters :: "nat list"
  cs_services :: "nat list"
  cs_resources :: "nat list"
  cs_inputs :: "nat list"
  cs_outputs :: "nat list"
  cs_trace :: "trace_item list"

fun user_calls :: "trace_item list \<Rightarrow> callback list" where
  "user_calls [] = []"
| "user_calls (UserCb cb # t) = cb # user_calls t"
| "user_calls (FwCb fc # t) = user_calls t"

definition cs_call :: "user_code \<Rightarrow> string \<Rightarrow> callback \<Rightarrow> ('z component_scheme, unit) action" where
  "cs_call u func_name cb = (\<lambda>c.
     let c' = c\<lparr>cs_trace := cs_trace c @ [UserCb cb]\<rparr> in
     case u cb (user_calls (cs_trace c)) of
       None \<Rightarrow> (c', Inr ())
     | Some t \<Rightarrow> (c', Inl (CallWithJExceptionWrapper func_name (cs_id c) t)))"

fun fw_each :: "framework \<Rightarrow> framework_call list \<Rightarrow> ('z component_scheme, unit) action" where
  "fw_each fw [] c = (c, Inr ())"
| "fw_each fw (fc # fcs) c =
     (let c' = c\<lparr>cs_trace := cs_trace c @ [FwCb fc]\<rparr> in
      case fw fc of None \<Rightarrow> fw_each fw fcs c' | Some ex \<Rightarrow> (c', Inl ex))"

definition set_status :: "ComponentStatus \<Rightarrow> 'z component_scheme \<Rightarrow> 'z component_scheme" where
  "set_status st c = c\<lparr>cs_status := st\<rparr>"

definition set_last_run :: "int \<Rightarrow> 'z component_scheme \<Rightarrow> 'z component_scheme" where
  "set_last_run r c = c\<lparr>cs_last_run := r\<rparr>"

section \<open>Event processors\<close>

record JEventProcessor = component +
  ep_event_count :: nat

definition JEventProcessor_DoInitialize :: "user_code \<Rightarrow> framework \<Rightarrow> (JEventProcessor, unit) action" where
  "JEventProcessor_DoInitialize u fw = (\<lambda>p.
     athen (fw_each fw (map FwConfigure (cs_parameters p)))
    (athen (fw_each fw (map FwService (cs_services p)))
    (athen (cs_call u ''JEventProcessor::Init'' CbInit)
           (amodify (set_status CInitialized)))) p)"

definition ep_change_run :: "user_code \<Rightarrow> framework \<Rightarrow> int \<Rightarrow> (JEventProcessor, unit) action" where
  "ep_change_run u fw run_number = (\<lambda>p.
     athen (awhen (\<lambda>p. cs_last_run p \<noteq> -1) (cs_call u ''JEventProcessor::EndRun'' CbEndRun))
    (athen (fw_each fw (map (\<lambda>i. FwResource i run_number) (cs_resources p)))
    (athen (amodify (set_last_run run_number))
           (cs_call u ''JEventProcessor::BeginRun'' (CbBeginRun run_number)))) p)"

definition JEventProcessor_DoReduce ::
    "user_code \<Rightarrow> framework \<Rightarrow> int \<times> nat \<Rightarrow> (JEventProcessor, unit) action" where
  "JEventProcessor_DoReduce u fw e =
     athen (\<lambda>p. if cs_status p = CUninitialized then JEventProcessor_DoInitialize u fw p
                else if cs_status p = CFinalized
                then (p, Inl (new_JException ''JEventProcessor: Attempted to call DoMap() after Finalize()''))
                else (p, Inr ()))
    (athen (awhen (\<lambda>p. cs_last_run p \<noteq> fst e) (ep_change_run u fw (fst e)))
    (athen (\<lambda>p. fw_each fw (map (\<lambda>i. FwFetch i (snd e)) (cs_inputs p)) p)
    (athen (cs_call u ''JEventProcessor::Process'' (CbProcess (fst e) (snd e)))
           (amodify (\<lambda>p. p\<lparr>ep_event_count := sz_add (ep_event_count p) 1\<rparr>)))))"

definition JEventProcessor_DoMap ::
    "user_code \<Rightarrow> framework \<Rightarrow> int \<times> nat \<Rightarrow> (JEventProcessor, unit) action" where
  "JEventProcessor_DoMap u fw e =
     athen (\<lambda>p. fw_each fw (map (\<lambda>i. FwPrefetch i (snd e)) (cs_inputs p)) p)
           (awhen (\<lambda>p. cs_style p \<noteq> DeclarativeMode) (JEventProcessor_DoReduce u fw e))"

definition JEventProcessor_DoFinalize :: "user_code \<Rightarrow> (JEventProcessor, unit) action" where
  "JEventProcessor_DoFinalize u =
     awhen (\<lambda>p. cs_status p \<noteq> CFinalized)
       (athen (awhen (\<lambda>p. cs_last_run p \<noteq> -1) (cs_call u ''JEventProcessor::EndRun'' CbEndRun))
       (athen (cs_call u ''JEventProcessor::Finish'' CbFinish)
              (amodify (set_status CFinalized))))"

section \<open>The arrow that runs the processors\<close>

fun each_processor ::
    "(nat \<Rightarrow> (JEventProcessor, unit) action) \<Rightarrow> nat \<Rightarrow> (JEventProcessor list, unit) action" where
  "each_processor op i [] = ([], Inr ())"
| "each_processor op i (p # ps) =
     (case op i p of
        (p', Inl ex) \<Rightarrow> (p' # ps, Inl ex)
      | (p', Inr _) \<Rightarrow> (case each_processor op (i + 1) ps of (ps', r) \<Rightarrow> (p' # ps', r)))"

definition JEventProcessorArrow_process ::
    "(nat \<Rightarrow> user_code) \<Rightarrow> framework \<Rightarrow> int \<times> nat \<Rightarrow> (JEventProcessor list, bool \<times> ArrowStatus) action" where
  "JEventProcessorArrow_process u fw e =
     athen (each_processor (\<lambda>i. JEventProcessor_DoMap (u i) fw e) 0) (areturn (True, KeepGoing))"

definition JEventProcessorArrow_initialize ::
    "(nat \<Rightarrow> user_code) \<Rightarrow> framework \<Rightarrow> (JEventProcessor list, unit) action" where
  "JEventProcessorArrow_initialize u fw = each_processor (\<lambda>i. JEventProcessor_DoInitialize (u i) fw) 0"

definition JEventProcessorArrow_finalize :: "(nat \<Rightarrow> user_code) \<Rightarrow> (JEventProcessor list, unit) action" where
  "JEventProcessorArrow_finalize u = each_processor (\<lambda>i. JEventProcessor_DoFinalize (u i)) 0"

section \<open>Unfolders\<close>

datatype UnfoldResult = NextChildNextParent | NextChildKeepParent | KeepChildNextParent

record JEventUnfolder = component +
  m_enable_simplified_callbacks :: bool
  m_child_level :: JEventLevel
  m_child_number :: int
  m_call_preprocess_upstream :: bool

text \<open>What \<open>Unfold\<close> returns is a function of the callbacks made so far.\<close>

type_synonym unfold_code = "callback list \<Rightarrow> UnfoldResult"

definition JEventUnfolder_DoInit :: "user_code \<Rightarrow> framework \<Rightarrow> (JEventUnfolder, unit) action" where
  "JEventUnfolder_DoInit u fw = (\<lambda>c.
     athen (fw_each fw (map FwConfigure (cs_parameters c)))
    (athen (fw_each fw (map FwService (cs_services c)))
           (\<lambda>c. if cs_status c = CUninitialized
                then athen (cs_call u ''JEventUnfolder::Init'' CbInit) (amodify (set_status CInitialized)) c
                else (c, Inl (new_JException
                       ''JEventUnfolder: Attempting to initialize twice or from an invalid state'')))) c)"

definition DoPreprocess :: "user_code \<Rightarrow> framework \<Rightarrow> nat \<Rightarrow> (JEventUnfolder, unit) action" where
  "DoPreprocess u fw parent_nr = (\<lambda>c.
     if cs_status c \<noteq> CInitialized
     then (c, Inl (new_JException
        ''JEventUnfolder: Component needs to be initialized and not finalized before Unfold can be called''))
     else
       athen (fw_each fw (map (\<lambda>i. FwPrefetch i parent_nr) (cs_inputs c)))
             (awhen (\<lambda>c. cs_style c \<noteq> DeclarativeMode)
                (cs_call u ''JEventUnfolder::Preprocess'' (CbPreprocess parent_nr))) c)"

definition unf_change_run :: "user_code \<Rightarrow> framework \<Rightarrow> int \<Rightarrow> (JEventUnfolder, unit) action" where
  "unf_change_run u fw run_number = (\<lambda>c.
     athen (fw_each fw (map (\<lambda>i. FwResource i run_number) (cs_resources c)))
    (athen (cs_call u ''JEventUnfolder::ChangeRun'' (CbChangeRun run_number))
           (amodify (set_last_run run_number))) c)"

definition call_unfold ::
    "user_code \<Rightarrow> unfold_code \<Rightarrow> nat \<Rightarrow> nat \<Rightarrow> (JEventUnfolder, UnfoldResult) action" where
  "call_unfold u v parent_nr child_nr = (\<lambda>c.
     athen (cs_call u ''JEventUnfolder::Unfold'' (CbUnfold parent_nr child_nr (nat (m_child_number c))))
           (areturn (v (user_calls (cs_trace c)))) c)"

text \<open>
  \<open>DoUnfold\<close> works on the unfolder and on the child event; the parent is given by its run and event
  number.
\<close>

definition DoUnfold ::
    "user_code \<Rightarrow> unfold_code \<Rightarrow> framework \<Rightarrow> int \<times> nat \<Rightarrow> JEvent \<Rightarrow> JEventUnfolder
     \<Rightarrow> (JEventUnfolder \<times> JEvent) \<times> (JException + UnfoldResult)" where
  "DoUnfold u v fw parent child c =
     (if cs_status c = CInitialized then
        let child' = SetEventIndex (m_child_number c) child in
        case
          athen (awhen (\<lambda>c. \<not> m_call_preprocess_upstream c \<and> \<not> m_enable_simplified_callbacks c)
                   (cs_call u ''JEventUnfolder::Preprocess'' (CbPreprocess (snd parent))))
         (athen (awhen (\<lambda>c. cs_last_run c \<noteq> fst parent) (unf_change_run u fw (fst parent)))
         (athen (fw_each fw (map (\<lambda>i. FwFetch i (snd parent)) (cs_inputs c)))
                (fw_each fw (map FwResetOutput (cs_outputs c))))) c of
          (c1, Inl ex) \<Rightarrow> ((c1, child), Inl ex)
        | (c1, Inr _) \<Rightarrow>
            (case
               abind (call_unfold u v (snd parent) (mEventNumber child)) (\<lambda>result.
               athen (\<lambda>c. fw_each fw (map (\<lambda>i. FwInsertOutput i (mEventNumber child)) (cs_outputs c)) c)
              (athen (amodify (\<lambda>c. c\<lparr>m_child_number := m_child_number c + 1\<rparr>))
              (athen (awhen (\<lambda>_. result = NextChildNextParent \<or> result = KeepChildNextParent)
                        (amodify (\<lambda>c. c\<lparr>m_child_number := 0\<rparr>)))
                     (areturn result)))) c1 of (c2, r) \<Rightarrow> ((c2, child'), r))
      else ((c, child), Inl (new_JException
              ''Component needs to be initialized and not finalized before Unfold can be called'')))"

definition JEventUnfolder_DoFinish :: "user_code \<Rightarrow> (JEventUnfolder, unit) action" where
  "JEventUnfolder_DoFinish u =
     awhen (\<lambda>c. cs_status c \<noteq> CFinalized)
       (athen (cs_call u ''JEventUnfolder::Finish'' CbFinish) (amodify (set_status CFinalized)))"

section \<open>Multifactories\<close>

text \<open>
  A multifactory fills several factories, its helpers, in one \<open>Process\<close>.  Its state is the component
  and the heap that holds the helpers.  During a callback the user may call \<open>SetData\<close>: the calls are
  given by \<open>d\<close>, each with the type and the tag of the output.
\<close>

record JMultifactory = component +
  mHelpers :: JFactorySet
  mFactoryName :: string
  mf_level :: JEventLevel

type_synonym 'a mf_state = "JMultifactory \<times> 'a fheap"

type_synonym 'a mf_data = "callback \<Rightarrow> callback list \<Rightarrow> (string \<times> string \<times> 'a list) list"

definition DeclareOutput :: "string \<Rightarrow> string \<Rightarrow> bool \<Rightarrow> fptr \<Rightarrow> 'a mf_state \<Rightarrow> 'a mf_state result" where
  "DeclareOutput T tag owns_data helper = (\<lambda>(mf, H).
     let fac = new_JFactory T T [];
         fac1 = (if \<not> owns_data then SetFactoryFlag NOT_OBJECT_OWNER fac else fac);
         fac2 = fac1\<lparr>fac_id := (fac_id fac1)\<lparr>m_plugin_name := m_plugin_name (cs_id mf), m_type_name := mFactoryName mf\<rparr>\<rparr>;
         H' = H(helper := SetLevel (mf_level mf) (SetTag tag fac2));
         helpers = (mHelpers mf)\<lparr>mLevel := mf_level mf\<rparr> in
     rbind (JFactorySet_Add H' helper helpers) (\<lambda>helpers'. Inr (mf\<lparr>mHelpers := helpers'\<rparr>, H')))"

definition SetData :: "string \<Rightarrow> string \<Rightarrow> 'a list \<Rightarrow> ('a mf_state, unit) action" where
  "SetData T tag data = (\<lambda>(mf, H).
     case JFactorySet_GetFactoryT H T T tag (mHelpers mf) of
       Inr (Some helper) \<Rightarrow> ((mf, H(helper := Set_copy data (H helper))), Inr ())
     | Inr None \<Rightarrow> ((mf, H), Inl (blame (cs_id mf) ''JMultifactory::SetData''
          (new_JException ''JMultifactory: Attempting to SetData() without corresponding DeclareOutput()'')))
     | Inl _ \<Rightarrow> ((mf, H), Inl (new_JException ''Factory belongs to a different level on the event hierarchy'')))"

fun set_data_each :: "(string \<times> string \<times> 'a list) list \<Rightarrow> ('a mf_state, unit) action" where
  "set_data_each [] s = (s, Inr ())"
| "set_data_each ((T, tag, data) # rest) s = athen (SetData T tag data) (set_data_each rest) s"

definition mf_call :: "user_code \<Rightarrow> 'a mf_data \<Rightarrow> string \<Rightarrow> callback \<Rightarrow> ('a mf_state, unit) action" where
  "mf_call u d func_name cb = (\<lambda>(mf, H).
     let history = user_calls (cs_trace mf); mf' = mf\<lparr>cs_trace := cs_trace mf @ [UserCb cb]\<rparr> in
     case set_data_each (d cb history) (mf', H) of
       (s, Inl ex) \<Rightarrow> (s, Inl (CallWithJExceptionWrapper func_name (cs_id mf) (ThrowJException ex)))
     | (s, Inr _) \<Rightarrow>
         (case u cb history of
            None \<Rightarrow> (s, Inr ())
          | Some t \<Rightarrow> (s, Inl (CallWithJExceptionWrapper func_name (cs_id mf) t))))"

definition on_mf :: "(JMultifactory \<Rightarrow> JMultifactory) \<Rightarrow> ('a mf_state, unit) action" where
  "on_mf f = amodify (\<lambda>(mf, H). (f mf, H))"

definition JMultifactory_DoInit :: "user_code \<Rightarrow> 'a mf_data \<Rightarrow> ('a mf_state, unit) action" where
  "JMultifactory_DoInit u d =
     awhen (\<lambda>(mf, H). cs_status mf = CUninitialized)
       (athen (mf_call u d ''JMultifactory::Init'' CbInit) (on_mf (set_status CInitialized)))"

definition mf_change_run :: "user_code \<Rightarrow> 'a mf_data \<Rightarrow> int \<Rightarrow> ('a mf_state, unit) action" where
  "mf_change_run u d run_number = (\<lambda>(mf, H).
     if cs_last_run mf = -1 then
       athen (mf_call u d ''JMultifactory::BeginRun'' (CbBeginRun run_number))
             (on_mf (set_last_run run_number)) (mf, H)
     else if cs_last_run mf \<noteq> run_number then
       athen (mf_call u d ''JMultifactory::EndRun'' CbEndRun)
      (athen (mf_call u d ''JMultifactory::BeginRun'' (CbBeginRun run_number))
             (on_mf (set_last_run run_number))) (mf, H)
     else ((mf, H), Inr ()))"

definition Execute :: "user_code \<Rightarrow> 'a mf_data \<Rightarrow> int \<times> nat \<Rightarrow> ('a mf_state, unit) action" where
  "Execute u d event =
     athen (awhen (\<lambda>(mf, H). cs_status mf = CUninitialized)
              (athen (mf_call u d ''JMultifactory::Init'' CbInit) (on_mf (set_status CInitialized))))
    (athen (mf_change_run u d (fst event))
           (mf_call u d ''JMultifactory::Process'' (CbProcess (fst event) (snd event))))"

definition JMultifactory_Release :: "user_code \<Rightarrow> 'a mf_data \<Rightarrow> ('a mf_state, unit) action" where
  "JMultifactory_Release u d =
     awhen (\<lambda>(mf, H). cs_status mf = CInitialized)
       (athen (mf_call u d ''JMultifactory::Finish'' CbFinish) (on_mf (set_status CFinalized)))"

text \<open>
  Asking a helper for its data: \<open>JFactory::Create\<close> of a \<open>JMultifactoryHelper\<close>, whose \<open>Process\<close> is
  \<open>Execute\<close> and whose other callbacks are the empty ones of \<open>JFactoryT\<close>.
\<close>

definition helper_Create ::
    "user_code \<Rightarrow> 'a mf_data \<Rightarrow> fptr \<Rightarrow> int \<times> nat \<Rightarrow> ('a mf_state, unit) action" where
  "helper_Create u d f event = (\<lambda>(mf, H).
     let fac1 = fst (JFactory_DoInit quiet (\<lambda>_ _. []) (H f));
         fac2 = (if TestFactoryFlag REGENERATE fac1 \<and> mStatus fac1 = Inserted then ClearData fac1 else fac1) in
     if mStatus fac2 = Unprocessed then
       let fac3 = fst (fac_change_run quiet (\<lambda>_ _. []) (fst event) fac2) in
       case Execute u d event (mf, H(f := fac3)) of
         (s, Inl ex) \<Rightarrow> (s, Inl (CallWithJExceptionWrapper ''JFactory::Process'' (fac_id fac3) (ThrowJException ex)))
       | ((mf', H'), Inr _) \<Rightarrow>
           ((mf', H'(f := (H' f)\<lparr>mStatus := Processed, mCreationStatus := Created\<rparr>)), Inr ())
     else ((mf, H(f := fac2)), Inr ()))"

section \<open>Components whose callbacks do not throw\<close>

definition fw_quiet :: framework where
  "fw_quiet = (\<lambda>_. None)"

lemma user_calls_append [simp]: "user_calls (t @ t') = user_calls t @ user_calls t'"
  by (induction t rule: user_calls.induct) simp_all

lemma user_calls_framework [simp]: "user_calls (map FwCb fcs) = []"
  by (induction fcs) simp_all

lemma user_calls_framework_comp [simp]: "user_calls (map (FwCb \<circ> f) xs) = []"
  by (induction xs) simp_all

lemma cs_call_quiet [simp]:
  "cs_call quiet fn cb c = (c\<lparr>cs_trace := cs_trace c @ [UserCb cb]\<rparr>, Inr ())"
  by (simp add: cs_call_def quiet_def)

lemma fw_each_quiet [simp]:
  "fw_each fw_quiet fcs c = (c\<lparr>cs_trace := cs_trace c @ map FwCb fcs\<rparr>, Inr ())"
  by (induction fcs arbitrary: c) (simp_all add: fw_quiet_def)

text \<open>The place of a component in the protocol, read off its status and its run number.\<close>

definition cs_life :: "'z component_scheme \<Rightarrow> lifecycle" where
  "cs_life c = (if cs_status c = CUninitialized then Fresh
                else if cs_last_run c = -1 then Idle else InRun (cs_last_run c))"

definition cs_ok :: "'z component_scheme \<Rightarrow> bool" where
  "cs_ok c \<longleftrightarrow> cs_status c \<in> {CUninitialized, CInitialized}
     \<and> (cs_status c = CUninitialized \<longrightarrow> cs_last_run c = -1)
     \<and> life_run Fresh (user_calls (cs_trace c)) = Some (cs_life c)"

definition no_changes :: "int \<Rightarrow> callback list" where
  "no_changes r = []"

lemma life_enter_run:
  "l \<noteq> Done \<Longrightarrow> life_run l (enter_run no_changes l r @ [CbProcess r n]) = Some (InRun r)"
  by (cases l) (simp_all add: no_changes_def)

text \<open>A component that has made the callbacks for one more event is in the run of that event.\<close>

lemma cs_ok_event:
  assumes ok: "cs_ok c" and r: "r \<noteq> -1"
    and c': "cs_status c' = CInitialized" "cs_last_run c' = r"
      "user_calls (cs_trace c') = user_calls (cs_trace c) @ enter_run no_changes (cs_life c) r @ [CbProcess r n]"
  shows "cs_ok c' \<and> cs_life c' = InRun r
    \<and> user_calls (cs_trace c') = user_calls (cs_trace c) @ enter_run no_changes (cs_life c) r @ [CbProcess r n]"
proof -
  have "cs_life c \<noteq> Done" by (simp add: cs_life_def)
  with ok have "life_run Fresh (user_calls (cs_trace c')) = Some (InRun r)"
    unfolding c'(3) cs_ok_def by (metis life_run_append_Some life_enter_run)
  with c' r show ?thesis by (simp add: cs_ok_def cs_life_def)
qed

section \<open>Processors are driven by runs\<close>

definition ep_ok :: "JEventProcessor \<Rightarrow> bool" where
  "ep_ok p \<longleftrightarrow> cs_ok p \<and> cs_style p \<noteq> DeclarativeMode"

definition ep_event :: "int \<times> nat \<Rightarrow> JEventProcessor \<Rightarrow> JEventProcessor" where
  "ep_event ev p = fst (JEventProcessor_DoMap quiet fw_quiet ev p)"

lemma DoMap_quiet:
  assumes ok: "ep_ok p" and r: "r \<noteq> -1"
  obtains p' where "JEventProcessor_DoMap quiet fw_quiet (r, n) p = (p', Inr ())"
    and "cs_status p' = CInitialized" and "cs_last_run p' = r" and "cs_style p' = cs_style p"
    and "ep_event_count p' = sz_add (ep_event_count p) 1"
    and "user_calls (cs_trace p') = user_calls (cs_trace p) @ enter_run no_changes (cs_life p) r @ [CbProcess r n]"
proof -
  note defs = JEventProcessor_DoMap_def JEventProcessor_DoReduce_def JEventProcessor_DoInitialize_def
    ep_change_run_def action_defs set_status_def set_last_run_def no_changes_def cs_life_def
  from ok consider "cs_status p = CUninitialized" "cs_last_run p = -1" | "cs_status p = CInitialized" "cs_last_run p = -1"
    | "cs_status p = CInitialized" "cs_last_run p = r" | "cs_status p = CInitialized" "cs_last_run p \<noteq> -1" "cs_last_run p \<noteq> r"
    by (auto simp: ep_ok_def cs_ok_def)
  then show ?thesis
    using ok r by cases (rule that, (simp add: defs ep_ok_def; fail)+)+
qed

lemma ep_event_ok:
  assumes "ep_ok p" and "r \<noteq> -1"
  shows "ep_ok (ep_event (r, n) p) \<and> cs_life (ep_event (r, n) p) = InRun r
    \<and> user_calls (cs_trace (ep_event (r, n) p))
        = user_calls (cs_trace p) @ enter_run no_changes (cs_life p) r @ [CbProcess r n]"
proof -
  obtain p' where p': "JEventProcessor_DoMap quiet fw_quiet (r, n) p = (p', Inr ())"
    "cs_status p' = CInitialized" "cs_last_run p' = r" "cs_style p' = cs_style p"
    "user_calls (cs_trace p') = user_calls (cs_trace p) @ enter_run no_changes (cs_life p) r @ [CbProcess r n]"
    using assms by (rule DoMap_quiet)
  from cs_ok_event [OF _ assms(2) p'(2,3,5)] assms(1) p'(1,4) show ?thesis by (simp add: ep_ok_def ep_event_def)
qed

interpretation ep: run_driven ep_ok "\<lambda>p. user_calls (cs_trace p)" cs_life ep_event no_changes
proof unfold_locales
  fix p assume "ep_ok p"
  then show "life_run Fresh (user_calls (cs_trace p)) = Some (cs_life p) \<and> cs_life p \<noteq> Done"
    by (auto simp: ep_ok_def cs_ok_def cs_life_def)
next
  fix p and r :: int and n :: nat assume "ep_ok p" and "r \<noteq> -1"
  then show "ep_ok (ep_event (r, n) p) \<and> cs_life (ep_event (r, n) p) = InRun r
    \<and> user_calls (cs_trace (ep_event (r, n) p))
        = user_calls (cs_trace p) @ enter_run no_changes (cs_life p) r @ [CbProcess r n]"
    by (rule ep_event_ok)
qed

lemma ep_stream_count:
  assumes "ep_ok p" and "\<forall>(r, n)\<in>set evs. r \<noteq> -1" and "ep_event_count p + length evs < size_mod"
  shows "ep_event_count (fold ep_event evs p) = ep_event_count p + length evs"
  using assms
proof (induction evs arbitrary: p)
  case (Cons ev evs)
  obtain r n where ev: "ev = (r, n)" by (cases ev)
  with Cons.prems have r: "r \<noteq> -1" by simp
  obtain p' where "JEventProcessor_DoMap quiet fw_quiet (r, n) p = (p', Inr ())"
    "ep_event_count p' = sz_add (ep_event_count p) 1"
    using Cons.prems(1) r by (rule DoMap_quiet)
  then have "ep_event_count (ep_event ev p) = ep_event_count p + 1"
    using Cons.prems(3) by (simp add: ep_event_def ev sz_add_exact)
  with Cons.IH [of "ep_event ev p"] Cons.prems ep_event_ok [OF Cons.prems(1) r, of n] ev show ?case by simp
qed simp

text \<open>The state a processor is in after a stream, and what \<open>DoFinalize\<close> does there.\<close>

lemma ep_stream_life:
  assumes "ep_ok p" and "\<forall>(r, n)\<in>set evs. r \<noteq> -1" and "evs \<noteq> []"
  shows "cs_life (fold ep_event evs p) = InRun (fst (last evs))"
  using assms
proof (induction evs arbitrary: p)
  case (Cons ev evs)
  obtain r n where ev: "ev = (r, n)" by (cases ev)
  with Cons.prems have "r \<noteq> -1" by simp
  from ep_event_ok [OF Cons.prems(1) this, of n] Cons.IH [of "ep_event ev p"] Cons.prems(2) ev
  show ?case by (cases "evs = []") auto
qed simp

lemma DoFinalize_quiet:
  assumes "ep_ok p"
  shows "\<exists>p'. JEventProcessor_DoFinalize quiet p = (p', Inr ()) \<and> cs_status p' = CFinalized
    \<and> ep_event_count p' = ep_event_count p
    \<and> user_calls (cs_trace p') = user_calls (cs_trace p)
        @ (case cs_life p of InRun _ \<Rightarrow> [CbEndRun] | _ \<Rightarrow> []) @ [CbFinish]"
  using assms
  by (auto simp: JEventProcessor_DoFinalize_def action_defs set_status_def cs_life_def ep_ok_def cs_ok_def)

section \<open>Multifactories are driven by runs\<close>

definition declared :: "'a mf_data \<Rightarrow> 'a mf_state \<Rightarrow> bool" where
  "declared d s \<longleftrightarrow> (\<forall>cb h T tag xs. (T, tag, xs) \<in> set (d cb h) \<longrightarrow>
     (\<exists>f. JFactorySet_GetFactoryT (snd s) T T tag (mHelpers (fst s)) = Inr (Some f)))"

definition same_shape :: "'a fheap \<Rightarrow> 'a fheap \<Rightarrow> bool" where
  "same_shape H H' \<longleftrightarrow> (\<forall>f. fac_level (H' f) = fac_level (H f) \<and> mFlags (H' f) = mFlags (H f)
     \<and> (mStatus (H' f) = mStatus (H f) \<or> mStatus (H' f) = Inserted))"

lemma same_shape_refl [simp]: "same_shape H H"
  by (simp add: same_shape_def)

lemma same_shape_trans: "same_shape H H' \<Longrightarrow> same_shape H' H'' \<Longrightarrow> same_shape H H''"
  unfolding same_shape_def by metis

lemma GetFactoryT_level:
  assumes "\<And>f. fac_level (H' f) = fac_level (H f)"
  shows "JFactorySet_GetFactoryT H' T dm tag s = JFactorySet_GetFactoryT H T dm tag s"
  unfolding JFactorySet_GetFactoryT_def by (simp only: assms)

lemma Set_copy_simps [simp]:
  "mStatus (Set_copy xs fac) = Inserted" "fac_level (Set_copy xs fac) = fac_level fac"
  "mFlags (Set_copy xs fac) = mFlags fac"
  by (simp_all add: Set_copy_def ClearData_def Let_def)

lemma set_data_each_ok:
  assumes "\<And>T tag xs. (T, tag, xs) \<in> set ds \<Longrightarrow> \<exists>f. JFactorySet_GetFactoryT H T T tag (mHelpers mf) = Inr (Some f)"
  shows "\<exists>H'. set_data_each ds (mf, H) = ((mf, H'), Inr ()) \<and> same_shape H H'
    \<and> (\<forall>T tag xs f. (T, tag, xs) \<in> set ds \<longrightarrow> JFactorySet_GetFactoryT H T T tag (mHelpers mf) = Inr (Some f)
         \<longrightarrow> mStatus (H' f) = Inserted)"
  using assms
proof (induction ds arbitrary: H)
  case (Cons x ds)
  obtain T tag xs where x: "x = (T, tag, xs)" by (cases x)
  have "(T, tag, xs) \<in> set (x # ds)" by (simp add: x)
  from Cons.prems [OF this] obtain f where f: "JFactorySet_GetFactoryT H T T tag (mHelpers mf) = Inr (Some f)" ..
  define H1 where "H1 = H(f := Set_copy xs (H f))"
  have shape: "same_shape H H1" by (simp add: same_shape_def H1_def)
  then have get: "JFactorySet_GetFactoryT H1 T' dm tag' s = JFactorySet_GetFactoryT H T' dm tag' s" for T' dm tag' s
    by (intro GetFactoryT_level) (simp add: same_shape_def)
  have "\<exists>f. JFactorySet_GetFactoryT H1 T T tag (mHelpers mf) = Inr (Some f)" if "(T, tag, xs) \<in> set ds" for T tag xs
    using Cons.prems [of T tag xs] that by (simp add: get)
  then have "\<exists>H'. set_data_each ds (mf, H1) = ((mf, H'), Inr ()) \<and> same_shape H1 H'
    \<and> (\<forall>T tag xs f. (T, tag, xs) \<in> set ds \<longrightarrow> JFactorySet_GetFactoryT H1 T T tag (mHelpers mf) = Inr (Some f)
         \<longrightarrow> mStatus (H' f) = Inserted)" by (rule Cons.IH)
  then obtain H' where H': "set_data_each ds (mf, H1) = ((mf, H'), Inr ())" "same_shape H1 H'"
    "\<forall>T tag xs f. (T, tag, xs) \<in> set ds \<longrightarrow> JFactorySet_GetFactoryT H T T tag (mHelpers mf) = Inr (Some f)
       \<longrightarrow> mStatus (H' f) = Inserted"
    unfolding get by blast
  have "set_data_each (x # ds) (mf, H) = ((mf, H'), Inr ())"
    using f H'(1) by (simp add: x SetData_def athen_def abind_def H1_def)
  moreover have "mStatus (H' f) = Inserted" using H'(2) by (metis same_shape_def H1_def Set_copy_simps(1) fun_upd_same)
  ultimately show ?case
    using same_shape_trans [OF shape H'(2)] H'(3) f by (intro exI [of _ H']) (auto simp: x)
qed simp

lemma mf_call_quiet:
  assumes "declared d (mf, H)"
  shows "\<exists>H'. mf_call quiet d fn cb (mf, H) = ((mf\<lparr>cs_trace := cs_trace mf @ [UserCb cb]\<rparr>, H'), Inr ())
    \<and> same_shape H H'
    \<and> (\<forall>T tag xs f. (T, tag, xs) \<in> set (d cb (user_calls (cs_trace mf)))
         \<longrightarrow> JFactorySet_GetFactoryT H T T tag (mHelpers mf) = Inr (Some f) \<longrightarrow> mStatus (H' f) = Inserted)"
proof -
  let ?mf = "mf\<lparr>cs_trace := cs_trace mf @ [UserCb cb]\<rparr>"
  have "\<exists>f. JFactorySet_GetFactoryT H T T tag (mHelpers ?mf) = Inr (Some f)"
    if "(T, tag, xs) \<in> set (d cb (user_calls (cs_trace mf)))" for T tag xs
    using assms that unfolding declared_def fst_conv snd_conv by simp blast
  then have "\<exists>H'. set_data_each (d cb (user_calls (cs_trace mf))) (?mf, H) = ((?mf, H'), Inr ()) \<and> same_shape H H'
    \<and> (\<forall>T tag xs f. (T, tag, xs) \<in> set (d cb (user_calls (cs_trace mf)))
         \<longrightarrow> JFactorySet_GetFactoryT H T T tag (mHelpers ?mf) = Inr (Some f) \<longrightarrow> mStatus (H' f) = Inserted)"
    by (rule set_data_each_ok)
  then show ?thesis by (auto simp: mf_call_def Let_def quiet_def)
qed

lemma declared_shape:
  assumes "declared d (mf, H)" and "same_shape H H'" and "mHelpers mf' = mHelpers mf"
  shows "declared d (mf', H')"
proof -
  have "JFactorySet_GetFactoryT H' T dm tag s = JFactorySet_GetFactoryT H T dm tag s" for T dm tag s
    using assms(2) by (intro GetFactoryT_level) (simp add: same_shape_def)
  with assms(1,3) show ?thesis by (simp add: declared_def)
qed

text \<open>A sequence of callbacks without \<open>Process\<close>, and what it leaves behind.\<close>

definition advances :: "'a mf_data \<Rightarrow> 'a mf_state \<Rightarrow> callback list \<Rightarrow> 'a mf_state \<Rightarrow> bool" where
  "advances d s cbs s' \<longleftrightarrow> same_shape (snd s) (snd s') \<and> mHelpers (fst s') = mHelpers (fst s)
     \<and> declared d s' \<and> user_calls (cs_trace (fst s')) = user_calls (cs_trace (fst s)) @ cbs"

lemma advances_call:
  assumes "declared d (mf, H)"
  obtains H' where "mf_call quiet d fn cb (mf, H) = ((mf\<lparr>cs_trace := cs_trace mf @ [UserCb cb]\<rparr>, H'), Inr ())"
    and "advances d (mf, H) [cb] (mf\<lparr>cs_trace := cs_trace mf @ [UserCb cb]\<rparr>, H')"
    and "\<forall>T tag xs f. (T, tag, xs) \<in> set (d cb (user_calls (cs_trace mf)))
         \<longrightarrow> JFactorySet_GetFactoryT H T T tag (mHelpers mf) = Inr (Some f) \<longrightarrow> mStatus (H' f) = Inserted"
proof -
  let ?mf = "mf\<lparr>cs_trace := cs_trace mf @ [UserCb cb]\<rparr>"
  obtain H' where H': "mf_call quiet d fn cb (mf, H) = ((?mf, H'), Inr ())" "same_shape H H'"
    "\<forall>T tag xs f. (T, tag, xs) \<in> set (d cb (user_calls (cs_trace mf)))
         \<longrightarrow> JFactorySet_GetFactoryT H T T tag (mHelpers mf) = Inr (Some f) \<longrightarrow> mStatus (H' f) = Inserted"
    using mf_call_quiet [OF assms] by blast
  have "declared d (?mf, H')" by (rule declared_shape [OF assms H'(2)]) simp
  with H' show ?thesis by (intro that [of H']) (simp_all add: advances_def)
qed

lemma advances_trans:
  assumes "advances d s cbs s'" and "advances d s' cbs' s''"
  shows "advances d s (cbs @ cbs') s''"
  using assms same_shape_trans unfolding advances_def by auto

lemma advances_field:
  assumes "advances d s cbs (mf, H)" and "mHelpers mf' = mHelpers mf" and "cs_trace mf' = cs_trace mf"
  shows "advances d s cbs (mf', H)"
proof -
  have "declared d (mf', H)"
    by (rule declared_shape [of d mf H]) (use assms in \<open>simp_all add: advances_def\<close>)
  with assms show ?thesis by (simp add: advances_def)
qed

lemma mf_init_quiet:
  assumes "declared d (mf, H)" and "cs_status mf \<in> {CUninitialized, CInitialized}"
  obtains mf' H' where
    "awhen (\<lambda>(mf, H). cs_status mf = CUninitialized)
       (athen (mf_call quiet d ''JMultifactory::Init'' CbInit) (on_mf (set_status CInitialized))) (mf, H) = ((mf', H'), Inr ())"
    and "advances d (mf, H) (if cs_status mf = CUninitialized then [CbInit] else []) (mf', H')"
    and "cs_status mf' = CInitialized" and "cs_last_run mf' = cs_last_run mf"
proof (cases "cs_status mf = CUninitialized")
  case True
  let ?mf = "mf\<lparr>cs_trace := cs_trace mf @ [UserCb CbInit]\<rparr>"
  obtain H' where "mf_call quiet d ''JMultifactory::Init'' CbInit (mf, H) = ((?mf, H'), Inr ())"
    "advances d (mf, H) [CbInit] (?mf, H')" using assms(1) by (rule advances_call)
  moreover have "advances d (mf, H) [CbInit] (set_status CInitialized ?mf, H')"
    using calculation(2) by (rule advances_field) (simp_all add: set_status_def)
  ultimately show ?thesis
    using True by (intro that [of "set_status CInitialized ?mf" H']) (simp_all add: action_defs on_mf_def set_status_def)
next
  case False
  with assms show ?thesis by (intro that [of mf H]) (simp_all add: action_defs advances_def)
qed

lemma mf_change_run_quiet:
  assumes "declared d (mf, H)"
  obtains mf' H' where "mf_change_run quiet d r (mf, H) = ((mf', H'), Inr ())"
    and "advances d (mf, H) (if cs_last_run mf = -1 then [CbBeginRun r]
           else if cs_last_run mf \<noteq> r then [CbEndRun, CbBeginRun r] else []) (mf', H')"
    and "cs_status mf' = cs_status mf" and "cs_last_run mf' = r"
proof -
  consider "cs_last_run mf = -1" | "cs_last_run mf \<noteq> -1" "cs_last_run mf \<noteq> r" | "cs_last_run mf \<noteq> -1" "cs_last_run mf = r"
    by blast
  then show ?thesis
  proof cases
    case 1
    let ?mf = "mf\<lparr>cs_trace := cs_trace mf @ [UserCb (CbBeginRun r)]\<rparr>"
    obtain H' where "mf_call quiet d ''JMultifactory::BeginRun'' (CbBeginRun r) (mf, H) = ((?mf, H'), Inr ())"
      "advances d (mf, H) [CbBeginRun r] (?mf, H')" using assms by (rule advances_call)
    moreover have "advances d (mf, H) [CbBeginRun r] (set_last_run r ?mf, H')"
      using calculation(2) by (rule advances_field) (simp_all add: set_last_run_def)
    ultimately show ?thesis
      using 1 by (intro that [of "set_last_run r ?mf" H']) (simp_all add: mf_change_run_def action_defs on_mf_def set_last_run_def)
  next
    case 2
    let ?mf = "mf\<lparr>cs_trace := cs_trace mf @ [UserCb CbEndRun]\<rparr>"
    let ?mf2 = "?mf\<lparr>cs_trace := cs_trace ?mf @ [UserCb (CbBeginRun r)]\<rparr>"
    obtain H1 where 1: "mf_call quiet d ''JMultifactory::EndRun'' CbEndRun (mf, H) = ((?mf, H1), Inr ())"
      "advances d (mf, H) [CbEndRun] (?mf, H1)" using assms by (rule advances_call)
    from 1(2) have "declared d (?mf, H1)" by (simp add: advances_def)
    then obtain H2 where 3: "mf_call quiet d ''JMultifactory::BeginRun'' (CbBeginRun r) (?mf, H1) = ((?mf2, H2), Inr ())"
      "advances d (?mf, H1) [CbBeginRun r] (?mf2, H2)" by (rule advances_call)
    have "advances d (mf, H) ([CbEndRun] @ [CbBeginRun r]) (set_last_run r ?mf2, H2)"
      using advances_trans [OF 1(2) 3(2)] by (rule advances_field) (simp_all add: set_last_run_def)
    with 2 1(1) 3(1) show ?thesis
      by (intro that [of "set_last_run r ?mf2" H2]) (simp_all add: mf_change_run_def action_defs on_mf_def set_last_run_def)
  next
    case 3
    with assms show ?thesis by (intro that [of mf H]) (simp_all add: mf_change_run_def advances_def)
  qed
qed

definition mf_ok :: "'a mf_data \<Rightarrow> 'a mf_state \<Rightarrow> bool" where
  "mf_ok d s \<longleftrightarrow> cs_ok (fst s) \<and> declared d s"

definition mf_event :: "'a mf_data \<Rightarrow> int \<times> nat \<Rightarrow> 'a mf_state \<Rightarrow> 'a mf_state" where
  "mf_event d ev s = fst (Execute quiet d ev s)"

lemma Execute_quiet:
  assumes ok: "mf_ok d (mf, H)" and r: "r \<noteq> -1"
  obtains mf' H' where "Execute quiet d (r, n) (mf, H) = ((mf', H'), Inr ())"
    and "advances d (mf, H) (enter_run no_changes (cs_life mf) r @ [CbProcess r n]) (mf', H')"
    and "cs_status mf' = CInitialized" and "cs_last_run mf' = r"
    and "\<exists>h. \<forall>T tag xs f. (T, tag, xs) \<in> set (d (CbProcess r n) h)
           \<longrightarrow> JFactorySet_GetFactoryT H T T tag (mHelpers mf) = Inr (Some f) \<longrightarrow> mStatus (H' f) = Inserted"
proof -
  have decl: "declared d (mf, H)" and st: "cs_status mf \<in> {CUninitialized, CInitialized}"
    using ok by (simp_all add: mf_ok_def cs_ok_def)
  obtain mf1 H1 where 1: "awhen (\<lambda>(mf, H). cs_status mf = CUninitialized)
       (athen (mf_call quiet d ''JMultifactory::Init'' CbInit) (on_mf (set_status CInitialized))) (mf, H) = ((mf1, H1), Inr ())"
    "advances d (mf, H) (if cs_status mf = CUninitialized then [CbInit] else []) (mf1, H1)"
    "cs_status mf1 = CInitialized" "cs_last_run mf1 = cs_last_run mf" using decl st by (rule mf_init_quiet)
  from 1(2) have "declared d (mf1, H1)" by (simp add: advances_def)
  then obtain mf2 H2 where 2: "mf_change_run quiet d r (mf1, H1) = ((mf2, H2), Inr ())"
    "advances d (mf1, H1) (if cs_last_run mf1 = -1 then [CbBeginRun r]
       else if cs_last_run mf1 \<noteq> r then [CbEndRun, CbBeginRun r] else []) (mf2, H2)"
    "cs_status mf2 = cs_status mf1" "cs_last_run mf2 = r" by (rule mf_change_run_quiet)
  from 2(2) have decl2: "declared d (mf2, H2)" by (simp add: advances_def)
  let ?mf = "mf2\<lparr>cs_trace := cs_trace mf2 @ [UserCb (CbProcess r n)]\<rparr>"
  obtain H3 where 3: "mf_call quiet d ''JMultifactory::Process'' (CbProcess r n) (mf2, H2) = ((?mf, H3), Inr ())"
    "advances d (mf2, H2) [CbProcess r n] (?mf, H3)"
    "\<forall>T tag xs f. (T, tag, xs) \<in> set (d (CbProcess r n) (user_calls (cs_trace mf2)))
       \<longrightarrow> JFactorySet_GetFactoryT H2 T T tag (mHelpers mf2) = Inr (Some f) \<longrightarrow> mStatus (H3 f) = Inserted"
    using decl2 by (rule advances_call)
  have adv: "advances d (mf, H) (((if cs_status mf = CUninitialized then [CbInit] else []) @
      (if cs_last_run mf1 = -1 then [CbBeginRun r] else if cs_last_run mf1 \<noteq> r then [CbEndRun, CbBeginRun r] else []))
      @ [CbProcess r n]) (?mf, H3)"
    by (rule advances_trans [OF advances_trans [OF 1(2) 2(2)] 3(2)])
  have cbs: "(if cs_status mf = CUninitialized then [CbInit] else []) @
      (if cs_last_run mf1 = -1 then [CbBeginRun r] else if cs_last_run mf1 \<noteq> r then [CbEndRun, CbBeginRun r] else [])
      = enter_run no_changes (cs_life mf) r"
    using ok 1(4) by (auto simp: mf_ok_def cs_ok_def cs_life_def no_changes_def)
  have "same_shape H H2" using advances_trans [OF 1(2) 2(2)] by (simp add: advances_def)
  then have "JFactorySet_GetFactoryT H2 T dm tag s = JFactorySet_GetFactoryT H T dm tag s" for T dm tag s
    by (intro GetFactoryT_level) (simp add: same_shape_def)
  moreover have "mHelpers mf2 = mHelpers mf" using advances_trans [OF 1(2) 2(2)] by (simp add: advances_def)
  ultimately have set: "\<exists>h. \<forall>T tag xs f. (T, tag, xs) \<in> set (d (CbProcess r n) h)
           \<longrightarrow> JFactorySet_GetFactoryT H T T tag (mHelpers mf) = Inr (Some f) \<longrightarrow> mStatus (H3 f) = Inserted"
    using 3(3) by (intro exI [of _ "user_calls (cs_trace mf2)"]) simp
  have "Execute quiet d (r, n) (mf, H) = ((?mf, H3), Inr ())"
    unfolding Execute_def athen_def abind_def using 1(1) 2(1) 3(1) by (simp add: athen_def abind_def)
  then show ?thesis using adv [unfolded cbs] 1(3) 2(3,4) set by (intro that [of ?mf H3]) simp_all
qed

lemma mf_event_ok:
  assumes ok: "mf_ok d s" and r: "r \<noteq> -1"
  shows "mf_ok d (mf_event d (r, n) s) \<and> cs_life (fst (mf_event d (r, n) s)) = InRun r
    \<and> user_calls (cs_trace (fst (mf_event d (r, n) s)))
        = user_calls (cs_trace (fst s)) @ enter_run no_changes (cs_life (fst s)) r @ [CbProcess r n]"
proof -
  obtain mf H where s: "s = (mf, H)" by fastforce
  with ok have okm: "mf_ok d (mf, H)" by simp
  then obtain mf' H' where e: "Execute quiet d (r, n) (mf, H) = ((mf', H'), Inr ())"
    "advances d (mf, H) (enter_run no_changes (cs_life mf) r @ [CbProcess r n]) (mf', H')"
    "cs_status mf' = CInitialized" "cs_last_run mf' = r" using r by (rule Execute_quiet)
  have "user_calls (cs_trace mf') = user_calls (cs_trace mf) @ enter_run no_changes (cs_life mf) r @ [CbProcess r n]"
    using e(2) by (simp add: advances_def)
  from cs_ok_event [OF _ r e(3,4) this] okm e(1,2) s show ?thesis
    by (simp add: mf_ok_def mf_event_def advances_def)
qed

interpretation mf: run_driven "mf_ok d" "\<lambda>s. user_calls (cs_trace (fst s))" "\<lambda>s. cs_life (fst s)" "mf_event d" no_changes
  for d :: "'a mf_data"
proof unfold_locales
  fix s :: "'a mf_state" assume "mf_ok d s"
  then show "life_run Fresh (user_calls (cs_trace (fst s))) = Some (cs_life (fst s)) \<and> cs_life (fst s) \<noteq> Done"
    by (auto simp: mf_ok_def cs_ok_def cs_life_def)
next
  fix s :: "'a mf_state" and r :: int and n :: nat assume "mf_ok d s" and "r \<noteq> -1"
  then show "mf_ok d (mf_event d (r, n) s) \<and> cs_life (fst (mf_event d (r, n) s)) = InRun r
    \<and> user_calls (cs_trace (fst (mf_event d (r, n) s)))
        = user_calls (cs_trace (fst s)) @ enter_run no_changes (cs_life (fst s)) r @ [CbProcess r n]"
    by (rule mf_event_ok)
qed

section \<open>One execution per event\<close>

text \<open>
  The helpers of a multifactory at the start of an event, and after the multifactory has run and has
  set all of its outputs.
\<close>

definition helpers :: "'a mf_state \<Rightarrow> fptr set" where
  "helpers s = set (JFactorySet_GetAllFactories (mHelpers (fst s)))"

definition awaiting :: "'a mf_state \<Rightarrow> bool" where
  "awaiting s \<longleftrightarrow> (\<forall>f\<in>helpers s. mStatus (snd s f) \<in> {Uninitialized, Unprocessed} \<and> \<not> TestFactoryFlag REGENERATE (snd s f))"

definition filled :: "'a mf_state \<Rightarrow> bool" where
  "filled s \<longleftrightarrow> (\<forall>f\<in>helpers s. mStatus (snd s f) \<in> {Inserted, Processed} \<and> \<not> TestFactoryFlag REGENERATE (snd s f))"

definition sets_all :: "'a mf_data \<Rightarrow> int \<times> nat \<Rightarrow> 'a mf_state \<Rightarrow> bool" where
  "sets_all d ev s \<longleftrightarrow> (\<forall>h. \<forall>f\<in>helpers s. \<exists>T tag xs. (T, tag, xs) \<in> set (d (CbProcess (fst ev) (snd ev)) h)
     \<and> JFactorySet_GetFactoryT (snd s) T T tag (mHelpers (fst s)) = Inr (Some f))"

lemma fac_call_nothing [simp]:
  "fac_call quiet (\<lambda>_ _. []) fn cb fac = (fac\<lparr>fac_calls := fac_calls fac @ [cb]\<rparr>, Inr ())"
  by (simp add: fac_call_def quiet_def)

lemma helper_start:
  assumes "mStatus fac \<in> {Uninitialized, Unprocessed}"
  defines "fac1 \<equiv> fst (JFactory_DoInit quiet (\<lambda>_ _. []) fac)"
  shows "mStatus fac1 = Unprocessed" and "mFlags fac1 = mFlags fac" and "fac_level fac1 = fac_level fac"
    and "mStatus (fst (fac_change_run quiet (\<lambda>_ _. []) r fac1)) = Unprocessed"
    and "mFlags (fst (fac_change_run quiet (\<lambda>_ _. []) r fac1)) = mFlags fac"
    and "fac_level (fst (fac_change_run quiet (\<lambda>_ _. []) r fac1)) = fac_level fac"
  using assms(1) by (auto simp: fac1_def JFactory_DoInit_def fac_change_run_def action_defs)

lemma filled_request:
  assumes "filled s" and "f \<in> helpers s"
  shows "helper_Create u d f ev s = (s, Inr ())"
proof -
  obtain mf H where s: "s = (mf, H)" by fastforce
  have "mStatus (H f) \<in> {Inserted, Processed}" "\<not> TestFactoryFlag REGENERATE (H f)"
    using assms by (auto simp: filled_def s)
  then show ?thesis by (auto simp: s helper_Create_def Let_def JFactory_DoInit_def awhen_def)
qed

lemma filled_requests:
  assumes "filled s" and "set fs \<subseteq> helpers s"
  shows "fold (\<lambda>f s. fst (helper_Create u d f ev s)) fs s = s"
  using assms(2) by (induction fs) (simp_all add: filled_request [OF assms(1)])

lemma first_request:
  assumes ok: "mf_ok d (mf, H)" and wait: "awaiting (mf, H)" and sets: "sets_all d (r, n) (mf, H)"
    and f: "f \<in> helpers (mf, H)" and r: "r \<noteq> -1"
  shows "\<exists>s'. helper_Create quiet d f (r, n) (mf, H) = (s', Inr ()) \<and> filled s' \<and> helpers s' = helpers (mf, H)
    \<and> user_calls (cs_trace (fst s')) = user_calls (cs_trace mf) @ enter_run no_changes (cs_life mf) r @ [CbProcess r n]"
proof -
  define fac1 where "fac1 = fst (JFactory_DoInit quiet (\<lambda>_ _. []) (H f))"
  define fac3 where "fac3 = fst (fac_change_run quiet (\<lambda>_ _. []) r fac1)"
  have st: "mStatus (H f) \<in> {Uninitialized, Unprocessed}" using wait f by (auto simp: awaiting_def)
  note fac1 = helper_start(1,2) [OF st, folded fac1_def]
  note fac3 = helper_start(5,6) [OF st, of r, folded fac1_def, folded fac3_def]
  let ?H = "H(f := fac3)"
  have level: "fac_level (?H g) = fac_level (H g)" and flags: "mFlags (?H g) = mFlags (H g)" for g
    using fac3 by simp_all
  have get: "JFactorySet_GetFactoryT ?H T dm tag s = JFactorySet_GetFactoryT H T dm tag s" for T dm tag s
    by (rule GetFactoryT_level) (rule level)
  have "mf_ok d (mf, ?H)" using ok by (simp add: mf_ok_def declared_def get)
  then obtain mf' H' where e: "Execute quiet d (r, n) (mf, ?H) = ((mf', H'), Inr ())"
    "advances d (mf, ?H) (enter_run no_changes (cs_life mf) r @ [CbProcess r n]) (mf', H')"
    "\<exists>h. \<forall>T tag xs f. (T, tag, xs) \<in> set (d (CbProcess r n) h)
           \<longrightarrow> JFactorySet_GetFactoryT ?H T T tag (mHelpers mf) = Inr (Some f) \<longrightarrow> mStatus (H' f) = Inserted"
    using r by (rule Execute_quiet)
  let ?s = "(mf', H'(f := (H' f)\<lparr>mStatus := Processed, mCreationStatus := Created\<rparr>))"
  have "helper_Create quiet d f (r, n) (mf, H) = (?s, Inr ())"
    using e(1) fac1(1) by (simp add: helper_Create_def Let_def flip: fac1_def fac3_def)
  moreover have hs: "helpers ?s = helpers (mf, H)" using e(2) by (simp add: helpers_def advances_def)
  moreover have "filled ?s"
    unfolding filled_def hs
  proof
    fix g assume g: "g \<in> helpers (mf, H)"
    from e(3) obtain h where h: "\<And>T tag xs f. (T, tag, xs) \<in> set (d (CbProcess r n) h) \<Longrightarrow>
        JFactorySet_GetFactoryT ?H T T tag (mHelpers mf) = Inr (Some f) \<Longrightarrow> mStatus (H' f) = Inserted" by blast
    from sets g obtain T tag xs where "(T, tag, xs) \<in> set (d (CbProcess r n) h)"
      "JFactorySet_GetFactoryT H T T tag (mHelpers mf) = Inr (Some g)"
      unfolding sets_all_def fst_conv snd_conv by blast
    with h [of T tag xs g] have "mStatus (H' g) = Inserted" by (simp add: get)
    moreover have "mFlags (H' g) = mFlags (H g)" using e(2) flags [of g] by (simp add: advances_def same_shape_def)
    moreover have "\<not> TestFactoryFlag REGENERATE (H g)" using wait g by (simp add: awaiting_def)
    ultimately show "mStatus (snd ?s g) \<in> {Inserted, Processed} \<and> \<not> TestFactoryFlag REGENERATE (snd ?s g)"
      by (cases "g = f") (simp_all add: TestFactoryFlag_def)
  qed
  ultimately show ?thesis using e(2) by (auto simp: advances_def)
qed

section \<open>Numbering of children\<close>

text \<open>Unfolding a sequence of children with user code that does not throw.\<close>

fun unfold_run ::
    "unfold_code \<Rightarrow> (int \<times> nat) \<Rightarrow> JEvent list \<Rightarrow> JEventUnfolder \<Rightarrow> (int \<times> (JException + UnfoldResult)) list" where
  "unfold_run v parent [] c = []"
| "unfold_run v parent (child # children) c =
     (case DoUnfold quiet v fw_quiet parent child c of
        ((c', child'), r) \<Rightarrow> (mEventIndex child', r) # unfold_run v parent children c')"

fun numbering :: "int \<Rightarrow> (JException + UnfoldResult) list \<Rightarrow> int list" where
  "numbering k [] = []"
| "numbering k (r # rs) = k # numbering (if r = Inr NextChildKeepParent then k + 1 else 0) rs"

lemma DoUnfold_quiet:
  assumes "cs_status c = CInitialized"
  shows "\<exists>c' r. DoUnfold quiet v fw_quiet parent child c = ((c', SetEventIndex (m_child_number c) child), Inr r)
    \<and> cs_status c' = CInitialized
    \<and> m_child_number c' = (if r = NextChildKeepParent then m_child_number c + 1 else 0)"
proof -
  obtain c1 where c1: "athen (awhen (\<lambda>c. \<not> m_call_preprocess_upstream c \<and> \<not> m_enable_simplified_callbacks c)
                   (cs_call quiet ''JEventUnfolder::Preprocess'' (CbPreprocess (snd parent))))
         (athen (awhen (\<lambda>c. cs_last_run c \<noteq> fst parent) (unf_change_run quiet fw_quiet (fst parent)))
         (athen (fw_each fw_quiet (map (\<lambda>i. FwFetch i (snd parent)) (cs_inputs c)))
                (fw_each fw_quiet (map FwResetOutput (cs_outputs c))))) c = (c1, Inr ())"
    "cs_status c1 = cs_status c" "m_child_number c1 = m_child_number c"
    by (cases "m_call_preprocess_upstream c \<or> m_enable_simplified_callbacks c"; cases "cs_last_run c = fst parent")
      (auto simp: action_basic unf_change_run_def set_last_run_def)
  define res where "res = v (user_calls (cs_trace c1))"
  have "res = NextChildKeepParent \<longleftrightarrow> \<not> (res = NextChildNextParent \<or> res = KeepChildNextParent)"
    by (cases res) auto
  with assms c1 show ?thesis
    by (auto simp: DoUnfold_def Let_def call_unfold_def action_basic simp flip: res_def)
qed

section \<open>Properties of processors, multifactories and unfolders\<close>

definition new_component :: component where
  "new_component = \<lparr>cs_id = \<lparr>m_prefix = [], m_plugin_name = [], m_type_name = ''C''\<rparr>, cs_status = CUninitialized,
     cs_style = LegacyMode, cs_last_run = -1, cs_parameters = [0], cs_services = [], cs_resources = [0],
     cs_inputs = [0, 1], cs_outputs = [], cs_trace = []\<rparr>"

definition sample_processor :: JEventProcessor where
  "sample_processor = component.extend new_component \<lparr>ep_event_count = 0\<rparr>"

lemma sample_processor_simps [simp]:
  "cs_trace sample_processor = []" "cs_status sample_processor = CUninitialized" "cs_last_run sample_processor = -1"
  "ep_event_count sample_processor = 0" "cs_style sample_processor = LegacyMode"
  by (simp_all add: sample_processor_def new_component_def component.defs)



text \<open>
  A processor in declarative style never processes an event.  The arrow calls only \<open>DoMap\<close>, and
  \<open>DoMap\<close> leaves \<open>DoReduce\<close> to somebody else for that style; nobody calls it, so whatever user code and
  framework do, no user callback is made and the event count does not move.
\<close>

theorem declarative_never_processes:
  assumes "\<forall>p\<in>set ps. cs_style p = DeclarativeMode"
  shows "map (\<lambda>p. (user_calls (cs_trace p), ep_event_count p)) (fst (JEventProcessorArrow_process u fw e ps))
       = map (\<lambda>p. (user_calls (cs_trace p), ep_event_count p)) ps"
proof -
  have each: "cs_style (fst (fw_each fw fcs p)) = cs_style p
      \<and> user_calls (cs_trace (fst (fw_each fw fcs p))) = user_calls (cs_trace p)
      \<and> ep_event_count (fst (fw_each fw fcs p)) = ep_event_count p" for fcs and p :: JEventProcessor
    by (induction fcs arbitrary: p) (auto simp: Let_def split: option.split)
  have domap: "user_calls (cs_trace (fst (JEventProcessor_DoMap u' fw e p))) = user_calls (cs_trace p)
      \<and> ep_event_count (fst (JEventProcessor_DoMap u' fw e p)) = ep_event_count p"
    if "cs_style p = DeclarativeMode" for u' and p :: JEventProcessor
  proof -
    obtain p1 r where "fw_each fw (map (\<lambda>i. FwPrefetch i (snd e)) (cs_inputs p)) p = (p1, r)" by fastforce
    with each [of "map (\<lambda>i. FwPrefetch i (snd e)) (cs_inputs p)" p] that show ?thesis
      by (cases r) (simp_all add: JEventProcessor_DoMap_def action_defs)
  qed
  have "map (\<lambda>p. (user_calls (cs_trace p), ep_event_count p)) (fst (each_processor (\<lambda>i. JEventProcessor_DoMap (u i) fw e) i ps))
      = map (\<lambda>p. (user_calls (cs_trace p), ep_event_count p)) ps" for i
    using assms
  proof (induction ps arbitrary: i)
    case (Cons p ps)
    obtain p1 r where p1: "JEventProcessor_DoMap (u i) fw e p = (p1, r)" by fastforce
    obtain ps1 r1 where ps1: "each_processor (\<lambda>i. JEventProcessor_DoMap (u i) fw e) (i + 1) ps = (ps1, r1)" by fastforce
    from domap [of p "u i"] Cons.IH [of "i + 1"] Cons.prems p1 ps1 show ?case
      by (cases r) simp_all
  qed simp
  note all = this [of 0]
  obtain ps' r where run: "each_processor (\<lambda>i. JEventProcessor_DoMap (u i) fw e) 0 ps = (ps', r)" by fastforce
  then have "fst (JEventProcessorArrow_process u fw e ps) = ps'"
    by (cases r) (simp_all add: JEventProcessorArrow_process_def action_basic)
  with all run show ?thesis by simp
qed

theorem declarative_never_processes_witness:
  "map (\<lambda>p. (user_calls (cs_trace p), ep_event_count p))
       (fst (JEventProcessorArrow_process (\<lambda>_. quiet) fw_quiet (1, 0) [sample_processor\<lparr>cs_style := DeclarativeMode\<rparr>]))
     = [([], 0)]"
  using declarative_never_processes [of "[sample_processor\<lparr>cs_style := DeclarativeMode\<rparr>]" "\<lambda>_. quiet" fw_quiet "(1, 0)"]
  by simp


definition sample_multifactory :: JMultifactory where
  "sample_multifactory = component.extend new_component
     \<lparr>mHelpers = new_JFactorySet, mFactoryName = ''M'', mf_level = PhysicsEvent\<rparr>"

definition sample_mf_data :: "nat mf_data" where
  "sample_mf_data cb h = (case cb of CbProcess r n \<Rightarrow> [(''Hit'', ''a'', [n]), (''Hit'', ''b'', [])] | _ \<Rightarrow> [])"

definition sample_mf :: "nat mf_state" where
  "sample_mf =
     (let H = (\<lambda>_. new_JFactory ''Hit'' ''Hit'' [])(0 := new_JFactory ''Hit'' ''Hit'' ''a'', 1 := new_JFactory ''Hit'' ''Hit'' ''b'') in
      (sample_multifactory\<lparr>mHelpers := new_JFactorySet\<lparr>mFactories := [((''Hit'', ''a''), 0), ((''Hit'', ''b''), 1)]\<rparr>\<rparr>, H))"

lemma sample_mf_ready:
  "mf_ok sample_mf_data sample_mf" "awaiting sample_mf" "sets_all sample_mf_data (5, 0) sample_mf"
  "helpers sample_mf = {0, 1}"
proof -
  have simps: "cs_trace (fst sample_mf) = []" "cs_status (fst sample_mf) = CUninitialized" "cs_last_run (fst sample_mf) = -1"
    by (simp_all add: sample_mf_def sample_multifactory_def new_component_def component.defs Let_def)
  have get: "JFactorySet_GetFactoryT (snd sample_mf) ''Hit'' ''Hit'' ''a'' (mHelpers (fst sample_mf)) = Inr (Some 0)"
    "JFactorySet_GetFactoryT (snd sample_mf) ''Hit'' ''Hit'' ''b'' (mHelpers (fst sample_mf)) = Inr (Some 1)"
    by (simp_all add: sample_mf_def JFactorySet_GetFactoryT_def om_find_def new_JFactory_def new_JFactorySet_def Let_def)
  show hs: "helpers sample_mf = {0, 1}"
    by (simp add: helpers_def sample_mf_def JFactorySet_GetAllFactories_def new_JFactorySet_def Let_def)
  show "mf_ok sample_mf_data sample_mf"
    unfolding mf_ok_def declared_def cs_ok_def
    by (auto simp: simps cs_life_def sample_mf_data_def get split: callback.splits)
  show "awaiting sample_mf" unfolding awaiting_def hs
    by (simp add: sample_mf_def new_JFactory_def Let_def TestFactoryFlag_def WRITE_TO_OUTPUT_def REGENERATE_def)
  show "sets_all sample_mf_data (5, 0) sample_mf"
    unfolding sets_all_def hs using get by (auto simp: sample_mf_data_def)
qed


text \<open>
  The callbacks of a multifactory over a whole stream follow the component protocol, with \<open>Init\<close>
  first and once, when the outputs it sets are declared and its callbacks do not throw.
\<close>

theorem multifactory_stream:
  assumes "mf_ok d s" and "cs_trace (fst s) = []" and "\<forall>(r, n)\<in>set evs. r \<noteq> -1" and "evs \<noteq> []"
  shows "\<exists>cs l. user_calls (cs_trace (fst (fold (mf_event d) evs s))) = CbInit # cs \<and> CbInit \<notin> set cs
    \<and> life_run Fresh (CbInit # cs) = Some l \<and> l \<noteq> Done"
proof -
  have log: "user_calls (cs_trace (fst s)) = []" using assms(2) by simp
  obtain cs where cs: "user_calls (cs_trace (fst (fold (mf_event d) evs s))) = CbInit # cs" "CbInit \<notin> set cs"
    using mf.stream_init_once [OF assms(1) log assms(3,4)] by blast
  with mf.stream_protocol [OF assms(1,3)] show ?thesis by auto
qed

theorem multifactory_stream_witness:
  "\<exists>cs. user_calls (cs_trace (fst (fold (mf_event sample_mf_data) [(1, 0), (2, 1)] sample_mf))) = CbInit # cs"
proof -
  have "cs_trace (fst sample_mf) = []"
    by (simp add: sample_mf_def sample_multifactory_def new_component_def component.defs Let_def)
  from multifactory_stream [OF sample_mf_ready(1) this, of "[(1, 0), (2, 1)]"] show ?thesis by auto
qed

text \<open>
  The children an unfolder makes of a parent are numbered 0, 1, 2, \<open>\<dots>\<close>.  Each call of \<open>DoUnfold\<close> gives
  the child the next number, and the numbers start again at 0 after every result that asks for the next
  parent.
\<close>

theorem unfolder_numbers:
  assumes "cs_status c = CInitialized" and "m_child_number c = k"
  shows "map fst (unfold_run v parent children c) = numbering k (map snd (unfold_run v parent children c))
    \<and> length (unfold_run v parent children c) = length children
    \<and> list_all (\<lambda>(i, r). \<exists>x. r = Inr x) (unfold_run v parent children c)"
  using assms
proof (induction children arbitrary: c k)
  case (Cons child children)
  obtain c' r where c': "DoUnfold quiet v fw_quiet parent child c = ((c', SetEventIndex (m_child_number c) child), Inr r)"
    "cs_status c' = CInitialized" "m_child_number c' = (if r = NextChildKeepParent then m_child_number c + 1 else 0)"
    using DoUnfold_quiet [OF Cons.prems(1)] by blast
  from Cons.IH [OF c'(2) refl] c' Cons.prems(2) show ?case by (simp add: SetEventIndex_def)
qed simp

definition sample_unfolder :: JEventUnfolder where
  "sample_unfolder = component.extend (new_component\<lparr>cs_status := CInitialized\<rparr>)
     \<lparr>m_enable_simplified_callbacks = False, m_child_level = Subevent, m_child_number = 0, m_call_preprocess_upstream = True\<rparr>"

theorem unfolder_numbers_witness:
  "map fst (unfold_run (\<lambda>h. if length h = 3 then NextChildNextParent else NextChildKeepParent) (1, 0)
     [new_JEvent, new_JEvent, new_JEvent, new_JEvent] sample_unfolder) = [0, 1, 2, 0]"
proof -
  let ?run = "unfold_run (\<lambda>h. if length h = 3 then NextChildNextParent else NextChildKeepParent) (1, 0)
     [new_JEvent, new_JEvent, new_JEvent, new_JEvent] sample_unfolder"
  have init: "cs_status sample_unfolder = CInitialized" "m_child_number sample_unfolder = 0"
    by (simp_all add: sample_unfolder_def component.defs new_component_def)
  have "map snd ?run = [Inr NextChildKeepParent, Inr NextChildKeepParent, Inr NextChildNextParent, Inr NextChildKeepParent]"
    by (simp add: DoUnfold_def Let_def call_unfold_def unf_change_run_def action_basic set_last_run_def
        sample_unfolder_def component.defs new_component_def fw_quiet_def)
  with unfolder_numbers [OF init, of "\<lambda>h. if length h = 3 then NextChildNextParent else NextChildKeepParent" "(1, 0)"
      "[new_JEvent, new_JEvent, new_JEvent, new_JEvent]"]
  show ?thesis by (simp del: unfold_run.simps)
qed

end
