(* ===== verification/Arrows.thy ===== *)
theory Arrows
  imports Arrow Processor
begin

text \<open>
  The other arrows of the topology: \<open>JJunctionArrow.h\<close> (four places), \<open>JFoldArrow.h\<close> and
  \<open>JUnfoldArrow.h\<close> (parent and child events), \<open>JSubeventArrow.h\<close> (split, process and merge) and the
  \<open>process\<close> of \<open>JEventMapArrow.cc\<close>.
\<close>

section \<open>Junction arrows\<close>

record JJunctionArrow =
  first_input :: PlaceRef
  first_output :: PlaceRef
  second_input :: PlaceRef
  second_output :: PlaceRef

record Junction_data =
  fi :: Data
  fo :: Data
  si :: Data
  so :: Data

text \<open>\<open>try_pull_all\<close>; its second half starts when both places of the first kind have been pulled.\<close>

definition junction_pull_second ::
    "(nat \<Rightarrow> addr list \<Rightarrow> addr) \<Rightarrow> JJunctionArrow \<Rightarrow> Junction_data \<Rightarrow> world \<Rightarrow> (world \<times> Junction_data \<times> bool) result" where
  "junction_pull_second malloc arrow d w =
     rbind (pull malloc (second_input arrow) (si d) w) (\<lambda>(w1, si1, success).
     if \<not> success then
       rbind (revert (first_input arrow) (fi d) w1) (\<lambda>(w2, fi1).
       rbind (revert (first_output arrow) (fo d) w2) (\<lambda>(w3, fo1).
         Inr (w3, d\<lparr>fi := fi1, fo := fo1, si := si1\<rparr>, False)))
     else
     rbind (pull malloc (second_output arrow) (so d) w1) (\<lambda>(w2, so1, success).
     if \<not> success then
       rbind (revert (first_input arrow) (fi d) w2) (\<lambda>(w3, fi1).
       rbind (revert (first_output arrow) (fo d) w3) (\<lambda>(w4, fo1).
       rbind (revert (second_input arrow) si1 w4) (\<lambda>(w5, si2).
         Inr (w5, \<lparr>fi = fi1, fo = fo1, si = si2, so = so1\<rparr>, False))))
     else Inr (w2, d\<lparr>si := si1, so := so1\<rparr>, True)))"

definition junction_try_pull_all ::
    "(nat \<Rightarrow> addr list \<Rightarrow> addr) \<Rightarrow> JJunctionArrow \<Rightarrow> Junction_data \<Rightarrow> world \<Rightarrow> (world \<times> Junction_data \<times> bool) result" where
  "junction_try_pull_all malloc arrow d w =
     rbind (pull malloc (first_input arrow) (fi d) w) (\<lambda>(w1, fi1, success).
     if \<not> success then Inr (w1, d\<lparr>fi := fi1\<rparr>, False)
     else
     rbind (pull malloc (first_output arrow) (fo d) w1) (\<lambda>(w2, fo1, success).
     if \<not> success then
       rbind (revert (first_input arrow) fi1 w2) (\<lambda>(w3, fi2). Inr (w3, d\<lparr>fi := fi2, fo := fo1\<rparr>, False))
     else junction_pull_second malloc arrow (d\<lparr>fi := fi1, fo := fo1\<rparr>) w2))"

definition junction_push_all ::
    "JJunctionArrow \<Rightarrow> Junction_data \<Rightarrow> world \<Rightarrow> (world \<times> Junction_data \<times> nat) result" where
  "junction_push_all arrow d w =
     rbind (push (first_input arrow) (fi d) w) (\<lambda>(w1, fi1, n1).
     rbind (push (first_output arrow) (fo d) w1) (\<lambda>(w2, fo1, n2).
     rbind (push (second_input arrow) (si d) w2) (\<lambda>(w3, si1, n3).
     rbind (push (second_output arrow) (so d) w3) (\<lambda>(w4, so1, n4).
       Inr (w4, \<lparr>fi = fi1, fo = fo1, si = si1, so = so1\<rparr>, sz_add (sz_add (sz_add n1 n2) n3) n4)))))"

text \<open>\<open>proc\<close> is the \<open>process\<close> of the derived class.\<close>

type_synonym junction_process = "Junction_data \<Rightarrow> eheap \<Rightarrow> (eheap \<times> Junction_data \<times> ArrowStatus) result"

definition JJunctionArrow_execute ::
    "(nat \<Rightarrow> addr list \<Rightarrow> addr) \<Rightarrow> junction_process \<Rightarrow> (nat \<Rightarrow> int) \<Rightarrow> JJunctionArrow \<Rightarrow> nat \<Rightarrow> JArrowMetrics \<Rightarrow> world
     \<Rightarrow> (world \<times> JArrowMetrics) result" where
  "JJunctionArrow_execute malloc proc clock arrow loc metrics w =
     rbind (junction_try_pull_all malloc arrow
              \<lparr>fi = new_Data loc, fo = new_Data loc, si = new_Data loc, so = new_Data loc\<rparr> w) (\<lambda>(w1, d, success).
     if success then
       rbind (proc d (w_events w1)) (\<lambda>(E, d', process_status).
       rbind (junction_push_all arrow d' (w1\<lparr>w_events := E\<rparr>)) (\<lambda>(w2, _, events_processed).
         let latency = clock 2 - clock 1; overhead = (clock 3 - clock 0) - latency in
         Inr (w2, JArrowMetrics_update process_status events_processed 1 latency overhead metrics)))
     else Inr (w1, JArrowMetrics_update ComeBackLater 0 1 0 (clock 1 - clock 0) metrics))"

section \<open>Fold arrows\<close>

record JFoldArrow =
  fold_parent_level :: JEventLevel
  fold_child_level :: JEventLevel
  fold_child_in :: PlaceRef
  fold_child_out :: PlaceRef
  fold_parent_out :: PlaceRef

definition new_JFoldArrow :: "JEventLevel \<Rightarrow> JEventLevel \<Rightarrow> nat \<Rightarrow> place \<Rightarrow> place \<Rightarrow> JFoldArrow" where
  "new_JFoldArrow parent_level child_level child_in child_out parent_out =
     \<lparr>fold_parent_level = parent_level, fold_child_level = child_level,
      fold_child_in = new_PlaceRef (QueueRef child_in) True 1 1,
      fold_child_out = new_PlaceRef child_out False 1 1,
      fold_parent_out = new_PlaceRef parent_out False 1 1\<rparr>"

definition attach_child_in :: "nat \<Rightarrow> JFoldArrow \<Rightarrow> JFoldArrow" where
  "attach_child_in q arrow = arrow\<lparr>fold_child_in := set_queue q (fold_child_in arrow)\<rparr>"

definition attach_child_out :: "place \<Rightarrow> JFoldArrow \<Rightarrow> JFoldArrow" where
  "attach_child_out pl arrow = arrow\<lparr>fold_child_out :=
     (case pl of QueueRef q \<Rightarrow> set_queue q (fold_child_out arrow) | PoolRef p \<Rightarrow> set_pool p (fold_child_out arrow))\<rparr>"

definition attach_parent_out :: "place \<Rightarrow> JFoldArrow \<Rightarrow> JFoldArrow" where
  "attach_parent_out pl arrow = arrow\<lparr>fold_parent_out :=
     (case pl of QueueRef q \<Rightarrow> set_queue q (fold_parent_out arrow) | PoolRef p \<Rightarrow> set_pool p (fold_parent_out arrow))\<rparr>"

definition fold_try_pull_all ::
    "(nat \<Rightarrow> addr list \<Rightarrow> addr) \<Rightarrow> JFoldArrow \<Rightarrow> Data \<Rightarrow> Data \<Rightarrow> Data \<Rightarrow> world
     \<Rightarrow> (world \<times> Data \<times> Data \<times> Data \<times> bool) result" where
  "fold_try_pull_all malloc arrow ci co po w =
     rbind (pull malloc (fold_child_in arrow) ci w) (\<lambda>(w1, ci1, success).
     if \<not> success then Inr (w1, ci1, co, po, False)
     else
     rbind (pull malloc (fold_child_out arrow) co w1) (\<lambda>(w2, co1, success).
     if \<not> success then Inr (w2, ci1, co1, po, False)
     else
     rbind (pull malloc (fold_parent_out arrow) po w2) (\<lambda>(w3, po1, success).
       Inr (w3, ci1, co1, po1, success))))"

definition fold_push_all :: "JFoldArrow \<Rightarrow> Data \<Rightarrow> Data \<Rightarrow> Data \<Rightarrow> world \<Rightarrow> (world \<times> nat) result" where
  "fold_push_all arrow ci co po w =
     (let message_count = item_count co in
      rbind (push (fold_child_in arrow) ci w) (\<lambda>(w1, _, _).
      rbind (push (fold_child_out arrow) co w1) (\<lambda>(w2, _, _).
      rbind (push (fold_parent_out arrow) po w2) (\<lambda>(w3, _, _). Inr (w3, message_count)))))"

text \<open>The join between the pulls and the pushes: the child changes hands and gives up its parent.\<close>

definition put_item :: "addr ptr \<Rightarrow> nat \<Rightarrow> Data \<Rightarrow> Data" where
  "put_item item n d = d\<lparr>items := (items d)[0 := item], item_count := n\<rparr>"

definition fold_join ::
    "JFoldArrow \<Rightarrow> Data \<Rightarrow> Data \<Rightarrow> Data \<Rightarrow> eheap \<Rightarrow> (eheap \<times> Data \<times> Data \<times> Data) result" where
  "fold_join arrow ci co po E =
     (case items ci ! 0 of
        None \<Rightarrow> Inl (UndefinedBehaviour ''child->get()'')
      | Some child \<Rightarrow>
          if JEvent_GetLevel (E child) \<noteq> fold_child_level arrow
          then Inl (JExc ''JFoldArrow received a child with the wrong event level'')
          else
            rbind (ReleaseParent child (fold_parent_level arrow) E) (\<lambda>(E', parent).
              Inr (E', put_item nullptr 0 ci, put_item (Some child) 1 co,
                   put_item parent (if parent \<noteq> nullptr then 1 else 0) po)))"

definition JFoldArrow_execute ::
    "(nat \<Rightarrow> addr list \<Rightarrow> addr) \<Rightarrow> (nat \<Rightarrow> int) \<Rightarrow> JFoldArrow \<Rightarrow> nat \<Rightarrow> JArrowMetrics \<Rightarrow> world
     \<Rightarrow> (world \<times> JArrowMetrics) result" where
  "JFoldArrow_execute malloc clock arrow loc metrics w =
     rbind (fold_try_pull_all malloc arrow (new_Data loc) (new_Data loc) (new_Data loc) w) (\<lambda>(w1, ci, co, po, success).
     if success then
       rbind (fold_join arrow ci co po (w_events w1)) (\<lambda>(E, ci', co', po').
       rbind (fold_push_all arrow ci' co' po' (w1\<lparr>w_events := E\<rparr>)) (\<lambda>(w2, events_processed).
         let latency = clock 2 - clock 1; overhead = (clock 3 - clock 0) - latency in
         Inr (w2, JArrowMetrics_update KeepGoing events_processed 1 latency overhead metrics)))
     else Inr (w1, JArrowMetrics_update ComeBackLater 0 1 0 (clock 1 - clock 0) metrics))"

section \<open>Unfold arrows\<close>

record JUnfoldArrow =
  m_unfolder :: JEventUnfolder
  m_unfolder_level :: JEventLevel
  m_parent_event :: "addr ptr"
  m_ready_to_fetch_parent :: bool
  m_parent_in :: PlaceRef
  m_child_in :: PlaceRef
  m_child_out :: PlaceRef

definition new_JUnfoldArrow :: "JEventUnfolder \<Rightarrow> JEventLevel \<Rightarrow> nat \<Rightarrow> nat \<Rightarrow> nat \<Rightarrow> JUnfoldArrow" where
  "new_JUnfoldArrow unfolder level parent_in child_in child_out =
     \<lparr>m_unfolder = unfolder, m_unfolder_level = level, m_parent_event = nullptr, m_ready_to_fetch_parent = True,
      m_parent_in = new_PlaceRef (QueueRef parent_in) True 1 1,
      m_child_in = new_PlaceRef (PoolRef child_in) True 1 1,
      m_child_out = new_PlaceRef (QueueRef child_out) False 1 1\<rparr>"

definition unfold_attach_parent_in :: "nat \<Rightarrow> JUnfoldArrow \<Rightarrow> JUnfoldArrow" where
  "unfold_attach_parent_in q arrow = arrow\<lparr>m_parent_in := set_queue q (m_parent_in arrow)\<rparr>"

definition unfold_attach_child_in :: "place \<Rightarrow> JUnfoldArrow \<Rightarrow> JUnfoldArrow" where
  "unfold_attach_child_in pl arrow = arrow\<lparr>m_child_in :=
     (case pl of QueueRef q \<Rightarrow> set_queue q (m_child_in arrow) | PoolRef p \<Rightarrow> set_pool p (m_child_in arrow))\<rparr>"

definition unfold_attach_child_out :: "nat \<Rightarrow> JUnfoldArrow \<Rightarrow> JUnfoldArrow" where
  "unfold_attach_child_out q arrow = arrow\<lparr>m_child_out := set_queue q (m_child_out arrow)\<rparr>"

definition unfold_try_pull_all ::
    "(nat \<Rightarrow> addr list \<Rightarrow> addr) \<Rightarrow> JUnfoldArrow \<Rightarrow> Data \<Rightarrow> Data \<Rightarrow> Data \<Rightarrow> world
     \<Rightarrow> (world \<times> Data \<times> Data \<times> Data \<times> bool) result" where
  "unfold_try_pull_all malloc arrow pi_data ci co w =
     rbind (pull malloc (m_parent_in arrow) pi_data w) (\<lambda>(w1, pi1, success).
     if \<not> success then Inr (w1, pi1, ci, co, False)
     else
     rbind (pull malloc (m_child_in arrow) ci w1) (\<lambda>(w2, ci1, success).
     if \<not> success then
       rbind (push (m_parent_in arrow) pi1 w2) (\<lambda>(w3, pi2, _). Inr (w3, pi2, ci1, co, False))
     else
     rbind (pull malloc (m_child_out arrow) co w2) (\<lambda>(w3, co1, success).
     if \<not> success then
       rbind (push (m_parent_in arrow) pi1 w3) (\<lambda>(w4, pi2, _).
       rbind (push (m_child_in arrow) ci1 w4) (\<lambda>(w5, ci2, _). Inr (w5, pi2, ci2, co1, False)))
     else Inr (w3, pi1, ci1, co1, True))))"

definition unfold_push_all :: "JUnfoldArrow \<Rightarrow> Data \<Rightarrow> Data \<Rightarrow> Data \<Rightarrow> world \<Rightarrow> (world \<times> nat) result" where
  "unfold_push_all arrow pi_data ci co w =
     rbind (push (m_parent_in arrow) pi_data w) (\<lambda>(w1, _, n1).
     rbind (push (m_child_in arrow) ci w1) (\<lambda>(w2, _, n2).
     rbind (push (m_child_out arrow) co w2) (\<lambda>(w3, _, n3). Inr (w3, sz_add (sz_add n1 n2) n3))))"

definition JUnfoldArrow_get_pending :: "world \<Rightarrow> JUnfoldArrow \<Rightarrow> nat result" where
  "JUnfoldArrow_get_pending w arrow =
     rbind (JArrow_get_pending w 0 [m_parent_in arrow, m_child_in arrow, m_child_out arrow]) (\<lambda>pending.
       Inr (if m_parent_event arrow \<noteq> nullptr then sz_add pending 1 else pending))"

text \<open>
  The part between the pulls and the pushes.  A fresh parent is taken over when the arrow has none; the
  child is unfolded and attached to it; when the unfolder asks for the next parent, the arrow gives up
  its own reference.
\<close>

definition unfold_fetch_parent :: "JUnfoldArrow \<Rightarrow> Data \<Rightarrow> JUnfoldArrow \<times> Data" where
  "unfold_fetch_parent arrow pi_data =
     (if m_ready_to_fetch_parent arrow
      then (arrow\<lparr>m_ready_to_fetch_parent := False,
                  m_parent_in := (m_parent_in arrow)\<lparr>min_item_count := 0, max_item_count := 0\<rparr>,
                  m_parent_event := items pi_data ! 0\<rparr>,
            put_item nullptr 0 pi_data)
      else (arrow, pi_data))"

definition unfold_drop_parent :: "addr \<Rightarrow> JUnfoldArrow \<Rightarrow> eheap \<Rightarrow> (JUnfoldArrow \<times> eheap) result" where
  "unfold_drop_parent parent arrow E =
     rbind (JEvent_Release parent E) (\<lambda>E'.
       Inr (arrow\<lparr>m_ready_to_fetch_parent := True, m_parent_event := nullptr,
                  m_parent_in := (m_parent_in arrow)\<lparr>min_item_count := 1, max_item_count := 1\<rparr>\<rparr>, E'))"

definition unfold_join ::
    "user_code \<Rightarrow> unfold_code \<Rightarrow> framework \<Rightarrow> JUnfoldArrow \<Rightarrow> Data \<Rightarrow> Data \<Rightarrow> Data \<Rightarrow> eheap
     \<Rightarrow> (JUnfoldArrow \<times> eheap \<times> Data \<times> Data \<times> Data) result" where
  "unfold_join u v fw arrow0 pi_data ci co E =
     (case unfold_fetch_parent arrow0 pi_data of (arrow, pi') \<Rightarrow>
      case m_parent_event arrow of
        None \<Rightarrow> Inl (JExc ''Attempting to unfold without a valid parent event'')
      | Some parent \<Rightarrow>
          if JEvent_GetLevel (E parent) \<noteq> m_unfolder_level arrow
          then Inl (JExc ''JUnfolder: Expected parent with level %d, got %d'')
          else case items ci ! 0 of
            None \<Rightarrow> Inl (UndefinedBehaviour ''child->get()'')
          | Some child \<Rightarrow>
              if JEvent_GetLevel (E child) \<noteq> m_child_level (m_unfolder arrow)
              then Inl (JExc ''JUnfolder: Expected child with level %d, got %d'')
              else
                case DoUnfold u v fw (mRunNumber (E parent), mEventNumber (E parent)) (E child) (m_unfolder arrow) of
                  (_, Inl ex) \<Rightarrow> Inl (JExc (message ex))
                | ((unfolder, child_event), Inr status) \<Rightarrow>
                    rbind (SetParent child parent (E(child := child_event))) (\<lambda>E1.
                    rbind (if status = NextChildNextParent \<or> status = KeepChildNextParent
                           then unfold_drop_parent parent (arrow\<lparr>m_unfolder := unfolder\<rparr>) E1
                           else Inr (arrow\<lparr>m_unfolder := unfolder\<rparr>, E1)) (\<lambda>(arrow', E2).
                      Inr (arrow', E2, pi', put_item nullptr 0 ci, put_item (Some child) 1 co))))"

definition JUnfoldArrow_execute ::
    "(nat \<Rightarrow> addr list \<Rightarrow> addr) \<Rightarrow> user_code \<Rightarrow> unfold_code \<Rightarrow> framework \<Rightarrow> (nat \<Rightarrow> int) \<Rightarrow> JUnfoldArrow \<Rightarrow> nat
     \<Rightarrow> JArrowMetrics \<Rightarrow> world \<Rightarrow> (JUnfoldArrow \<times> world \<times> JArrowMetrics) result" where
  "JUnfoldArrow_execute malloc u v fw clock arrow loc metrics w =
     rbind (unfold_try_pull_all malloc arrow (new_Data loc) (new_Data loc) (new_Data loc) w) (\<lambda>(w1, pi1, ci, co, success).
     if success then
       rbind (unfold_join u v fw arrow pi1 ci co (w_events w1)) (\<lambda>(arrow', E, pi2, ci', co').
       rbind (unfold_push_all arrow' pi2 ci' co' (w1\<lparr>w_events := E\<rparr>)) (\<lambda>(w2, events_processed).
         let latency = clock 2 - clock 1; overhead = (clock 3 - clock 0) - latency in
         Inr (arrow', w2, JArrowMetrics_update KeepGoing events_processed 1 latency overhead metrics)))
     else Inr (arrow, w1, JArrowMetrics_update ComeBackLater 0 1 0 (clock 1 - clock 0) metrics))"

section \<open>Map arrows\<close>

text \<open>
  \<open>JEventMapArrow::process\<close> calls \<open>Preprocess\<close> of every source and then of every unfolder itself, with
  neither the state check nor the exception wrapper of \<open>DoPreprocess\<close>.  \<open>pre c\<close> is the user code of
  component \<open>c\<close> and says what it throws.
\<close>

fun map_preprocess :: "(nat \<Rightarrow> user_throw option) \<Rightarrow> nat list \<Rightarrow> nat list \<Rightarrow> nat list \<times> (user_throw + unit)" where
  "map_preprocess pre [] called = (called, Inr ())"
| "map_preprocess pre (c # cs) called =
     (case pre c of None \<Rightarrow> map_preprocess pre cs (called @ [c]) | Some ex \<Rightarrow> (called @ [c], Inl ex))"

definition JEventMapArrow_process ::
    "(nat \<Rightarrow> user_throw option) \<Rightarrow> nat list \<Rightarrow> nat list \<Rightarrow> nat list \<times> (user_throw + bool \<times> ArrowStatus)" where
  "JEventMapArrow_process pre sources unfolders =
     (case map_preprocess pre sources [] of
        (called, Inl ex) \<Rightarrow> (called, Inl ex)
      | (called, Inr _) \<Rightarrow>
          (case map_preprocess pre unfolders called of
             (called', Inl ex) \<Rightarrow> (called', Inl ex)
           | (called', Inr _) \<Rightarrow> (called', Inr (True, KeepGoing))))"

section \<open>A pull that fails takes nothing\<close>

lemma pop_and_reserve_count:
  "JMailbox_pop_and_reserve buf mn mx l mb = Inr (mb', buf', n) \<Longrightarrow> mn \<le> mx \<Longrightarrow> mn \<le> n \<or> n = 0"
  by (auto simp: JMailbox_pop_and_reserve_def at_location_def lq_pop_and_reserve_def Let_def rbind_Inr_iff split: if_splits)

lemma reserve_count_min:
  "JMailbox_reserve mn mx l mb = Inr (mb', n) \<Longrightarrow> mn \<le> n \<or> n = 0"
  by (auto simp: JMailbox_reserve_def at_location_def lq_reserve_def Let_def rbind_Inr_iff split: if_splits)

lemma pool_pop_count:
  "JPool_pop malloc dest mn mx l pool = Inr (pool', dest', n) \<Longrightarrow> mn \<le> mx \<Longrightarrow> mn \<le> n \<or> n = 0"
  by (auto simp: JPool_pop_def with_pools_def Let_def rbind_Inr_iff split: if_splits option.splits)

lemma pull_refused:
  assumes "pull malloc pr data w = Inr (w', data', False)" and "min_item_count pr \<le> max_item_count pr"
  shows "item_count data' = 0 \<and> reserve_count data' = 0"
  using assms
  by (auto simp: pull_def rbind_Inr_iff split: if_splits
      dest!: pop_and_reserve_count reserve_count_min pool_pop_count)

section \<open>What an arrow holds between its pulls and its pushes\<close>

text \<open>
  \<open>holds t H R l w ts\<close>: the books of the world balance once the buffers \<open>ts\<close> of the arrow, each with its
  place and the events in it, are counted.
\<close>

type_synonym buffer = "PlaceRef \<times> Data \<times> addr list"

fun taken :: "topology \<Rightarrow> buffer list \<Rightarrow> (nat \<Rightarrow> addr multiset) \<Rightarrow> nat \<Rightarrow> addr multiset" where
  "taken t [] H = H"
| "taken t ((pr, d, xs) # ts) H = give (place_home t pr) xs (taken t ts H)"

fun booked :: "nat \<Rightarrow> buffer list \<Rightarrow> (nat \<Rightarrow> nat \<Rightarrow> nat) \<Rightarrow> nat \<Rightarrow> nat \<Rightarrow> nat" where
  "booked l [] R = R"
| "booked l ((pr, d, xs) # ts) R = book_at pr l (reserve_count d) (booked l ts R)"

definition holds ::
    "topology \<Rightarrow> (nat \<Rightarrow> addr multiset) \<Rightarrow> (nat \<Rightarrow> nat \<Rightarrow> nat) \<Rightarrow> nat \<Rightarrow> world \<Rightarrow> buffer list \<Rightarrow> bool" where
  "holds t H R l w ts \<longleftrightarrow> world_sound t (taken t ts H) (booked l ts R) w
     \<and> (\<forall>(pr, d, xs)\<in>set ts. loaded pr l d xs \<and> place_fits t w pr l)"

lemma taken_give: "taken t ts (give p ys H) = give p ys (taken t ts H)"
  by (induction ts) (auto simp: give_comm)

lemma booked_book: "booked l ts (book_at pr l' n R) = book_at pr l' n (booked l ts R)"
  by (induction ts) (auto simp: book_at_comm)

lemma taken_append: "taken t (us @ ts) H = taken t us (taken t ts H)"
  by (induction us) auto

lemma booked_append: "booked l (us @ ts) R = booked l us (booked l ts R)"
  by (induction us) auto

lemma taken_swap: "taken t us (taken t ts H) = taken t ts (taken t us H)"
  by (induction us) (auto simp: taken_give)

lemma booked_swap: "booked l us (booked l ts R) = booked l ts (booked l us R)"
  by (induction us) (auto simp: booked_book)

lemma holds_rotate: "holds t H R l w (us @ ts) \<longleftrightarrow> holds t H R l w (ts @ us)"
  by (simp add: holds_def taken_append booked_append taken_swap [of t us] booked_swap [of l us] Un_commute)

lemma holds_snoc: "holds t H R l w (ts @ [x]) \<longleftrightarrow> holds t H R l w (x # ts)"
  using holds_rotate [of t H R l w ts "[x]"] by simp

lemma holds_Nil [simp]: "holds t H R l w [] \<longleftrightarrow> world_sound t H R w"
  by (simp add: holds_def)

lemma holds_events [simp]: "holds t H R l (w\<lparr>w_events := E\<rparr>) ts = holds t H R l w ts"
  by (simp add: holds_def)

lemma hold_pull:
  assumes w: "holds t H R l w ts" and pr: "place_fits t w pr l"
  obtains w' d ok xs where "pull (t_malloc t) pr (new_Data l) w = Inr (w', d, ok)" and "same_layout w w'"
    and "\<not> ok \<Longrightarrow> holds t H R l w' ts" and "ok \<Longrightarrow> holds t H R l w' ((pr, d, xs) # ts)"
    and "is_input pr \<Longrightarrow> ok \<Longrightarrow> min_item_count pr \<le> length xs" and "length xs \<le> max_item_count pr"
    and "\<not> is_input pr \<Longrightarrow> xs = []" and "\<not> is_input pr \<Longrightarrow> is_queue pr \<Longrightarrow> ok \<Longrightarrow> min_item_count pr \<le> reserve_count d"
    and "loaded pr l d xs"
proof -
  from w have sound: "world_sound t (taken t ts H) (booked l ts R) w" by (simp add: holds_def)
  obtain w' d ok xs where p: "pull (t_malloc t) pr (new_Data l) w = Inr (w', d, ok)" "loaded pr l d xs"
    "world_sound t (give (place_home t pr) xs (taken t ts H)) (book_at pr l (reserve_count d) (booked l ts R)) w'"
    "same_layout w w'" "is_input pr \<Longrightarrow> ok \<longleftrightarrow> min_item_count pr \<le> length xs"
    "\<not> is_input pr \<Longrightarrow> xs = []" "length xs \<le> max_item_count pr"
    "\<not> is_input pr \<Longrightarrow> is_queue pr \<Longrightarrow> ok \<longleftrightarrow> min_item_count pr \<le> reserve_count d"
    by (rule pull_sound [OF sound pr new_Data_loaded(3,4)]) blast
  have fits: "\<forall>(pr, d, xs)\<in>set ts. loaded pr l d xs \<and> place_fits t w' pr l" "place_fits t w' pr l"
    using w pr by (auto simp: holds_def place_fits_layout [OF p(4)])
  have got: "holds t H R l w' ((pr, d, xs) # ts)" using p(2,3) fits by (simp add: holds_def)
  have none: "holds t H R l w' ts" if "\<not> ok"
  proof -
    have "min_item_count pr \<le> max_item_count pr" using pr by (simp add: place_fits_def)
    with pull_refused [of "t_malloc t" pr "new_Data l" w w' d] p(1) that have "item_count d = 0" "reserve_count d = 0" by auto
    moreover from this(1) p(2) have "xs = []" by (simp add: loaded_def)
    ultimately show ?thesis using p(3) fits by (simp add: holds_def)
  qed
  show ?thesis by (rule that [OF p(1,4) none got]) (use p(2,5-8) in auto)
qed

lemma hold_push:
  assumes w: "holds t H R l w ((pr, d, xs) # ts)"
  obtains w' d' n where "push pr d w = Inr (w', d', n)" and "holds t H R l w' ts" and "same_layout w w'"
proof -
  from w have "world_sound t (give (place_home t pr) xs (taken t ts H)) (book_at pr l (reserve_count d) (booked l ts R)) w"
    and "place_fits t w pr l" and "loaded pr l d xs" by (auto simp: holds_def)
  then obtain w' d' n where p: "push pr d w = Inr (w', d', n)" "world_sound t (taken t ts H) (booked l ts R) w'"
    "same_layout w w'" by (rule push_sound)
  have "holds t H R l w' ts" using w p(2) by (auto simp: holds_def place_fits_layout [OF p(3)])
  with p show ?thesis by (intro that [of w' d' n]) auto
qed

lemma hold_revert:
  assumes w: "holds t H R l w ((pr, d, xs) # ts)" and out: "\<not> is_input pr \<Longrightarrow> xs = []"
  obtains w' d' where "revert pr d w = Inr (w', d')" and "holds t H R l w' ts" and "same_layout w w'"
proof -
  from w have "world_sound t (give (place_home t pr) xs (taken t ts H)) (book_at pr l (reserve_count d) (booked l ts R)) w"
    and "place_fits t w pr l" and "loaded pr l d xs" by (auto simp: holds_def)
  then obtain w' d' where p: "revert pr d w = Inr (w', d')" "world_sound t (taken t ts H) (booked l ts R) w'"
    "same_layout w w'" using out by (rule revert_sound) blast
  have "holds t H R l w' ts" using w p(2) by (auto simp: holds_def place_fits_layout [OF p(3)])
  with p show ?thesis by (intro that [of w' d']) auto
qed

lemma holds_first:
  "holds t H R l w [b, a] \<longleftrightarrow> holds t H R l w [a, b]"
  "holds t H R l w [c, b, a] \<longleftrightarrow> holds t H R l w [a, c, b]"
  "holds t H R l w [d, c, b, a] \<longleftrightarrow> holds t H R l w [a, d, c, b]"
  using holds_snoc [of t H R l w "[b]" a] holds_snoc [of t H R l w "[c, b]" a] holds_snoc [of t H R l w "[d, c, b]" a]
  by simp_all

section \<open>Junction arrows keep the books\<close>

definition buffers :: "JJunctionArrow \<Rightarrow> Junction_data \<Rightarrow> addr list list \<Rightarrow> buffer list" where
  "buffers arrow d xss = [(first_input arrow, fi d, xss ! 0), (second_output arrow, so d, xss ! 3),
     (second_input arrow, si d, xss ! 2), (first_output arrow, fo d, xss ! 1)]"

definition junction_fits :: "topology \<Rightarrow> world \<Rightarrow> JJunctionArrow \<Rightarrow> nat \<Rightarrow> bool" where
  "junction_fits t w arrow l \<longleftrightarrow> place_fits t w (first_input arrow) l \<and> place_fits t w (first_output arrow) l
     \<and> place_fits t w (second_input arrow) l \<and> place_fits t w (second_output arrow) l"

definition pulled :: "topology \<Rightarrow> (nat \<Rightarrow> addr multiset) \<Rightarrow> (nat \<Rightarrow> nat \<Rightarrow> nat) \<Rightarrow> nat \<Rightarrow> JJunctionArrow
    \<Rightarrow> (world \<times> Junction_data \<times> bool) result \<Rightarrow> bool" where
  "pulled t H R l arrow r \<longleftrightarrow> (\<exists>w d ok. r = Inr (w, d, ok)
     \<and> (ok \<longrightarrow> (\<exists>xss. holds t H R l w (buffers arrow d xss))) \<and> (\<not> ok \<longrightarrow> world_sound t H R w))"

lemma pulled_Inr [simp]:
  "pulled t H R l arrow (Inr (w, d, True)) \<longleftrightarrow> (\<exists>xss. holds t H R l w (buffers arrow d xss))"
  "pulled t H R l arrow (Inr (w, d, False)) \<longleftrightarrow> world_sound t H R w"
  by (auto simp: pulled_def)

lemma junction_pulls_second:
  assumes fits: "place_fits t w (second_input arrow) l" "place_fits t w (second_output arrow) l"
    and w: "holds t H R l w [(first_output arrow, d2, b), (first_input arrow, d1, a)]"
    and out1: "\<not> is_input (first_input arrow) \<Longrightarrow> a = []" and out2: "\<not> is_input (first_output arrow) \<Longrightarrow> b = []"
  shows "pulled t H R l arrow (junction_pull_second (t_malloc t) arrow
    \<lparr>fi = d1, fo = d2, si = new_Data l, so = new_Data l\<rparr> w)"
proof -
  obtain w3 d3 ok3 c where 3: "pull (t_malloc t) (second_input arrow) (new_Data l) w = Inr (w3, d3, ok3)" "same_layout w w3"
    "\<not> ok3 \<Longrightarrow> holds t H R l w3 [(first_output arrow, d2, b), (first_input arrow, d1, a)]"
    "ok3 \<Longrightarrow> holds t H R l w3 [(second_input arrow, d3, c), (first_output arrow, d2, b), (first_input arrow, d1, a)]"
    and out3: "\<not> is_input (second_input arrow) \<Longrightarrow> c = []"
    by (rule hold_pull [OF w fits(1)]) blast
  show ?thesis
  proof (cases ok3)
    case False
    from hold_revert [OF 3(3) [OF this, unfolded holds_first(1)] out1] obtain w4 e1 where
      4: "revert (first_input arrow) d1 w3 = Inr (w4, e1)" "holds t H R l w4 [(first_output arrow, d2, b)]" by blast
    from hold_revert [OF 4(2) out2] obtain w5 e2 where
      "revert (first_output arrow) d2 w4 = Inr (w5, e2)" "holds t H R l w5 []" by blast
    with 3(1) 4(1) False show ?thesis by (simp add: junction_pull_second_def)
  next
    case ok3: True
    obtain w4 d4 ok4 e where 4: "pull (t_malloc t) (second_output arrow) (new_Data l) w3 = Inr (w4, d4, ok4)"
      "\<not> ok4 \<Longrightarrow> holds t H R l w4 [(second_input arrow, d3, c), (first_output arrow, d2, b), (first_input arrow, d1, a)]"
      "ok4 \<Longrightarrow> holds t H R l w4
         [(second_output arrow, d4, e), (second_input arrow, d3, c), (first_output arrow, d2, b), (first_input arrow, d1, a)]"
      by (rule hold_pull [OF 3(4) [OF ok3] fits(2) [folded place_fits_layout [OF 3(2)]]]) blast
    show ?thesis
    proof (cases ok4)
      case False
      from hold_revert [OF 4(2) [OF this, unfolded holds_first(2)] out1] obtain w5 e1 where
        5: "revert (first_input arrow) d1 w4 = Inr (w5, e1)"
          "holds t H R l w5 [(second_input arrow, d3, c), (first_output arrow, d2, b)]" by blast
      from hold_revert [OF 5(2) [unfolded holds_first(1)] out2] obtain w6 e2 where
        6: "revert (first_output arrow) d2 w5 = Inr (w6, e2)" "holds t H R l w6 [(second_input arrow, d3, c)]" by blast
      from hold_revert [OF 6(2) out3] obtain w7 e3 where
        "revert (second_input arrow) d3 w6 = Inr (w7, e3)" "holds t H R l w7 []" by blast
      with 3(1) 4(1) 5(1) 6(1) ok3 False show ?thesis by (simp add: junction_pull_second_def)
    next
      case True
      from 4(3) [OF True, unfolded holds_first(3)]
      have "holds t H R l w4 (buffers arrow \<lparr>fi = d1, fo = d2, si = d3, so = d4\<rparr> [a, b, c, e])" by (simp add: buffers_def)
      with 3(1) 4(1) ok3 True show ?thesis by (auto simp: junction_pull_second_def)
    qed
  qed
qed

lemma junction_pulls:
  assumes w: "world_sound t H R w" and fits: "junction_fits t w arrow l"
  shows "pulled t H R l arrow (junction_try_pull_all (t_malloc t) arrow
      \<lparr>fi = new_Data l, fo = new_Data l, si = new_Data l, so = new_Data l\<rparr> w)"
proof -
  have fits': "place_fits t w' (first_input arrow) l" "place_fits t w' (first_output arrow) l"
    "place_fits t w' (second_input arrow) l" "place_fits t w' (second_output arrow) l" if "same_layout w w'" for w'
    using fits by (auto simp: junction_fits_def place_fits_layout [OF that])
  have "holds t H R l w []" using w by simp
  then obtain w1 d1 ok1 a where 1: "pull (t_malloc t) (first_input arrow) (new_Data l) w = Inr (w1, d1, ok1)" "same_layout w w1"
    "\<not> ok1 \<Longrightarrow> holds t H R l w1 []" "ok1 \<Longrightarrow> holds t H R l w1 [(first_input arrow, d1, a)]"
    and out1: "\<not> is_input (first_input arrow) \<Longrightarrow> a = []"
    by (rule hold_pull [OF _ fits'(1) [OF same_layout_refl]]) blast
  show ?thesis
  proof (cases ok1)
    case False
    with 1 show ?thesis by (simp add: junction_try_pull_all_def)
  next
    case ok1: True
    obtain w2 d2 ok2 b where 2: "pull (t_malloc t) (first_output arrow) (new_Data l) w1 = Inr (w2, d2, ok2)" "same_layout w1 w2"
      "\<not> ok2 \<Longrightarrow> holds t H R l w2 [(first_input arrow, d1, a)]"
      "ok2 \<Longrightarrow> holds t H R l w2 [(first_output arrow, d2, b), (first_input arrow, d1, a)]"
      and out2: "\<not> is_input (first_output arrow) \<Longrightarrow> b = []"
      by (rule hold_pull [OF 1(4) [OF ok1] fits'(2) [OF 1(2)]]) blast
    note fits2 = fits' [OF same_layout_trans [OF 1(2) 2(2)]]
    show ?thesis
    proof (cases ok2)
      case False
      from hold_revert [OF 2(3) [OF this] out1] obtain w3 d3 where "revert (first_input arrow) d1 w2 = Inr (w3, d3)"
        "holds t H R l w3 []" by blast
      with 1(1) 2(1) ok1 False show ?thesis by (simp add: junction_try_pull_all_def)
    next
      case ok2: True
      from junction_pulls_second [OF fits2(3,4) 2(4) [OF ok2] out1 out2] 1(1) 2(1) ok1 ok2
      show ?thesis by (simp add: junction_try_pull_all_def)
    qed
  qed
qed

lemma junction_pushes:
  assumes "holds t H R l w (buffers arrow d xss)"
  shows "\<exists>w' d' n. junction_push_all arrow d w = Inr (w', d', n) \<and> world_sound t H R w'"
proof -
  let ?so = "(second_output arrow, so d, xss ! 3)" and ?si = "(second_input arrow, si d, xss ! 2)"
    and ?fo = "(first_output arrow, fo d, xss ! 1)"
  obtain w1 d1 n1 where 1: "push (first_input arrow) (fi d) w = Inr (w1, d1, n1)" "holds t H R l w1 [?so, ?si, ?fo]"
    using assms unfolding buffers_def by (rule hold_push)
  obtain w2 d2 n2 where 2: "push (first_output arrow) (fo d) w1 = Inr (w2, d2, n2)" "holds t H R l w2 [?so, ?si]"
    by (rule hold_push [OF 1(2) [unfolded holds_first]])
  obtain w3 d3 n3 where 3: "push (second_input arrow) (si d) w2 = Inr (w3, d3, n3)" "holds t H R l w3 [?so]"
    by (rule hold_push [OF 2(2) [unfolded holds_first]])
  obtain w4 d4 n4 where 4: "push (second_output arrow) (so d) w3 = Inr (w4, d4, n4)" "holds t H R l w4 []"
    by (rule hold_push [OF 3(2)])
  from 1(1) 2(1) 3(1) 4 show ?thesis by (simp add: junction_push_all_def)
qed

text \<open>
  A \<open>process\<close> is fair when it neither invents nor loses events: what it leaves in the buffers of a pool's
  places is what it found there, and it does not touch the reservations.
\<close>

definition fair :: "topology \<Rightarrow> JJunctionArrow \<Rightarrow> junction_process \<Rightarrow> nat \<Rightarrow> bool" where
  "fair t arrow proc l \<longleftrightarrow> (\<forall>d xss E.
     (\<forall>(pr, d, xs)\<in>set (buffers arrow d xss). loaded pr l d xs) \<longrightarrow>
     (\<exists>E' d' st yss. proc d E = Inr (E', d', st) \<and>
        (\<forall>(pr, d, xs)\<in>set (buffers arrow d' yss). loaded pr l d xs) \<and>
        taken t (buffers arrow d' yss) = taken t (buffers arrow d xss) \<and>
        booked l (buffers arrow d' yss) = booked l (buffers arrow d xss)))"

lemma fair_step:
  assumes "fair t arrow proc l" and "holds t H R l w (buffers arrow d xss)"
  shows "\<exists>E' d' st yss. proc d E = Inr (E', d', st) \<and> holds t H R l w (buffers arrow d' yss)"
proof -
  have "\<forall>(pr, d, xs)\<in>set (buffers arrow d xss). loaded pr l d xs"
    using assms(2) by (auto simp: holds_def)
  then obtain E' d' st yss where p: "proc d E = Inr (E', d', st)"
    "\<forall>(pr, d, xs)\<in>set (buffers arrow d' yss). loaded pr l d xs"
    "taken t (buffers arrow d' yss) = taken t (buffers arrow d xss)"
    "booked l (buffers arrow d' yss) = booked l (buffers arrow d xss)"
    using assms(1) unfolding fair_def by blast
  from assms(2) p(2-4) have "holds t H R l w (buffers arrow d' yss)"
    by (auto simp: holds_def buffers_def)
  with p(1) show ?thesis by blast
qed


definition sample_junction :: JJunctionArrow where
  "sample_junction = \<lparr>first_input = new_PlaceRef (PoolRef 0) True 1 1, first_output = new_PlaceRef (QueueRef 0) False 1 1,
     second_input = new_PlaceRef (QueueRef 0) True 0 1, second_output = new_PlaceRef (PoolRef 0) False 1 1\<rparr>"

definition pass_through :: junction_process where
  "pass_through d E = Inr (E, d, KeepGoing)"

lemma sample_junction_fits: "junction_fits sample_net sample_world sample_junction 0"
  by (simp add: junction_fits_def place_fits_def sample_junction_def new_PlaceRef_def sample_net_def
      sample_world_def new_JMailbox_def ARROWDATA_MAX_SIZE_def)

lemma pass_through_fair: "fair t arrow pass_through l"
  unfolding fair_def pass_through_def by blast


section \<open>Unfold arrows keep the books\<close>

definition unfold_fits :: "topology \<Rightarrow> world \<Rightarrow> JUnfoldArrow \<Rightarrow> nat \<Rightarrow> bool" where
  "unfold_fits t w arrow l \<longleftrightarrow>
     place_fits t w (m_parent_in arrow) l \<and> is_input (m_parent_in arrow)
     \<and> place_fits t w (m_child_in arrow) l \<and> is_input (m_child_in arrow)
     \<and> min_item_count (m_child_in arrow) = 1 \<and> max_item_count (m_child_in arrow) = 1
     \<and> place_fits t w (m_child_out arrow) l \<and> \<not> is_input (m_child_out arrow)
     \<and> min_item_count (m_child_out arrow) = 1 \<and> max_item_count (m_child_out arrow) = 1
     \<and> place_home t (m_child_out arrow) = place_home t (m_child_in arrow)
     \<and> (m_ready_to_fetch_parent arrow \<longleftrightarrow> m_parent_event arrow = nullptr)
     \<and> (let n = (if m_ready_to_fetch_parent arrow then 1 else 0) in
        min_item_count (m_parent_in arrow) = n \<and> max_item_count (m_parent_in arrow) = n)"

definition same_arrow_places :: "JUnfoldArrow \<Rightarrow> JUnfoldArrow \<Rightarrow> bool" where
  "same_arrow_places a a' \<longleftrightarrow> m_child_in a' = m_child_in a \<and> m_child_out a' = m_child_out a
     \<and> place_ref (m_parent_in a') = place_ref (m_parent_in a) \<and> is_queue (m_parent_in a') = is_queue (m_parent_in a)
     \<and> is_input (m_parent_in a') = is_input (m_parent_in a)"

lemma same_places_home: "same_arrow_places a a' \<Longrightarrow> place_home t (m_parent_in a') = place_home t (m_parent_in a)"
  "same_arrow_places a a' \<Longrightarrow> book_at (m_parent_in a') = book_at (m_parent_in a)"
  "same_arrow_places a a' \<Longrightarrow> loaded (m_parent_in a') = loaded (m_parent_in a)"
  by (auto simp: same_arrow_places_def place_home_def book_at_def loaded_def fun_eq_iff)

lemma put_item_loaded:
  "loaded pr l d xs \<Longrightarrow> loaded pr l (put_item nullptr 0 d) []"
  "loaded pr l d [] \<Longrightarrow> (is_queue pr \<Longrightarrow> 1 \<le> reserve_count d) \<Longrightarrow> loaded pr l (put_item (Some e) 1 d) [e]"
  "reserve_count (put_item x n d) = reserve_count d"
  by (cases "items d"; force simp: loaded_def put_item_def ARROWDATA_MAX_SIZE_def)+

lemma place_fits_resize:
  "place_fits t w pr l \<Longrightarrow> mn \<le> mx \<Longrightarrow> mx \<le> ARROWDATA_MAX_SIZE \<Longrightarrow>
     place_fits t w (pr\<lparr>min_item_count := mn, max_item_count := mx\<rparr>) l"
  by (simp add: place_fits_def split: option.splits place.splits)

lemma loaded_first: "loaded pr l d [e] \<Longrightarrow> items d ! 0 = Some e"
  by (cases "items d") (auto simp: loaded_def)

text \<open>A join that does not throw: the child is unfolded, attached, and moved to the outgoing buffer.\<close>

lemma unfold_join_elim:
  assumes run: "unfold_join u v fw arrow pd ci co E = Inr (arrow', E', pd', ci', co')"
    and fetch: "unfold_fetch_parent arrow pd = (a1, pd1)" and child: "items ci ! 0 = Some c"
  obtains p f ce st E1 where "m_parent_event a1 = Some p" and "SetParent c p (E(c := ce)) = Inr E1"
    and "st \<in> {NextChildNextParent, KeepChildNextParent} \<Longrightarrow> unfold_drop_parent p (a1\<lparr>m_unfolder := f\<rparr>) E1 = Inr (arrow', E')"
    and "st = NextChildKeepParent \<Longrightarrow> arrow' = a1\<lparr>m_unfolder := f\<rparr> \<and> E' = E1"
    and "DoUnfold u v fw (mRunNumber (E p), mEventNumber (E p)) (E c) (m_unfolder a1) = ((f, ce), Inr st)"
    and "pd' = pd1" and "ci' = put_item nullptr 0 ci" and "co' = put_item (Some c) 1 co"
proof -
  obtain p where p: "m_parent_event a1 = Some p" using run fetch by (cases "m_parent_event a1") (simp_all add: unfold_join_def)
  have lev: "JEvent_GetLevel (E p) = m_unfolder_level a1" "JEvent_GetLevel (E c) = m_child_level (m_unfolder a1)"
    using run fetch p child by (auto simp: unfold_join_def split: if_splits)
  obtain f ce r where do: "DoUnfold u v fw (mRunNumber (E p), mEventNumber (E p)) (E c) (m_unfolder a1) = ((f, ce), r)"
    by (metis prod.exhaust)
  with run fetch p child lev obtain st where st: "r = Inr st" by (cases r) (simp_all add: unfold_join_def)
  from run fetch p child lev do st obtain E1 a2 E2 where 1: "SetParent c p (E(c := ce)) = Inr E1"
    "(if st = NextChildNextParent \<or> st = KeepChildNextParent then unfold_drop_parent p (a1\<lparr>m_unfolder := f\<rparr>) E1
      else Inr (a1\<lparr>m_unfolder := f\<rparr>, E1)) = Inr (a2, E2)"
    and 2: "arrow' = a2" "E' = E2" "pd' = pd1" "ci' = put_item nullptr 0 ci" "co' = put_item (Some c) 1 co"
    by (auto simp: unfold_join_def elim!: rbind_InrE)
  show ?thesis
    by (rule that [OF p 1(1) _ _ do [unfolded st] 2(3-5)]) (use 1(2) 2(1,2) in auto)
qed

lemma unfold_join_fault:
  assumes "unfold_join u v fw arrow pd ci co E = Inl f" and child: "items ci ! 0 = Some c"
  shows "\<exists>msg. f = JExc msg"
proof -
  obtain a1 pd1 where fetch: "unfold_fetch_parent arrow pd = (a1, pd1)" by fastforce
  have exc: "SetParent x y H = Inl g \<Longrightarrow> \<exists>msg. g = JExc msg" "unfold_drop_parent y a H = Inl g \<Longrightarrow> \<exists>msg. g = JExc msg" for x y a H g
    by (auto simp: SetParent_def unfold_drop_parent_def JEvent_Release_def Let_def split: if_splits)
  show ?thesis
  proof (cases "m_parent_event a1")
    case None
    with assms fetch show ?thesis by (auto simp: unfold_join_def)
  next
    case (Some p)
    show ?thesis
    proof (cases "JEvent_GetLevel (E p) = m_unfolder_level a1 \<and> JEvent_GetLevel (E c) = m_child_level (m_unfolder a1)")
      case False
      with assms fetch Some show ?thesis by (auto simp: unfold_join_def split: if_splits)
    next
      case True
      obtain g ce r where do: "DoUnfold u v fw (mRunNumber (E p), mEventNumber (E p)) (E c) (m_unfolder a1) = ((g, ce), r)"
        by (metis prod.exhaust)
      show ?thesis
        using assms fetch Some True do exc
        by (cases r; cases "SetParent c p (E(c := ce))") (auto simp: unfold_join_def rbind_def split: if_splits sum.splits)
    qed
  qed
qed

text \<open>The join changes neither the places nor the reservations.\<close>

lemma unfold_fetch_fits:
  assumes "unfold_fits t w arrow l" and "m_ready_to_fetch_parent arrow \<Longrightarrow> items pd ! 0 = Some p"
  obtains a1 where "unfold_fetch_parent arrow pd = (a1, if m_ready_to_fetch_parent arrow then put_item nullptr 0 pd else pd)"
    and "same_arrow_places arrow a1" and "unfold_fits t w a1 l"
  using assms
  by (cases "m_ready_to_fetch_parent arrow")
     (simp_all add: unfold_fetch_parent_def same_arrow_places_def unfold_fits_def place_fits_resize)

lemma unfold_drop_fits:
  assumes "unfold_drop_parent p a1 E1 = Inr (a2, E2)" and "same_arrow_places arrow a1" and "unfold_fits t w a1 l"
  shows "same_arrow_places arrow a2 \<and> unfold_fits t w a2 l"
proof -
  from assms(1) have "a2 = a1\<lparr>m_ready_to_fetch_parent := True, m_parent_event := nullptr,
      m_parent_in := (m_parent_in a1)\<lparr>min_item_count := 1, max_item_count := 1\<rparr>\<rparr>"
    by (auto simp: unfold_drop_parent_def rbind_Inr_iff)
  then show ?thesis
    using assms(2,3) by (simp add: same_arrow_places_def unfold_fits_def place_fits_resize ARROWDATA_MAX_SIZE_def)
qed

lemma unfold_join_outcome:
  assumes run: "unfold_join u v fw arrow pd ci co E = Inr (arrow', E', pd', ci', co')"
    and fits: "unfold_fits t w arrow l" and child: "items ci ! 0 = Some c"
    and parent: "m_ready_to_fetch_parent arrow \<Longrightarrow> items pd ! 0 = Some p"
  shows "same_arrow_places arrow arrow' \<and> unfold_fits t w arrow' l
    \<and> pd' = (if m_ready_to_fetch_parent arrow then put_item nullptr 0 pd else pd)
    \<and> ci' = put_item nullptr 0 ci \<and> co' = put_item (Some c) 1 co"
proof -
  obtain a1 where a1: "unfold_fetch_parent arrow pd = (a1, if m_ready_to_fetch_parent arrow then put_item nullptr 0 pd else pd)"
    "same_arrow_places arrow a1" "unfold_fits t w a1 l" using fits parent by (rule unfold_fetch_fits)
  have keep: "same_arrow_places arrow (a1\<lparr>m_unfolder := f\<rparr>)" "unfold_fits t w (a1\<lparr>m_unfolder := f\<rparr>) l" for f
    using a1(2,3) by (simp_all add: same_arrow_places_def unfold_fits_def Let_def)
  from run a1(1) child show ?thesis
  proof (rule unfold_join_elim)
    fix p' f ce st E1
    assume "st \<in> {NextChildNextParent, KeepChildNextParent} \<Longrightarrow> unfold_drop_parent p' (a1\<lparr>m_unfolder := f\<rparr>) E1 = Inr (arrow', E')"
      "st = NextChildKeepParent \<Longrightarrow> arrow' = a1\<lparr>m_unfolder := f\<rparr> \<and> E' = E1"
    then have "same_arrow_places arrow arrow' \<and> unfold_fits t w arrow' l"
      using unfold_drop_fits [OF _ keep] keep by (cases st) auto
    moreover assume "pd' = (if m_ready_to_fetch_parent arrow then put_item nullptr 0 pd else pd)"
      "ci' = put_item nullptr 0 ci" "co' = put_item (Some c) 1 co"
    ultimately show ?thesis by simp
  qed
qed

lemma unfold_pulls:
  assumes w: "world_sound t H R w" and fits: "unfold_fits t w arrow l"
  obtains w' pd ci co where "unfold_try_pull_all (t_malloc t) arrow (new_Data l) (new_Data l) (new_Data l) w = Inr (w', pd, ci, co, False)"
      and "world_sound t H R w'" and "same_layout w w'"
    | w' pd ci co xs c where "unfold_try_pull_all (t_malloc t) arrow (new_Data l) (new_Data l) (new_Data l) w = Inr (w', pd, ci, co, True)"
      and "holds t H R l w' [(m_child_out arrow, co, []), (m_child_in arrow, ci, [c]), (m_parent_in arrow, pd, xs)]" and "same_layout w w'"
      and "length xs = (if m_ready_to_fetch_parent arrow then 1 else 0)" and "is_queue (m_child_out arrow) \<Longrightarrow> 1 \<le> reserve_count co"
proof -
  have inp: "is_input (m_parent_in arrow)" "is_input (m_child_in arrow)" "\<not> is_input (m_child_out arrow)"
    and counts: "min_item_count (m_child_in arrow) = 1" "max_item_count (m_child_in arrow) = 1" "min_item_count (m_child_out arrow) = 1"
      "min_item_count (m_parent_in arrow) = (if m_ready_to_fetch_parent arrow then 1 else 0)"
      "max_item_count (m_parent_in arrow) = (if m_ready_to_fetch_parent arrow then 1 else 0)"
    using fits by (simp_all add: unfold_fits_def Let_def)
  have fits': "place_fits t w' (m_parent_in arrow) l" "place_fits t w' (m_child_in arrow) l"
    "place_fits t w' (m_child_out arrow) l" if "same_layout w w'" for w'
    using fits by (simp_all add: unfold_fits_def place_fits_layout [OF that])
  have "holds t H R l w []" using w by simp
  then obtain w1 pd ok1 xs where 1: "pull (t_malloc t) (m_parent_in arrow) (new_Data l) w = Inr (w1, pd, ok1)" "same_layout w w1"
    "\<not> ok1 \<Longrightarrow> holds t H R l w1 []" "ok1 \<Longrightarrow> holds t H R l w1 [(m_parent_in arrow, pd, xs)]"
    "is_input (m_parent_in arrow) \<Longrightarrow> ok1 \<Longrightarrow> min_item_count (m_parent_in arrow) \<le> length xs" "length xs \<le> max_item_count (m_parent_in arrow)"
    by (rule hold_pull [OF _ fits'(1) [OF same_layout_refl]]) blast
  show ?thesis
  proof (cases ok1)
    case False
    have "unfold_try_pull_all (t_malloc t) arrow (new_Data l) (new_Data l) (new_Data l) w = Inr (w1, pd, new_Data l, new_Data l, False)"
      using 1(1) False by (simp add: unfold_try_pull_all_def)
    then show ?thesis by (rule that(1)) (use 1(2,3) False in simp_all)
  next
    case ok1: True
    obtain w2 ci ok2 ys where 2: "pull (t_malloc t) (m_child_in arrow) (new_Data l) w1 = Inr (w2, ci, ok2)" "same_layout w1 w2"
      "\<not> ok2 \<Longrightarrow> holds t H R l w2 [(m_parent_in arrow, pd, xs)]"
      "ok2 \<Longrightarrow> holds t H R l w2 [(m_child_in arrow, ci, ys), (m_parent_in arrow, pd, xs)]"
      "is_input (m_child_in arrow) \<Longrightarrow> ok2 \<Longrightarrow> min_item_count (m_child_in arrow) \<le> length ys" "length ys \<le> max_item_count (m_child_in arrow)"
      by (rule hold_pull [OF 1(4) [OF ok1] fits'(2) [OF 1(2)]]) blast
    note l2 = same_layout_trans [OF 1(2) 2(2)]
    show ?thesis
    proof (cases ok2)
      case False
      obtain w3 d3 n3 where 3: "push (m_parent_in arrow) pd w2 = Inr (w3, d3, n3)"
        "holds t H R l w3 []" "same_layout w2 w3" by (rule hold_push [OF 2(3) [OF False]])
      have "unfold_try_pull_all (t_malloc t) arrow (new_Data l) (new_Data l) (new_Data l) w = Inr (w3, d3, ci, new_Data l, False)"
        using 1(1) 2(1) 3(1) ok1 False by (simp add: unfold_try_pull_all_def)
      then show ?thesis by (rule that(1)) (use 3(2) same_layout_trans [OF l2 3(3)] in simp_all)
    next
      case ok2: True
      obtain w3 co ok3 zs where 3: "pull (t_malloc t) (m_child_out arrow) (new_Data l) w2 = Inr (w3, co, ok3)" "same_layout w2 w3"
        "\<not> ok3 \<Longrightarrow> holds t H R l w3 [(m_child_in arrow, ci, ys), (m_parent_in arrow, pd, xs)]"
        "ok3 \<Longrightarrow> holds t H R l w3 [(m_child_out arrow, co, zs), (m_child_in arrow, ci, ys), (m_parent_in arrow, pd, xs)]"
        "\<not> is_input (m_child_out arrow) \<Longrightarrow> zs = []"
        "\<not> is_input (m_child_out arrow) \<Longrightarrow> is_queue (m_child_out arrow) \<Longrightarrow> ok3 \<Longrightarrow> min_item_count (m_child_out arrow) \<le> reserve_count co"
        by (rule hold_pull [OF 2(4) [OF ok2] fits'(3) [OF l2]]) blast
      note l3 = same_layout_trans [OF l2 3(2)]
      show ?thesis
      proof (cases ok3)
        case False
        obtain w4 d4 n4 where 4: "push (m_parent_in arrow) pd w3 = Inr (w4, d4, n4)"
          "holds t H R l w4 [(m_child_in arrow, ci, ys)]" "same_layout w3 w4"
          by (rule hold_push [OF holds_first(1) [THEN iffD1, OF 3(3) [OF False]]])
        obtain w5 d5 n5 where 5: "push (m_child_in arrow) ci w4 = Inr (w5, d5, n5)" "holds t H R l w5 []" "same_layout w4 w5"
          by (rule hold_push [OF 4(2)])
        have "unfold_try_pull_all (t_malloc t) arrow (new_Data l) (new_Data l) (new_Data l) w = Inr (w5, d4, d5, co, False)"
          using 1(1) 2(1) 3(1) 4(1) 5(1) ok1 ok2 False by (simp add: unfold_try_pull_all_def)
        then show ?thesis by (rule that(1)) (use 5(2) same_layout_trans [OF same_layout_trans [OF l3 4(3)] 5(3)] in simp_all)
      next
        case True
        from 2(5,6) ok2 inp counts have "length ys = 1" by simp
        then obtain c where c: "ys = [c]" by (cases ys) auto
        have run: "unfold_try_pull_all (t_malloc t) arrow (new_Data l) (new_Data l) (new_Data l) w = Inr (w3, pd, ci, co, True)"
          using 1(1) 2(1) 3(1) ok1 ok2 True by (simp add: unfold_try_pull_all_def)
        have len: "length xs = (if m_ready_to_fetch_parent arrow then 1 else 0)" using 1(5,6) ok1 inp counts by simp
        have room: "is_queue (m_child_out arrow) \<Longrightarrow> 1 \<le> reserve_count co" using 3(6) True inp counts by simp
        show ?thesis by (rule that(2) [OF run 3(4) [OF True, unfolded c 3(5) [OF inp(3)]] l3 len room])
      qed
    qed
  qed
qed

lemma unfold_pushes:
  assumes "holds t H R l w [(m_child_out arrow, co, a), (m_child_in arrow, ci, b), (m_parent_in arrow, pd, c)]"
  shows "\<exists>w' n. unfold_push_all arrow pd ci co w = Inr (w', n) \<and> world_sound t H R w' \<and> same_layout w w'"
proof -
  obtain w1 d1 n1 where 1: "push (m_parent_in arrow) pd w = Inr (w1, d1, n1)"
    "holds t H R l w1 [(m_child_out arrow, co, a), (m_child_in arrow, ci, b)]" "same_layout w w1"
    by (rule hold_push [OF holds_first(2) [THEN iffD1, OF assms]])
  obtain w2 d2 n2 where 2: "push (m_child_in arrow) ci w1 = Inr (w2, d2, n2)" "holds t H R l w2 [(m_child_out arrow, co, a)]"
    "same_layout w1 w2" by (rule hold_push [OF holds_first(1) [THEN iffD1, OF 1(2)]])
  obtain w3 d3 n3 where 3: "push (m_child_out arrow) co w2 = Inr (w3, d3, n3)" "holds t H R l w3 []" "same_layout w2 w3"
    by (rule hold_push [OF 2(2)])
  from 1(1) 2(1) 3(1,2) same_layout_trans [OF same_layout_trans [OF 1(3) 2(3)] 3(3)] show ?thesis
    by (simp add: unfold_push_all_def)
qed

lemma unfold_fits_size: "same_size w w' \<Longrightarrow> unfold_fits t w' arrow l = unfold_fits t w arrow l"
  by (simp add: unfold_fits_def place_fits_size)

text \<open>After the join the parent that was fetched is with the arrow and the child on its way out.\<close>

lemma unfold_handover:
  assumes w: "holds t H R l w [(m_child_out arrow, co, []), (m_child_in arrow, ci, [c]), (m_parent_in arrow, pd, xs)]"
    and fits: "unfold_fits t w arrow l" and fits': "unfold_fits t w arrow' l" and same: "same_arrow_places arrow arrow'"
    and pd: "pd' = (if m_ready_to_fetch_parent arrow then put_item nullptr 0 pd else pd)"
    and xs: "length xs = (if m_ready_to_fetch_parent arrow then 1 else 0)"
    and room: "is_queue (m_child_out arrow) \<Longrightarrow> 1 \<le> reserve_count co"
  shows "holds t (give (place_home t (m_parent_in arrow)) xs H) R l w
    [(m_child_out arrow', put_item (Some c) 1 co, [c]), (m_child_in arrow', put_item nullptr 0 ci, []), (m_parent_in arrow', pd', [])]"
proof -
  have ld: "loaded (m_child_out arrow) l co []" "loaded (m_child_in arrow) l ci [c]" "loaded (m_parent_in arrow) l pd xs"
    using w by (simp_all add: holds_def)
  have pd': "loaded (m_parent_in arrow) l pd' []" "reserve_count pd' = reserve_count pd"
    using ld(3) xs put_item_loaded(1) [OF ld(3)] by (auto simp: pd put_item_loaded(3))
  have home: "place_home t (m_child_out arrow) = place_home t (m_child_in arrow)" using fits by (simp add: unfold_fits_def)
  have same': "m_child_in arrow' = m_child_in arrow" "m_child_out arrow' = m_child_out arrow"
    using same by (simp_all add: same_arrow_places_def)
  show ?thesis
    using w fits' pd' put_item_loaded(1) [OF ld(2)] put_item_loaded(2) [OF ld(1) room]
    by (simp add: holds_def same' same_places_home [OF same] put_item_loaded(3) home unfold_fits_def)
qed


definition sample_unfold :: JUnfoldArrow where
  "sample_unfold = (new_JUnfoldArrow sample_unfolder PhysicsEvent 0 0 0)
     \<lparr>m_parent_event := Some 101, m_ready_to_fetch_parent := False, m_parent_in := new_PlaceRef (QueueRef 0) True 0 0\<rparr>"

lemma sample_unfold_fits: "unfold_fits sample_net sample_world sample_unfold 0"
  by (simp add: unfold_fits_def place_fits_def place_home_def sample_unfold_def new_JUnfoldArrow_def new_PlaceRef_def
      sample_net_def sample_world_def new_JMailbox_def ARROWDATA_MAX_SIZE_def)

lemma sample_unfold_simps:
  "place_home sample_net (m_parent_in sample_unfold) = 0" "m_ready_to_fetch_parent sample_unfold = False"
  by (simp_all add: sample_unfold_def place_home_def new_PlaceRef_def sample_net_def)


section \<open>Fold arrows\<close>

definition full_at :: "addr ptr JMailbox \<Rightarrow> nat \<Rightarrow> bool" where
  "full_at mb l \<longleftrightarrow> l < length (m_queues mb) \<and> m_capacity mb < size_mod
     \<and> m_capacity mb = length (queue (m_queues mb ! l)) + reserved_count (m_queues mb ! l)"

lemma full_refuses: "full_at mb l \<Longrightarrow> JMailbox_reserve 1 1 l mb = Inr (mb, 0)"
  by (simp add: full_at_def JMailbox_reserve_def at_location_def lq_reserve_def Let_def sz_sub_exact)

lemma nonempty_gives:
  "l < length (m_queues mb) \<Longrightarrow> queue (m_queues mb ! l) = x # rest \<Longrightarrow> 0 < length buf \<Longrightarrow>
     \<exists>mb' buf'. JMailbox_pop_and_reserve buf 1 1 l mb = Inr (mb', buf', 1)"
  using pop_loop_eq [of 1 buf "x # rest"]
  by (cases buf) (simp_all add: JMailbox_pop_and_reserve_def at_location_def lq_pop_and_reserve_def Let_def)

text \<open>
  A fold arrow that finds its output full loses a child.  With a child waiting and the child output full,
  \<open>execute\<close> reports that it should come back later, but the child it popped is in no queue and on no free
  stack any more, and its slot in the input queue stays reserved: the books no longer balance.
\<close>

theorem fold_leaks:
  assumes w: "world_sound t H R w" and qs: "qi \<in> t_queues t" "qo \<in> t_queues t" "qi \<noteq> qo"
    and input: "l < length (m_queues (w_queues w qi))" "queue (m_queues (w_queues w qi) ! l) = x # rest"
    and full: "full_at (w_queues w qo) l"
  shows "\<exists>w' m' e. JFoldArrow_execute (t_malloc t) clock (new_JFoldArrow pl cl qi (QueueRef qo) po) l m w = Inr (w', m')
    \<and> m_last_status m' = ComeBackLater
    \<and> world_sound t (give (t_home t qi) [e] H) (book qi l 1 R) w' \<and> \<not> world_sound t H R w'"
proof -
  let ?arrow = "new_JFoldArrow pl cl qi (QueueRef qo) po"
  let ?ci = "new_PlaceRef (QueueRef qi) True 1 1" and ?co = "new_PlaceRef (QueueRef qo) False 1 1"
  have "holds t H R l w []" and fit: "place_fits t w ?ci l"
    using w qs input by (simp_all add: place_fits_def new_PlaceRef_def ARROWDATA_MAX_SIZE_def)
  then obtain w1 d ok xs where 1: "pull (t_malloc t) ?ci (new_Data l) w = Inr (w1, d, ok)" "same_layout w w1"
    "ok \<Longrightarrow> holds t H R l w1 [(?ci, d, xs)]" "is_input ?ci \<Longrightarrow> ok \<Longrightarrow> min_item_count ?ci \<le> length xs"
    "length xs \<le> max_item_count ?ci" by (rule hold_pull) blast
  have "0 < length (items (new_Data l))" by (simp add: new_Data_def ARROWDATA_MAX_SIZE_def)
  from nonempty_gives [OF input this] 1(1) obtain mb' buf' where got: "ok" "reserve_count d = 1" "w1 = upd_queue qi mb' w"
    by (auto simp: pull_def new_PlaceRef_def has_place_def as_queue_def)
  from 1(4,5) got(1) have "length xs = 1" by (simp add: new_PlaceRef_def)
  then obtain e where xs: "xs = [e]" by (cases xs) auto
  have lost: "world_sound t (give (t_home t qi) [e] H) (book qi l 1 R) w1"
    using 1(3) [OF got(1)] by (simp add: holds_def xs got(2) place_home_def book_at_def new_PlaceRef_def)
  have "w_queues w1 qo = w_queues w qo" using got(3) qs(3) by (simp add: upd_queue_def)
  with full_refuses [OF full] have "pull (t_malloc t) ?co (new_Data l) w1
      = Inr (upd_queue qo (w_queues w qo) w1, new_Data l, False)"
    by (simp add: pull_def new_PlaceRef_def has_place_def as_queue_def new_Data_def)
  moreover have "upd_queue qo (w_queues w qo) w1 = w1"
    using got(3) qs(3) by (simp add: upd_queue_def fun_upd_twist fun_upd_idem)
  ultimately have run: "JFoldArrow_execute (t_malloc t) clock ?arrow l m w
      = Inr (w1, JArrowMetrics_update ComeBackLater 0 1 0 (clock 1 - clock 0) m)"
    using 1(1) got(1) by (simp add: JFoldArrow_execute_def fold_try_pull_all_def new_JFoldArrow_def)
  have "l < length (m_queues (w_queues w1 qi))" using 1(2) input(1) by (simp add: same_layout_def)
  then have "\<not> world_sound t H R w1"
    using queue_soundD [OF lost qs(1)] queue_soundD [of t H R w1 qi l] qs(1) by (auto simp: book_def)
  with run lost show ?thesis by (auto simp: JArrowMetrics_update_def)
qed

definition crowded_net :: topology where
  "crowded_net = \<lparr>t_queues = {0, 1}, t_pools = {0}, t_home = (\<lambda>_. 0), t_bases = (\<lambda>_. [100]), t_malloc = (\<lambda>_. sample_malloc)\<rparr>"

definition crowded_world :: world where
  "crowded_world = \<lparr>w_queues = (\<lambda>q. if q = 0
       then \<lparr>m_capacity = 1, m_locations_count = 1, m_enable_work_stealing = False, m_id = 0,
             m_queues = [\<lparr>queue = [Some 101], reserved_count = 0\<rparr>]\<rparr>
       else new_JMailbox 0 1 False),
     w_pools = (\<lambda>_. sample_pool), w_events = sample_events\<rparr>"

lemma crowded_world_sound: "world_sound crowded_net (\<lambda>_. {#}) (\<lambda>_ _. 0) crowded_world"
proof -
  have "pool_ready [100] sample_malloc sample_pool {#101#}"
    using pool_reachable_ready [OF sample_pool_reachable sample_arrays_ok _ sample_malloc_ok] by simp
  moreover have "{q. (q = 0 \<or> q = Suc 0)} = {0, Suc 0}" by auto
  ultimately show ?thesis
    by (simp add: world_sound_def crowded_net_def crowded_world_def queued_def contents_def queue_sound_def
        new_JMailbox_def new_LocalQueue_def lq_inv_def size_mod_def)
qed

theorem fold_leaks_witness:
  "\<exists>w' m' e. JFoldArrow_execute (\<lambda>_. sample_malloc) (\<lambda>_. 0) (new_JFoldArrow Timeslice PhysicsEvent 0 (QueueRef 1) (PoolRef 0)) 0
        sample_metrics crowded_world = Inr (w', m')
    \<and> m_last_status m' = ComeBackLater
    \<and> world_sound crowded_net (give 0 [e] (\<lambda>_. {#})) (book 0 0 1 (\<lambda>_ _. 0)) w'
    \<and> \<not> world_sound crowded_net (\<lambda>_. {#}) (\<lambda>_ _. 0) w'"
proof -
  have "full_at (w_queues crowded_world 1) 0"
    by (simp add: full_at_def crowded_world_def new_JMailbox_def new_LocalQueue_def)
  with fold_leaks [OF crowded_world_sound, of 0 1 0 "Some 101" "[]" "\<lambda>_. 0" Timeslice PhysicsEvent "PoolRef 0" sample_metrics]
  show ?thesis by (simp add: crowded_net_def crowded_world_def)
qed

section \<open>Splitting and merging events\<close>

text \<open>
  \<open>JSubeventArrow.h\<close>.  A subevent is wrapped with the event it belongs to, its number and the number of
  subevents of that event.
\<close>

record 'd SubeventWrapper =
  sub_parent :: addr
  sub_data :: 'd
  sub_id :: nat
  sub_total :: nat

fun wrap_all :: "addr \<Rightarrow> nat \<Rightarrow> nat \<Rightarrow> 'd list \<Rightarrow> 'd SubeventWrapper list" where
  "wrap_all event i actual_size [] = []"
| "wrap_all event i actual_size (original # originals) =
     \<lparr>sub_parent = event, sub_data = original, sub_id = i, sub_total = actual_size\<rparr> # wrap_all event (Suc i) actual_size originals"

definition arrow_status :: "MailboxStatus \<Rightarrow> MailboxStatus \<Rightarrow> bool \<Rightarrow> ArrowStatus" where
  "arrow_status in_status out_status fed =
     (if in_status = Ready \<and> out_status = Ready \<and> fed then KeepGoing else ComeBackLater)"

text \<open>
  \<open>Get<InputT>\<close> of the event is the parameter \<open>originals\<close>; \<open>lock\<close> says whether the inbox could be locked.  The
  reservation is made without a location, so at location 0.
\<close>

definition JSplitArrow_execute ::
    "(addr \<Rightarrow> 'd list) \<Rightarrow> bool \<Rightarrow> nat \<Rightarrow> (nat \<Rightarrow> int) \<Rightarrow> nat \<Rightarrow> JArrowMetrics
     \<Rightarrow> addr JMailbox \<Rightarrow> 'd SubeventWrapper JMailbox
     \<Rightarrow> (addr JMailbox \<times> 'd SubeventWrapper JMailbox \<times> JArrowMetrics) result" where
  "JSplitArrow_execute originals lock chunksize clock loc metrics inbox outbox =
     rbind (JMailbox_reserve_upto chunksize 0 outbox) (\<lambda>(outbox1, reserved_size).
     rbind (JMailbox_pop_one lock loc inbox) (\<lambda>(inbox1, event, in_status).
     let wrapped = (case event of None \<Rightarrow> [] | Some e \<Rightarrow> wrap_all e 1 (length (originals e)) (originals e)) in
     rbind (case event of
              None \<Rightarrow> Inr (outbox1, Ready)
            | Some _ \<Rightarrow> rbind (JMailbox_push_vector wrapped reserved_size loc outbox1) (\<lambda>(outbox2, _, status). Inr (outbox2, status)))
       (\<lambda>(outbox2, out_status).
         let latency = clock 2 - clock 1; overhead = (clock 3 - clock 0) - latency in
         Inr (inbox1, outbox2,
              JArrowMetrics_update (arrow_status in_status out_status True) (length wrapped) 1 latency overhead metrics))))"

definition process_wrapped :: "('d \<Rightarrow> 'r) \<Rightarrow> 'd SubeventWrapper \<Rightarrow> 'r SubeventWrapper" where
  "process_wrapped ProcessSubevent s =
     \<lparr>sub_parent = sub_parent s, sub_data = ProcessSubevent (sub_data s), sub_id = sub_id s, sub_total = sub_total s\<rparr>"

definition JSubeventArrow_execute ::
    "('d \<Rightarrow> 'r) \<Rightarrow> bool \<Rightarrow> nat \<Rightarrow> (nat \<Rightarrow> int) \<Rightarrow> nat \<Rightarrow> JArrowMetrics
     \<Rightarrow> 'd SubeventWrapper JMailbox \<Rightarrow> 'r SubeventWrapper JMailbox
     \<Rightarrow> ('d SubeventWrapper JMailbox \<times> 'r SubeventWrapper JMailbox \<times> JArrowMetrics) result" where
  "JSubeventArrow_execute ProcessSubevent lock chunksize clock loc metrics inbox outbox =
     rbind (JMailbox_reserve_upto chunksize loc outbox) (\<lambda>(outbox1, downstream_accepts).
     rbind (JMailbox_pop_vector lock [] downstream_accepts loc inbox) (\<lambda>(inbox1, inputs, in_status).
     let outputs = map (process_wrapped ProcessSubevent) inputs in
     rbind (if outputs \<noteq> []
            then rbind (JMailbox_push_vector outputs downstream_accepts loc outbox1) (\<lambda>(outbox2, _, status). Inr (outbox2, status))
            else Inr (outbox1, Ready))
       (\<lambda>(outbox2, out_status).
         let latency = clock 2 - clock 1; overhead = (clock 3 - clock 0) - latency in
         Inr (inbox1, outbox2,
              JArrowMetrics_update (arrow_status in_status out_status True) (length outputs) 1 latency overhead metrics))))"

text \<open>
  The merge keeps, for every event in progress, how many of its subevents are still to come.  An entry that
  has reached 0 stays in the map and starts over with the next subevent of that address.  \<open>JEvent_Insert\<close>
  puts the result into the event; \<open>new\<close> is the address a new factory gets.
\<close>

record 'r merge_state =
  mg_in_progress :: "(addr, nat) omap"
  mg_outputs :: "addr list"
  mg_events :: eheap
  mg_factories :: "'r fheap"

definition merge_count :: "'r SubeventWrapper \<Rightarrow> 'r merge_state \<Rightarrow> 'r merge_state" where
  "merge_count input s =
     (if sub_total input = 1 then s\<lparr>mg_outputs := mg_outputs s @ [sub_parent input]\<rparr>
      else case om_find (sub_parent input) (mg_in_progress s) of
             None \<Rightarrow> s\<lparr>mg_in_progress := om_put (sub_parent input) (sz_sub (sub_total input) 1) (mg_in_progress s)\<rparr>
           | Some n \<Rightarrow>
               if n = 0 then s\<lparr>mg_in_progress := om_put (sub_parent input) (sz_sub (sub_total input) 1) (mg_in_progress s)\<rparr>
               else if n = 1
               then s\<lparr>mg_in_progress := om_put (sub_parent input) 0 (mg_in_progress s), mg_outputs := mg_outputs s @ [sub_parent input]\<rparr>
               else s\<lparr>mg_in_progress := om_put (sub_parent input) (n - 1) (mg_in_progress s)\<rparr>)"

fun merge_inputs ::
    "string \<Rightarrow> ('r fheap \<Rightarrow> fptr) \<Rightarrow> 'r SubeventWrapper list \<Rightarrow> 'r merge_state \<Rightarrow> 'r merge_state result" where
  "merge_inputs T new [] s = Inr s"
| "merge_inputs T new (input # inputs) s =
     rbind (JEvent_Insert T (sub_data input) [] (new (mg_factories s)) (mg_events s (sub_parent input)) (mg_factories s))
       (\<lambda>(F, ev, _).
         merge_inputs T new inputs
           (merge_count input (s\<lparr>mg_events := (mg_events s)(sub_parent input := ev), mg_factories := F\<rparr>)))"

definition JMergeArrow_execute ::
    "string \<Rightarrow> ('r fheap \<Rightarrow> fptr) \<Rightarrow> bool \<Rightarrow> nat \<Rightarrow> (nat \<Rightarrow> int) \<Rightarrow> nat \<Rightarrow> JArrowMetrics
     \<Rightarrow> 'r SubeventWrapper JMailbox \<Rightarrow> addr JMailbox \<Rightarrow> 'r merge_state
     \<Rightarrow> ('r SubeventWrapper JMailbox \<times> addr JMailbox \<times> 'r merge_state \<times> JArrowMetrics) result" where
  "JMergeArrow_execute T new lock chunksize clock loc metrics inbox outbox s =
     rbind (JMailbox_reserve_upto chunksize loc outbox) (\<lambda>(outbox1, downstream_accepts).
     rbind (JMailbox_pop_vector lock [] downstream_accepts loc inbox) (\<lambda>(inbox1, inputs, in_status).
     rbind (merge_inputs T new inputs (s\<lparr>mg_outputs := []\<rparr>)) (\<lambda>s1.
     rbind (JMailbox_push_vector (mg_outputs s1) downstream_accepts loc outbox1) (\<lambda>(outbox2, _, out_status).
         let latency = clock 2 - clock 1; overhead = (clock 3 - clock 0) - latency in
         Inr (inbox1, outbox2, s1,
              JArrowMetrics_update (arrow_status in_status out_status (inputs \<noteq> [])) (length (mg_outputs s1)) 1 latency overhead metrics)))))"

section \<open>Every event that was split is merged once\<close>

definition progress :: "addr \<Rightarrow> 'r merge_state \<Rightarrow> nat" where
  "progress p s = (case om_find p (mg_in_progress s) of None \<Rightarrow> 0 | Some n \<Rightarrow> n)"

definition of_parent :: "addr \<Rightarrow> 'r SubeventWrapper list \<Rightarrow> nat" where
  "of_parent p inputs = length (filter (\<lambda>s. sub_parent s = p) inputs)"

lemma merge_count_ok: "om_ok (mg_in_progress s) \<Longrightarrow> om_ok (mg_in_progress (merge_count input s))"
  by (auto simp: merge_count_def om_ok_put split: option.splits)

lemma merge_counts_ok: "om_ok (mg_in_progress s) \<Longrightarrow> om_ok (mg_in_progress (fold merge_count inputs s))"
  by (induction inputs arbitrary: s) (simp_all add: merge_count_ok)

lemma merge_count_other: "om_ok (mg_in_progress s) \<Longrightarrow> p \<noteq> sub_parent input \<Longrightarrow> progress p (merge_count input s) = progress p s
    \<and> filter (\<lambda>q. q = p) (mg_outputs (merge_count input s)) = filter (\<lambda>q. q = p) (mg_outputs s)"
  by (auto simp: merge_count_def progress_def om_find_put_eq split: option.splits)

lemma merge_count_one: "sub_total input = 1 \<Longrightarrow> p = sub_parent input \<Longrightarrow>
    mg_outputs (merge_count input s) = mg_outputs s @ [p] \<and> progress q (merge_count input s) = progress q s"
  by (simp add: merge_count_def progress_def)

lemma merge_count_many:
  assumes "om_ok (mg_in_progress s)" and "1 < sub_total input" and "sub_total input < size_mod" and "p = sub_parent input"
  shows "progress p (merge_count input s) = (if progress p s = 0 then sub_total input - 1 else progress p s - 1)
    \<and> mg_outputs (merge_count input s) = mg_outputs s @ (if progress p s = 1 then [p] else [])"
  using assms by (auto simp: merge_count_def progress_def om_find_put_eq sz_sub_exact split: option.splits)

text \<open>What is still to come of a parent with \<open>n\<close> subevents when \<open>k\<close> have arrived.\<close>

definition to_come :: "nat \<Rightarrow> nat \<Rightarrow> nat" where
  "to_come n k = (if k mod n = 0 then 0 else n - k mod n)"

lemma to_come_Suc:
  assumes "1 < n"
  shows "to_come n (Suc k) = (if to_come n k = 0 then n - 1 else to_come n k - 1)"
    and "Suc k div n = k div n + (if to_come n k = 1 then 1 else 0)"
proof -
  have "k mod n < n" using assms by simp
  then consider "Suc (k mod n) < n" | "Suc (k mod n) = n" by linarith
  then show "to_come n (Suc k) = (if to_come n k = 0 then n - 1 else to_come n k - 1)"
    and "Suc k div n = k div n + (if to_come n k = 1 then 1 else 0)"
    using assms by (cases; auto simp: to_come_def mod_Suc div_Suc)+
qed

lemma merge_counts:
  assumes "\<forall>s\<in>set inputs. sub_total s = total_of (sub_parent s)" and "\<forall>s\<in>set inputs. 0 < sub_total s \<and> sub_total s < size_mod"
    and "mg_outputs s0 = []" and "mg_in_progress s0 = []"
  shows "length (filter (\<lambda>q. q = p) (mg_outputs (fold merge_count inputs s0))) = of_parent p inputs div total_of p
    \<and> (1 < total_of p \<longrightarrow> progress p (fold merge_count inputs s0) = to_come (total_of p) (of_parent p inputs))"
  using assms(1,2)
proof (induction inputs rule: rev_induct)
  case Nil
  then show ?case using assms(3,4) by (simp add: of_parent_def progress_def to_come_def)
next
  case (snoc input inputs)
  let ?s = "fold merge_count inputs s0"
  have IH: "length (filter (\<lambda>q. q = p) (mg_outputs ?s)) = of_parent p inputs div total_of p"
    "1 < total_of p \<Longrightarrow> progress p ?s = to_come (total_of p) (of_parent p inputs)" using snoc by auto
  have ok: "om_ok (mg_in_progress ?s)" using assms(4) by (intro merge_counts_ok) (simp add: om_ok_def)
  have tot: "sub_total input = total_of (sub_parent input)" "0 < sub_total input" "sub_total input < size_mod" using snoc.prems by auto
  show ?case
  proof (cases "p = sub_parent input")
    case False
    with IH merge_count_other [OF ok False] show ?thesis by (simp add: of_parent_def)
  next
    case True
    have k: "of_parent p (inputs @ [input]) = Suc (of_parent p inputs)" using True by (simp add: of_parent_def)
    show ?thesis
    proof (cases "sub_total input = 1")
      case one: True
      from merge_count_one [OF one True, of ?s] IH(1) one tot(1) True k show ?thesis by simp
    next
      case False
      then have n: "1 < sub_total input" "1 < total_of p" using tot True by auto
      from merge_count_many [OF ok n(1) tot(3) True] IH to_come_Suc [OF n(2), of "of_parent p inputs"] n(2) tot(1) True k
      show ?thesis by auto
    qed
  qed
qed

definition split_all :: "(addr \<Rightarrow> 'd list) \<Rightarrow> addr list \<Rightarrow> 'd SubeventWrapper list" where
  "split_all originals es = concat (map (\<lambda>e. wrap_all e 1 (length (originals e)) (originals e)) es)"

lemma wrap_all_fields:
  "s \<in> set (wrap_all e i n xs) \<Longrightarrow> sub_parent s = e \<and> sub_total s = n \<and> xs \<noteq> []" "length (wrap_all e i n xs) = length xs"
  by (induction e i n xs rule: wrap_all.induct) auto

lemma wrap_all_parent: "filter (\<lambda>s. sub_parent s = p) (wrap_all e i n xs) = (if e = p then wrap_all e i n xs else [])"
  by (induction e i n xs rule: wrap_all.induct) auto

lemma split_all_parent: "distinct es \<Longrightarrow> of_parent p (split_all originals es) = (if p \<in> set es then length (originals p) else 0)"
  by (induction es) (auto simp: of_parent_def split_all_def wrap_all_parent wrap_all_fields(2))

lemma of_parent_mset: "mset xs = mset ys \<Longrightarrow> of_parent p xs = of_parent p ys"
  unfolding of_parent_def by (metis mset_filter size_mset)

lemma of_parent_processed: "of_parent p (map (process_wrapped f) xs) = of_parent p xs"
  by (simp add: of_parent_def filter_map o_def process_wrapped_def)

lemma count_filter: "Multiset.count (mset xs) p = length (filter (\<lambda>q. q = p) xs)"
  by (induction xs) auto

lemma merge_inputs_counts:
  "merge_inputs T new inputs s = Inr s' \<Longrightarrow> mg_outputs s0 = mg_outputs s \<Longrightarrow> mg_in_progress s0 = mg_in_progress s \<Longrightarrow>
     mg_outputs s' = mg_outputs (fold merge_count inputs s0)"
proof (induction inputs arbitrary: s s0)
  case (Cons input inputs)
  from Cons.prems(1) obtain F ev where "merge_inputs T new inputs
      (merge_count input (s\<lparr>mg_events := (mg_events s)(sub_parent input := ev), mg_factories := F\<rparr>)) = Inr s'"
    by (auto elim!: rbind_InrE)
  moreover have "mg_outputs (merge_count input s0) = mg_outputs (merge_count input (s\<lparr>mg_events := E, mg_factories := F\<rparr>))"
    "mg_in_progress (merge_count input s0) = mg_in_progress (merge_count input (s\<lparr>mg_events := E, mg_factories := F\<rparr>))" for E
    using Cons.prems(2,3) by (simp_all add: merge_count_def split: option.splits)
  ultimately show ?case using Cons.IH by simp
qed simp

text \<open>
  C18: splitting, processing and merging is a round trip.  Take any set of events, split them into subevents,
  process these, and let the results reach the merge in any order whatsoever, from any number of arrows: the
  merge sends on every event that had at least one subevent, exactly once.  An event without subevents is
  never sent on.
\<close>

theorem split_merge_roundtrip:
  assumes "distinct es" and "\<forall>e\<in>set es. length (originals e) < size_mod"
    and "mset inputs = mset (map (process_wrapped f) (split_all originals es))"
    and "mg_outputs s0 = []" and "mg_in_progress s0 = []"
  shows "mset (mg_outputs (fold merge_count inputs s0)) = mset (filter (\<lambda>e. originals e \<noteq> []) es)
    \<and> (\<forall>T new s'. merge_inputs T new inputs s0 = Inr s' \<longrightarrow> mg_outputs s' = mg_outputs (fold merge_count inputs s0))"
proof
  have ins: "set inputs = process_wrapped f ` set (split_all originals es)" using mset_eq_setD [OF assms(3)] by simp
  have tot: "\<forall>s\<in>set inputs. sub_total s = length (originals (sub_parent s)) \<and> sub_parent s \<in> set es
      \<and> originals (sub_parent s) \<noteq> []"
    unfolding ins by (auto simp: split_all_def process_wrapped_def dest: wrap_all_fields(1))
  show "mset (mg_outputs (fold merge_count inputs s0)) = mset (filter (\<lambda>e. originals e \<noteq> []) es)"
  proof (rule multiset_eqI)
    fix p
    have "Multiset.count (mset (mg_outputs (fold merge_count inputs s0))) p = of_parent p inputs div length (originals p)"
      using merge_counts [of inputs "\<lambda>e. length (originals e)" s0 p] tot assms(2,4,5) by (simp add: count_filter)
    also have "of_parent p inputs = (if p \<in> set es then length (originals p) else 0)"
      using of_parent_mset [OF assms(3)] by (simp add: of_parent_processed split_all_parent [OF assms(1)])
    also have "\<dots> div length (originals p) = Multiset.count (mset (filter (\<lambda>e. originals e \<noteq> []) es)) p"
      using assms(1) by (auto simp: distinct_count_atmost_1)
    finally show "Multiset.count (mset (mg_outputs (fold merge_count inputs s0))) p
      = Multiset.count (mset (filter (\<lambda>e. originals e \<noteq> []) es)) p" .
  qed
qed (use merge_inputs_counts in blast)

definition sample_merge :: "nat merge_state" where
  "sample_merge = \<lparr>mg_in_progress = [], mg_outputs = [], mg_events = sample_events, mg_factories = (\<lambda>_. new_JFactory [] [] [])\<rparr>"

theorem split_merge_roundtrip_witness:
  "mset (mg_outputs (fold merge_count
      [\<lparr>sub_parent = 7, sub_data = 40, sub_id = 2, sub_total = 2\<rparr>,
       \<lparr>sub_parent = 5, sub_data = 20, sub_id = 1, sub_total = 1\<rparr>,
       \<lparr>sub_parent = 7, sub_data = 30, sub_id = 1, sub_total = 2\<rparr>] sample_merge)) = {#5, 7#}"
proof -
  let ?originals = "\<lambda>e. if e = 5 then [2] else if e = 7 then [3, 4] else []"
  let ?inputs = "[\<lparr>sub_parent = 7, sub_data = 40, sub_id = 2, sub_total = 2\<rparr>,
       \<lparr>sub_parent = 5, sub_data = 20, sub_id = 1, sub_total = 1\<rparr>,
       \<lparr>sub_parent = 7, sub_data = 30, sub_id = 1, sub_total = 2\<rparr>] :: nat SubeventWrapper list"
  have same: "mset ?inputs = mset (map (process_wrapped (\<lambda>x. 10 * x)) (split_all ?originals [5, 7, 9]))"
    by (simp add: split_all_def process_wrapped_def numeral_2_eq_2 add_mset_commute)
  have rest: "distinct [5 :: addr, 7, 9]" "\<forall>e\<in>set [5, 7, 9]. length (?originals e :: nat list) < size_mod"
    "mg_outputs sample_merge = []" "mg_in_progress sample_merge = []"
    by (simp_all add: sample_merge_def size_mod_def)
  from split_merge_roundtrip [OF rest(1,2) same rest(3,4)] show ?thesis by simp
qed

end
