(* ===== verification/TopologyBuilder.thy ===== *)
theory TopologyBuilder
  imports Scheduler Arrows
begin

text \<open>
  The topology builder: \<open>Topology/JTopologyBuilder.h\<close> and \<open>.cc\<close>, with the constructors of the arrows it
  creates and \<open>Utils/JEventPool.h\<close>.  Arrows live in a heap \<open>tb_objects\<close> in the order of allocation;
  \<open>tb_arrows\<close> is the vector of pointers to them.  Queues and pools are referred to by their position in the
  vectors.  The components are what \<open>JComponentManager\<close> returns, each with its level; where the arrays of a
  pool are allocated is a parameter.
\<close>

section \<open>State\<close>

datatype arrow_body =
    SourceBody "nat list" JPipelineArrow
  | MapBody "nat list" "JEventUnfolder list" JPipelineArrow
  | ProcessorBody "nat list" JPipelineArrow
  | UnfoldBody JUnfoldArrow
  | FoldBody JFoldArrow

record arrow_object =
  ao_base :: JArrow
  ao_body :: arrow_body

record component_lists =
  evt_srces :: "(nat \<times> JEventLevel) list"
  evt_procs :: "(nat \<times> JEventLevel) list"
  unfolders :: "(JEventUnfolder \<times> JEventLevel) list"

record JEventPool =
  ep_pool :: JPool
  ep_level :: JEventLevel

record JTopologyBuilder =
  tb_components :: component_lists
  tb_objects :: "arrow_object list"
  tb_arrows :: "nat list"
  tb_queues :: "addr ptr JMailbox list"
  tb_pools :: "JEventPool list"
  tb_event_pool :: "JEventPool ptr"
  tb_event_pool_size :: nat
  tb_event_queue_threshold :: nat
  tb_event_source_chunksize :: nat
  tb_event_processor_chunksize :: nat
  tb_location_count :: nat
  tb_enable_stealing :: bool
  tb_limit_total_events_in_flight :: bool
  tb_loc_count :: nat

definition new_JTopologyBuilder :: "component_lists \<Rightarrow> nat \<Rightarrow> JTopologyBuilder" where
  "new_JTopologyBuilder components loc_count =
     \<lparr>tb_components = components, tb_objects = [], tb_arrows = [], tb_queues = [], tb_pools = [], tb_event_pool = nullptr,
      tb_event_pool_size = 4, tb_event_queue_threshold = 80, tb_event_source_chunksize = 40,
      tb_event_processor_chunksize = 1, tb_location_count = 1, tb_enable_stealing = False,
      tb_limit_total_events_in_flight = True, tb_loc_count = loc_count\<rparr>"

section \<open>Constructors\<close>

definition new_JEventPool :: "nat \<Rightarrow> nat \<Rightarrow> bool \<Rightarrow> JEventLevel \<Rightarrow> JEventPool result" where
  "new_JEventPool pool_size location_count limit level =
     rbind (new_JPool pool_size location_count limit) (\<lambda>pool. Inr \<lparr>ep_pool = pool, ep_level = level\<rparr>)"

definition new_JEventSourceArrow :: "string \<Rightarrow> nat list \<Rightarrow> nat \<Rightarrow> nat \<Rightarrow> arrow_object result" where
  "new_JEventSourceArrow name sources output_queue pool =
     rbind (new_JPipelineArrow nullptr (Some output_queue) (Some pool)) (\<lambda>p.
       Inr \<lparr>ao_base = new_JArrow name False True False 16, ao_body = SourceBody sources p\<rparr>)"

definition new_JEventMapArrow :: "string \<Rightarrow> nat \<Rightarrow> nat \<Rightarrow> arrow_object result" where
  "new_JEventMapArrow name input_queue output_queue =
     rbind (new_JPipelineArrow (Some input_queue) (Some output_queue) nullptr) (\<lambda>p.
       Inr \<lparr>ao_base = new_JArrow name True False False 16, ao_body = MapBody [] [] p\<rparr>)"

definition new_JEventProcessorArrow :: "string \<Rightarrow> nat \<Rightarrow> nat ptr \<Rightarrow> nat ptr \<Rightarrow> arrow_object result" where
  "new_JEventProcessorArrow name input_queue output_queue pool =
     rbind (new_JPipelineArrow (Some input_queue) output_queue pool) (\<lambda>p.
       Inr \<lparr>ao_base = new_JArrow name True False True 16, ao_body = ProcessorBody [] p\<rparr>)"

definition add_processor :: "nat \<Rightarrow> arrow_object \<Rightarrow> arrow_object" where
  "add_processor proc obj = (case ao_body obj of
     ProcessorBody procs p \<Rightarrow> obj\<lparr>ao_body := ProcessorBody (procs @ [proc]) p\<rparr> | _ \<Rightarrow> obj)"

definition upd_object :: "nat \<Rightarrow> (arrow_object \<Rightarrow> arrow_object) \<Rightarrow> JTopologyBuilder \<Rightarrow> JTopologyBuilder" where
  "upd_object a f tb = tb\<lparr>tb_objects := (tb_objects tb)[a := f (tb_objects tb ! a)]\<rparr>"

definition upd_base :: "(JArrow \<Rightarrow> JArrow) \<Rightarrow> arrow_object \<Rightarrow> arrow_object" where
  "upd_base f obj = obj\<lparr>ao_base := f (ao_base obj)\<rparr>"

definition upd_unfold :: "(JUnfoldArrow \<Rightarrow> JUnfoldArrow) \<Rightarrow> arrow_object \<Rightarrow> arrow_object" where
  "upd_unfold f obj = (case ao_body obj of UnfoldBody u \<Rightarrow> obj\<lparr>ao_body := UnfoldBody (f u)\<rparr> | _ \<Rightarrow> obj)"

definition upd_fold :: "(JFoldArrow \<Rightarrow> JFoldArrow) \<Rightarrow> arrow_object \<Rightarrow> arrow_object" where
  "upd_fold f obj = (case ao_body obj of FoldBody u \<Rightarrow> obj\<lparr>ao_body := FoldBody (f u)\<rparr> | _ \<Rightarrow> obj)"

text \<open>\<open>new\<close> of an arrow, and of a queue and a pool that the topology takes over.\<close>

definition alloc_arrow :: "arrow_object \<Rightarrow> JTopologyBuilder \<Rightarrow> JTopologyBuilder \<times> nat" where
  "alloc_arrow obj tb = (tb\<lparr>tb_objects := tb_objects tb @ [obj]\<rparr>, length (tb_objects tb))"

definition push_arrow :: "nat \<Rightarrow> JTopologyBuilder \<Rightarrow> JTopologyBuilder" where
  "push_arrow a tb = tb\<lparr>tb_arrows := tb_arrows tb @ [a]\<rparr>"

definition add_queue :: "JTopologyBuilder \<Rightarrow> JTopologyBuilder \<times> nat" where
  "add_queue tb =
     (tb\<lparr>tb_queues := tb_queues tb @ [new_JMailbox (tb_event_queue_threshold tb) (tb_loc_count tb) (tb_enable_stealing tb)]\<rparr>,
      length (tb_queues tb))"

definition add_pool :: "(nat \<Rightarrow> nat \<Rightarrow> addr) \<Rightarrow> JEventLevel \<Rightarrow> JTopologyBuilder \<Rightarrow> (JTopologyBuilder \<times> nat) result" where
  "add_pool arrays level tb =
     rbind (new_JEventPool (tb_event_pool_size tb) (tb_location_count tb) (tb_limit_total_events_in_flight tb) level) (\<lambda>pool.
       Inr (tb\<lparr>tb_pools := tb_pools tb @ [pool\<lparr>ep_pool := JPool_init (arrays (length (tb_pools tb))) (ep_pool pool)\<rparr>]\<rparr>,
            length (tb_pools tb)))"

definition at_level :: "JEventLevel \<Rightarrow> ('a \<times> JEventLevel) list \<Rightarrow> 'a list" where
  "at_level level xs = map fst (filter (\<lambda>(_, l). l = level) xs)"

section \<open>Wiring\<close>

text \<open>
  The steps with which the source puts a processor arrow into the topology in three places:
  \<open>not_sink\<close> is set only for a lower level whose parent level has processors of its own.
\<close>

definition attach_tap ::
    "string \<Rightarrow> nat \<Rightarrow> nat ptr \<Rightarrow> nat ptr \<Rightarrow> bool \<Rightarrow> nat list \<Rightarrow> JTopologyBuilder \<Rightarrow> (JTopologyBuilder \<times> nat) result" where
  "attach_tap name input_queue output_queue pool not_sink procs tb =
     rbind (new_JEventProcessorArrow name input_queue output_queue pool) (\<lambda>proc_obj.
     let (tb, proc_arrow) = alloc_arrow proc_obj tb;
         tb = push_arrow proc_arrow tb;
         tb = upd_object proc_arrow (upd_base (set_chunksize (tb_event_processor_chunksize tb))) tb;
         tb = (if not_sink then upd_object proc_arrow (upd_base (set_is_sink False)) tb else tb) in
     Inr (fold (\<lambda>proc. upd_object proc_arrow (add_processor proc)) procs tb, proc_arrow))"

definition attach_lower_level ::
    "(nat \<Rightarrow> nat \<Rightarrow> addr) \<Rightarrow> JEventLevel \<Rightarrow> nat \<Rightarrow> nat \<Rightarrow> bool \<Rightarrow> JTopologyBuilder \<Rightarrow> JTopologyBuilder result" where
  "attach_lower_level arrays current_level parent_unfolder parent_folder found_sink tb =
     rbind (add_pool arrays current_level tb) (\<lambda>(tb, pool).
     let procs_at_level = at_level current_level (evt_procs (tb_components tb)) in
     if at_level current_level (evt_srces (tb_components tb)) \<noteq> []
     then Inl (JExc ''Support for lower-level event sources coming soon!'')
     else if at_level current_level (unfolders (tb_components tb)) \<noteq> []
     then Inl (JExc ''Support for lower-level event unfolders coming soon!'')
     else if procs_at_level = []
     then Inl (JExc ''For now we require you to provide at least one JEventProcessor'')
     else
       let (tb, q1) = add_queue tb;
           (tb, q2) = add_queue tb in
       rbind (attach_tap (toString current_level @ ''Tap'') q1 (Some q2) nullptr found_sink procs_at_level tb) (\<lambda>(tb, proc_arrow).
       let tb = upd_object parent_unfolder (upd_unfold (unfold_attach_child_in (PoolRef pool))) tb;
           tb = upd_object parent_unfolder (upd_unfold (unfold_attach_child_out q1)) tb;
           tb = upd_object parent_folder (upd_fold (attach_child_in q2)) tb;
           tb = upd_object parent_folder (upd_fold (attach_child_out (PoolRef pool))) tb;
           tb = upd_object parent_unfolder (upd_base (attach_listener proc_arrow)) tb in
       Inr (upd_object proc_arrow (upd_base (attach_listener parent_folder)) tb)))"

text \<open>The two ways in which \<open>attach_top_level\<close> wires the level it has found.\<close>

definition attach_only_level :: "JEventLevel \<Rightarrow> nat list \<Rightarrow> nat \<Rightarrow> JTopologyBuilder \<Rightarrow> JTopologyBuilder result" where
  "attach_only_level level sources_at_level pool_at_level tb =
     (let (tb, q) = add_queue tb in
      rbind (new_JEventSourceArrow (toString level @ ''Source'') sources_at_level q pool_at_level) (\<lambda>src_obj.
      let (tb, src_arrow) = alloc_arrow src_obj tb;
          tb = push_arrow src_arrow tb;
          tb = upd_object src_arrow (upd_base (set_chunksize (tb_event_source_chunksize tb))) tb in
      rbind (attach_tap (toString level @ ''Tap'') q nullptr (Some pool_at_level) False
               (at_level level (evt_procs (tb_components tb))) tb) (\<lambda>(tb, proc_arrow).
      Inr (upd_object src_arrow (upd_base (attach_listener proc_arrow)) tb))))"

definition attach_parent_tap :: "JEventLevel \<Rightarrow> nat list \<Rightarrow> nat \<Rightarrow> nat \<Rightarrow> JTopologyBuilder \<Rightarrow> JTopologyBuilder result" where
  "attach_parent_tap level procs_at_level pool_at_level fold_arrow tb =
     (if procs_at_level = [] then Inr tb
      else
      let (tb, q3) = add_queue tb in
      rbind (attach_tap (toString level @ ''Tap'') q3 nullptr (Some pool_at_level) False procs_at_level tb) (\<lambda>(tb, proc_arrow).
      let tb = upd_object fold_arrow (upd_fold (attach_parent_out (QueueRef q3))) tb in
      Inr (upd_object fold_arrow (upd_base (attach_listener proc_arrow)) tb)))"

definition attach_two_levels ::
    "(nat \<Rightarrow> nat \<Rightarrow> addr) \<Rightarrow> JEventLevel \<Rightarrow> nat list \<Rightarrow> JEventUnfolder \<Rightarrow> nat \<Rightarrow> JTopologyBuilder \<Rightarrow> JTopologyBuilder result" where
  "attach_two_levels arrays level sources_at_level unfolder pool_at_level tb =
     (let procs_at_level = at_level level (evt_procs (tb_components tb));
          (tb, q1) = add_queue tb;
          (tb, q2) = add_queue tb in
      rbind (new_JEventSourceArrow (toString level @ ''Source'') sources_at_level q1 pool_at_level) (\<lambda>src_obj.
      let (tb, src_arrow) = alloc_arrow src_obj tb;
          tb = push_arrow src_arrow tb;
          tb = upd_object src_arrow (upd_base (set_chunksize (tb_event_source_chunksize tb))) tb in
      rbind (new_JEventMapArrow (toString level @ ''Map'') q1 q2) (\<lambda>map_obj.
      let (tb, map_arrow) = alloc_arrow map_obj tb;
          tb = push_arrow map_arrow tb;
          tb = upd_object map_arrow (upd_base (set_chunksize (tb_event_source_chunksize tb))) tb;
          tb = upd_object src_arrow (upd_base (attach_listener map_arrow)) tb;
          (tb, unfold_arrow) = alloc_arrow
            \<lparr>ao_base = new_JArrow (toString level @ ''Unfold'') False False False 16,
             ao_body = UnfoldBody (new_JUnfoldArrow unfolder level q2 pool_at_level q2)\<rparr> tb;
          tb = push_arrow unfold_arrow tb;
          tb = upd_object unfold_arrow (upd_base (set_chunksize (tb_event_source_chunksize tb))) tb;
          tb = upd_object map_arrow (upd_base (attach_listener unfold_arrow)) tb;
          (tb, fold_arrow) = alloc_arrow
            \<lparr>ao_base = new_JArrow (toString level @ ''Fold'') False False False 16,
             ao_body = FoldBody (new_JFoldArrow level (m_child_level unfolder) q2 (PoolRef pool_at_level) (PoolRef pool_at_level))\<rparr> tb;
          tb = upd_object fold_arrow (upd_base (set_chunksize (tb_event_source_chunksize tb))) tb in
      rbind (attach_lower_level arrays (m_child_level unfolder) unfold_arrow fold_arrow (procs_at_level \<noteq> []) tb) (\<lambda>tb.
      attach_parent_tap level procs_at_level pool_at_level fold_arrow (push_arrow fold_arrow tb)))))"

definition attach_level ::
    "(nat \<Rightarrow> nat \<Rightarrow> addr) \<Rightarrow> JEventLevel \<Rightarrow> nat list \<Rightarrow> JTopologyBuilder \<Rightarrow> JTopologyBuilder result" where
  "attach_level arrays level sources_at_level tb =
     rbind (add_pool arrays level tb) (\<lambda>(tb, pool_at_level).
     case at_level level (unfolders (tb_components tb)) of
       [] \<Rightarrow> attach_only_level level sources_at_level pool_at_level tb
     | [unfolder] \<Rightarrow> attach_two_levels arrays level sources_at_level unfolder pool_at_level tb
     | _ \<Rightarrow> Inl (JExc ''At most one unfolder must be provided for each level in the event hierarchy!''))"

function attach_top_level :: "(nat \<Rightarrow> nat \<Rightarrow> addr) \<Rightarrow> JEventLevel \<Rightarrow> JTopologyBuilder \<Rightarrow> JTopologyBuilder result" where
  "attach_top_level arrays current_level tb =
     (let sources_at_level = at_level current_level (evt_srces (tb_components tb)) in
      if sources_at_level = [] then
        if next_level current_level = NoLevel then Inr tb
        else attach_top_level arrays (next_level current_level) tb
      else attach_level arrays current_level sources_at_level tb)"
  by pat_completeness auto

termination
proof (relation "measure (\<lambda>(_, l, _). level_rank l)")
  show "((arrays, next_level l, tb), (arrays, l, tb)) \<in> measure (\<lambda>(_, l, _). level_rank l)"
    if "next_level l \<noteq> NoLevel" for arrays :: "nat \<Rightarrow> nat \<Rightarrow> addr" and l and tb :: JTopologyBuilder
    using that by (cases l) simp_all
qed simp

declare attach_top_level.simps [simp del]

fun set_ids :: "int \<Rightarrow> addr ptr JMailbox list \<Rightarrow> addr ptr JMailbox list" where
  "set_ids i [] = []"
| "set_ids i (q # queues) = JMailbox_set_id i q # set_ids (i + 1) queues"

definition create_topology ::
    "(nat \<Rightarrow> nat \<Rightarrow> addr) \<Rightarrow> (nat \<Rightarrow> addr) \<Rightarrow> (JTopologyBuilder \<Rightarrow> JTopologyBuilder result) option
     \<Rightarrow> JTopologyBuilder \<Rightarrow> JTopologyBuilder result" where
  "create_topology arrays event_pool_arrays configure_topology tb =
     rbind (new_JEventPool (tb_event_pool_size tb) (tb_location_count tb) (tb_limit_total_events_in_flight tb) PhysicsEvent) (\<lambda>pool.
     let tb = tb\<lparr>tb_event_pool := Some (pool\<lparr>ep_pool := JPool_init event_pool_arrays (ep_pool pool)\<rparr>)\<rparr> in
     rbind (case configure_topology of Some configure \<Rightarrow> configure tb | None \<Rightarrow> attach_top_level arrays Run tb) (\<lambda>tb.
     Inr (tb\<lparr>tb_queues := set_ids 0 (tb_queues tb)\<rparr>)))"

section \<open>The shape of what is built\<close>

fun body_places :: "arrow_body \<Rightarrow> PlaceRef list" where
  "body_places (SourceBody _ p) = [m_input p, m_output p]"
| "body_places (MapBody _ _ p) = [m_input p, m_output p]"
| "body_places (ProcessorBody _ p) = [m_input p, m_output p]"
| "body_places (UnfoldBody u) = [m_parent_in u, m_child_in u, m_child_out u]"
| "body_places (FoldBody f) = [fold_child_in f, fold_child_out f, fold_parent_out f]"

text \<open>The queues that the arrow at position \<open>i\<close> of the topology reads from or, with \<open>False\<close>, writes to.\<close>

definition queue_refs :: "bool \<Rightarrow> arrow_object \<Rightarrow> nat list" where
  "queue_refs inp obj =
     List.map_filter (\<lambda>pl. case place_ref pl of Some (QueueRef q) \<Rightarrow> if is_input pl = inp then Some q else None | _ \<Rightarrow> None)
       (body_places (ao_body obj))"

definition object_at :: "JTopologyBuilder \<Rightarrow> nat \<Rightarrow> arrow_object" where
  "object_at tb i = tb_objects tb ! (tb_arrows tb ! i)"

definition arrow_base :: "JTopologyBuilder \<Rightarrow> nat \<Rightarrow> JArrow" where
  "arrow_base tb a = ao_base (tb_objects tb ! a)"

definition pipeline_at :: "JTopologyBuilder \<Rightarrow> nat \<Rightarrow> bool" where
  "pipeline_at tb i \<longleftrightarrow>
     queue_refs True (object_at tb i) = (if i = 0 then [] else [i - 1])
     \<and> queue_refs False (object_at tb i) = (if Suc i = length (tb_arrows tb) then [] else [i])
     \<and> m_listeners (arrow_base tb (tb_arrows tb ! i)) = (if Suc i = length (tb_arrows tb) then [] else [tb_arrows tb ! Suc i])
     \<and> m_is_source (arrow_base tb (tb_arrows tb ! i)) = (i = 0)"

definition pipelined :: "JTopologyBuilder \<Rightarrow> bool" where
  "pipelined tb \<longleftrightarrow> distinct (tb_arrows tb) \<and> length (tb_arrows tb) = Suc (length (tb_queues tb))
     \<and> (\<forall>i<length (tb_arrows tb). pipeline_at tb i)"

definition blank :: "JTopologyBuilder \<Rightarrow> bool" where
  "blank tb \<longleftrightarrow> tb_objects tb = [] \<and> tb_arrows tb = [] \<and> tb_queues tb = [] \<and> tb_pools tb = []"

fun add_processors :: "nat list \<Rightarrow> arrow_object \<Rightarrow> arrow_object" where
  "add_processors [] obj = obj"
| "add_processors (p # ps) obj = add_processors ps (add_processor p obj)"

lemma add_processors_eq: "ao_body obj = ProcessorBody procs p \<Longrightarrow>
    add_processors ps obj = obj\<lparr>ao_body := ProcessorBody (procs @ ps) p\<rparr>"
  by (induction ps arbitrary: obj procs) (simp_all add: add_processor_def)

lemma upd_object_views [simp]:
  "tb_objects (upd_object a f tb) = (tb_objects tb)[a := f (tb_objects tb ! a)]" "tb_arrows (upd_object a f tb) = tb_arrows tb"
  "tb_queues (upd_object a f tb) = tb_queues tb" "tb_pools (upd_object a f tb) = tb_pools tb"
  "tb_components (upd_object a f tb) = tb_components tb"
  by (simp_all add: upd_object_def)

lemma push_arrow_views [simp]:
  "tb_objects (push_arrow a tb) = tb_objects tb" "tb_arrows (push_arrow a tb) = tb_arrows tb @ [a]"
  "tb_queues (push_arrow a tb) = tb_queues tb" "tb_pools (push_arrow a tb) = tb_pools tb"
  "tb_components (push_arrow a tb) = tb_components tb"
  by (simp_all add: push_arrow_def)

lemma add_processors_fold: "a < length (tb_objects tb) \<Longrightarrow>
    fold (\<lambda>proc. upd_object a (add_processor proc)) ps tb = upd_object a (add_processors ps) tb"
  by (induction ps arbitrary: tb) (simp_all add: upd_object_def)

lemma new_pipeline_Inr:
  "new_JPipelineArrow (Some q) (Some q') p = Inr \<lparr>m_input = new_PlaceRef (QueueRef q) True 1 1, m_output = new_PlaceRef (QueueRef q') False 1 1\<rparr>"
  "new_JPipelineArrow None (Some q') (Some p') = Inr \<lparr>m_input = new_PlaceRef (PoolRef p') True 1 1, m_output = new_PlaceRef (QueueRef q') False 1 1\<rparr>"
  "new_JPipelineArrow (Some q) None (Some p') = Inr \<lparr>m_input = new_PlaceRef (QueueRef q) True 1 1, m_output = new_PlaceRef (PoolRef p') False 1 1\<rparr>"
  by (simp_all add: new_JPipelineArrow_def)

text \<open>What a processor arrow put into the topology looks like: it reads queue \<open>q\<close> and writes to the place \<open>pl\<close>.\<close>

definition tap_on :: "nat \<Rightarrow> place \<Rightarrow> nat list \<Rightarrow> arrow_object \<Rightarrow> bool" where
  "tap_on q pl procs obj \<longleftrightarrow>
     ao_body obj = ProcessorBody procs \<lparr>m_input = new_PlaceRef (QueueRef q) True 1 1, m_output = new_PlaceRef pl False 1 1\<rparr>
     \<and> m_listeners (ao_base obj) = [] \<and> \<not> m_is_source (ao_base obj)"

lemma attach_tap_shape:
  assumes "attach_tap name q out pool not_sink procs tb = Inr (tb', a)"
    and "out = Some q' \<and> pl = QueueRef q' \<or> out = None \<and> pool = Some p \<and> pl = PoolRef p"
  shows "\<exists>obj. tb_objects tb' = tb_objects tb @ [obj] \<and> tap_on q pl procs obj \<and> a = length (tb_objects tb)
    \<and> tb_arrows tb' = tb_arrows tb @ [a] \<and> tb_queues tb' = tb_queues tb \<and> tb_pools tb' = tb_pools tb
    \<and> tb_components tb' = tb_components tb"
proof -
  have new: "new_JEventProcessorArrow name q out pool = Inr \<lparr>ao_base = new_JArrow name True False True 16,
      ao_body = ProcessorBody [] \<lparr>m_input = new_PlaceRef (QueueRef q) True 1 1, m_output = new_PlaceRef pl False 1 1\<rparr>\<rparr>"
    using assms(2) by (auto simp: new_JEventProcessorArrow_def new_pipeline_Inr)
  show ?thesis
    using assms(1) unfolding attach_tap_def new
    by (cases not_sink)
       (auto simp: alloc_arrow_def Let_def add_processors_fold add_processors_eq tap_on_def upd_base_def set_chunksize_def
         set_is_sink_def new_JArrow_def)
qed

lemma add_queue_shape:
  assumes "add_queue tb = (tb', q)"
  shows "q = length (tb_queues tb)" "length (tb_queues tb') = Suc (length (tb_queues tb))" "tb_objects tb' = tb_objects tb"
    "tb_arrows tb' = tb_arrows tb" "tb_pools tb' = tb_pools tb" "tb_components tb' = tb_components tb"
    "tb_queues tb' = tb_queues tb @ [new_JMailbox (tb_event_queue_threshold tb) (tb_loc_count tb) (tb_enable_stealing tb)]"
  using assms by (auto simp: add_queue_def)

lemma add_pool_shape:
  assumes "add_pool arrays level tb = Inr (tb', p)"
  shows "tb_objects tb' = tb_objects tb" "tb_arrows tb' = tb_arrows tb" "tb_queues tb' = tb_queues tb"
    "tb_components tb' = tb_components tb" "p = length (tb_pools tb)"
  using assms by (auto simp: add_pool_def elim!: rbind_InrE)

lemma attach_lower_level_shape:
  assumes "attach_lower_level arrays level 2 3 found_sink tb = Inr tb'"
    and tb: "tb_objects tb = [o0, o1, o2, o3]" "tb_arrows tb = [0, 1, 2]" "length (tb_queues tb) = 2"
    and "ao_body o2 = UnfoldBody u" and "ao_body o3 = FoldBody f"
  shows "tb_arrows tb' = [0, 1, 2, 4] \<and> length (tb_queues tb') = 4 \<and>
    (\<exists>o4 procs p. tb_objects tb' =
      [o0, o1,
       o2\<lparr>ao_base := attach_listener 4 (ao_base o2), ao_body := UnfoldBody (unfold_attach_child_out 2 (unfold_attach_child_in (PoolRef p) u))\<rparr>,
       o3\<lparr>ao_body := FoldBody (attach_child_out (PoolRef p) (attach_child_in 3 f))\<rparr>, upd_base (attach_listener 3) o4]
     \<and> tap_on 2 (QueueRef 3) procs o4)"
proof -
  let ?procs = "at_level level (evt_procs (tb_components tb))"
  from assms(1) obtain tb1 p where pool: "add_pool arrays level tb = Inr (tb1, p)"
    unfolding attach_lower_level_def by (elim rbind_InrE) (metis surj_pair)
  note 1 = add_pool_shape [OF pool]
  obtain tb2 q1 where q1: "add_queue tb1 = (tb2, q1)" by fastforce
  note 2 = add_queue_shape [OF q1]
  obtain tb3 q2 where q2: "add_queue tb2 = (tb3, q2)" by fastforce
  note 3 = add_queue_shape [OF q2]
  from assms(1) pool q1 q2 obtain tb4 a where tap: "attach_tap (toString level @ ''Tap'') q1 (Some q2) nullptr found_sink ?procs tb3 = Inr (tb4, a)"
    and tb': "tb' = upd_object a (upd_base (attach_listener 3)) (upd_object 2 (upd_base (attach_listener a))
      (upd_object 3 (upd_fold (attach_child_out (PoolRef p))) (upd_object 3 (upd_fold (attach_child_in q2))
      (upd_object 2 (upd_unfold (unfold_attach_child_out q1)) (upd_object 2 (upd_unfold (unfold_attach_child_in (PoolRef p))) tb4)))))"
    unfolding attach_lower_level_def by (auto simp: Let_def 1 2 3 split: if_splits elim!: rbind_InrE)
  from attach_tap_shape [OF tap, of q2 "QueueRef q2"] obtain o4 where 4: "tb_objects tb4 = tb_objects tb3 @ [o4]"
    "tap_on q1 (QueueRef q2) ?procs o4" "a = length (tb_objects tb3)" "tb_arrows tb4 = tb_arrows tb3 @ [a]" "tb_queues tb4 = tb_queues tb3"
    by auto
  have n: "q1 = 2" "q2 = 3" "a = 4" using 1 2 3 4 tb by simp_all
  have "tb_objects tb4 = [o0, o1, o2, o3, o4]" using 1 2 3 4 tb by simp
  then have "tb_objects tb' = [o0, o1,
       o2\<lparr>ao_base := attach_listener 4 (ao_base o2), ao_body := UnfoldBody (unfold_attach_child_out 2 (unfold_attach_child_in (PoolRef p) u))\<rparr>,
       o3\<lparr>ao_body := FoldBody (attach_child_out (PoolRef p) (attach_child_in 3 f))\<rparr>, upd_base (attach_listener 3) o4]"
    unfolding tb' n using assms(5,6) by (simp add: upd_base_def upd_unfold_def upd_fold_def numeral_eq_Suc)
  moreover have "tb_arrows tb' = [0, 1, 2, 4]" "length (tb_queues tb') = 4" unfolding tb' n using 1 2 3 4 tb n by simp_all
  ultimately show ?thesis using 4(2) n by blast
qed

lemma attach_parent_tap_shape:
  assumes "attach_parent_tap level procs pool 3 tb = Inr tb'"
    and tb: "tb_objects tb = [o0, o1, o2, o3, o4]" "tb_arrows tb = [0, 1, 2, 4, 3]" "length (tb_queues tb) = 4" and "ao_body o3 = FoldBody f"
  shows "procs = [] \<and> tb' = tb \<or>
    tb_arrows tb' = [0, 1, 2, 4, 3, 5] \<and> length (tb_queues tb') = 5 \<and>
    (\<exists>o5. tb_objects tb' = [o0, o1, o2,
        o3\<lparr>ao_base := attach_listener 5 (ao_base o3), ao_body := FoldBody (attach_parent_out (QueueRef 4) f)\<rparr>, o4, o5]
      \<and> tap_on 4 (PoolRef pool) procs o5)"
proof (cases "procs = []")
  case False
  obtain tb1 q where q: "add_queue tb = (tb1, q)" by fastforce
  note 1 = add_queue_shape [OF q]
  from assms(1) False q obtain tb2 a where tap: "attach_tap (toString level @ ''Tap'') q nullptr (Some pool) False procs tb1 = Inr (tb2, a)"
    and tb': "tb' = upd_object 3 (upd_base (attach_listener a)) (upd_object 3 (upd_fold (attach_parent_out (QueueRef q))) tb2)"
    unfolding attach_parent_tap_def by (auto simp: Let_def elim!: rbind_InrE)
  from attach_tap_shape [OF tap, of 0 "PoolRef pool" pool] obtain o5 where 2: "tb_objects tb2 = tb_objects tb1 @ [o5]"
    "tap_on q (PoolRef pool) procs o5" "a = length (tb_objects tb1)" "tb_arrows tb2 = tb_arrows tb1 @ [a]" "tb_queues tb2 = tb_queues tb1"
    by auto
  have n: "q = 4" "a = 5" using 1 2 tb by simp_all
  have "tb_objects tb2 = [o0, o1, o2, o3, o4, o5]" using 1 2 tb by simp
  then have "tb_objects tb' = [o0, o1, o2,
      o3\<lparr>ao_base := attach_listener 5 (ao_base o3), ao_body := FoldBody (attach_parent_out (QueueRef 4) f)\<rparr>, o4, o5]"
    unfolding tb' n using assms(5) by (simp add: upd_base_def upd_fold_def numeral_eq_Suc)
  moreover have "tb_arrows tb' = [0, 1, 2, 4, 3, 5]" "length (tb_queues tb') = 5" unfolding tb' n using 1 2 tb n by simp_all
  ultimately show ?thesis using 2(2) n by blast
qed (use assms in \<open>simp add: attach_parent_tap_def\<close>)

lemma attach_only_level_shape:
  assumes "attach_only_level level sources pool tb = Inr tb'"
    and tb: "tb_objects tb = []" "tb_arrows tb = []" "tb_queues tb = []"
  shows "tb_arrows tb' = [0, 1] \<and> tb_pools tb' = tb_pools tb
    \<and> tb_queues tb' = [new_JMailbox (tb_event_queue_threshold tb) (tb_loc_count tb) (tb_enable_stealing tb)]
    \<and> (\<exists>b o1 procs. tb_objects tb' = [\<lparr>ao_base = b, ao_body = SourceBody sources
          \<lparr>m_input = new_PlaceRef (PoolRef pool) True 1 1, m_output = new_PlaceRef (QueueRef 0) False 1 1\<rparr>\<rparr>, o1]
      \<and> m_listeners b = [1] \<and> m_is_source b \<and> tap_on 0 (PoolRef pool) procs o1)"
proof -
  obtain tb1 q where q: "add_queue tb = (tb1, q)" by fastforce
  note 1 = add_queue_shape [OF q]
  let ?src = "\<lparr>ao_base = new_JArrow (toString level @ ''Source'') False True False 16,
    ao_body = SourceBody sources \<lparr>m_input = new_PlaceRef (PoolRef pool) True 1 1, m_output = new_PlaceRef (QueueRef 0) False 1 1\<rparr>\<rparr>"
  let ?tb2 = "upd_object 0 (upd_base (set_chunksize (tb_event_source_chunksize tb1))) (push_arrow 0 (tb1\<lparr>tb_objects := [?src]\<rparr>))"
  from assms q 1 obtain tb3 a where tap: "attach_tap (toString level @ ''Tap'') 0 nullptr (Some pool) False
      (at_level level (evt_procs (tb_components tb))) ?tb2 = Inr (tb3, a)"
    and tb': "tb' = upd_object 0 (upd_base (attach_listener a)) tb3"
    unfolding attach_only_level_def
    by (auto simp: Let_def new_JEventSourceArrow_def new_pipeline_Inr alloc_arrow_def push_arrow_def elim!: rbind_InrE)
  from attach_tap_shape [OF tap, of 0 "PoolRef pool" pool] 1 tb obtain o1 where
    3: "tb_objects tb3 = [upd_base (set_chunksize (tb_event_source_chunksize tb1)) ?src, o1]" "a = 1" "tb_arrows tb3 = [0, 1]"
      "tb_queues tb3 = tb_queues tb1" "tb_pools tb3 = tb_pools tb" "tap_on 0 (PoolRef pool) (at_level level (evt_procs (tb_components tb))) o1"
    by auto
  then show ?thesis unfolding tb' using 1 tb by (auto simp: upd_base_def attach_listener_def set_chunksize_def new_JArrow_def)
qed

definition stage :: "nat \<Rightarrow> string \<Rightarrow> bool \<Rightarrow> bool \<Rightarrow> nat list \<Rightarrow> arrow_body \<Rightarrow> arrow_object" where
  "stage chunksize name parallel source ds body =
     \<lparr>ao_base = (new_JArrow name parallel source False 16)\<lparr>m_chunksize := chunksize, m_listeners := ds\<rparr>, ao_body = body\<rparr>"

lemma stage_views [simp]:
  "ao_body (stage n name par src ds body) = body" "m_listeners (ao_base (stage n name par src ds body)) = ds"
  "m_is_source (ao_base (stage n name par src ds body)) = src"
  "(stage n name par src ds body)\<lparr>ao_body := body'\<rparr> = stage n name par src ds body'"
  "(stage n name par src ds body)\<lparr>ao_base := attach_listener d (ao_base (stage n name par src ds body)), ao_body := body'\<rparr>
     = stage n name par src (ds @ [d]) body'"
  by (simp_all add: stage_def new_JArrow_def attach_listener_def)

lemma attach_two_levels_elim:
  assumes "attach_two_levels arrays level sources unfolder pool tb = Inr tb'"
    and tb: "tb_objects tb = []" "tb_arrows tb = []" "tb_queues tb = []"
  obtains tb1 tb2 n where
    "attach_lower_level arrays (m_child_level unfolder) 2 3 (at_level level (evt_procs (tb_components tb)) \<noteq> []) tb1 = Inr tb2"
    "attach_parent_tap level (at_level level (evt_procs (tb_components tb))) pool 3 (push_arrow 3 tb2) = Inr tb'"
    "tb_arrows tb1 = [0, 1, 2]" "length (tb_queues tb1) = 2"
    "tb_objects tb1 =
      [stage n (toString level @ ''Source'') False True [1] (SourceBody sources
         \<lparr>m_input = new_PlaceRef (PoolRef pool) True 1 1, m_output = new_PlaceRef (QueueRef 0) False 1 1\<rparr>),
       stage n (toString level @ ''Map'') True False [2] (MapBody [] []
         \<lparr>m_input = new_PlaceRef (QueueRef 0) True 1 1, m_output = new_PlaceRef (QueueRef 1) False 1 1\<rparr>),
       stage n (toString level @ ''Unfold'') False False [] (UnfoldBody (new_JUnfoldArrow unfolder level 1 pool 1)),
       stage n (toString level @ ''Fold'') False False []
         (FoldBody (new_JFoldArrow level (m_child_level unfolder) 1 (PoolRef pool) (PoolRef pool)))]"
proof -
  obtain tb1 q1 where q1: "add_queue tb = (tb1, q1)" by fastforce
  note 1 = add_queue_shape [OF q1]
  obtain tb2 q2 where q2: "add_queue tb1 = (tb2, q2)" by fastforce
  note 2 = add_queue_shape [OF q2]
  have n: "q1 = 0" "q2 = 1" using 1 2 tb by simp_all
  from assms(1) q1 q2 1 2 tb n that [where n = "tb_event_source_chunksize tb2"] show thesis
    unfolding attach_two_levels_def
    by (auto simp: stage_def Let_def new_JEventSourceArrow_def new_JEventMapArrow_def new_pipeline_Inr alloc_arrow_def push_arrow_def
        upd_object_def upd_base_def set_chunksize_def attach_listener_def new_JArrow_def numeral_eq_Suc elim!: rbind_InrE)
qed

lemma attach_two_levels_pipelined:
  assumes "attach_two_levels arrays level sources unfolder pool tb = Inr tb'"
    and tb: "tb_objects tb = []" "tb_arrows tb = []" "tb_queues tb = []"
  shows "pipelined tb'"
  using assms
proof (rule attach_two_levels_elim)
  fix tb1 tb2 n
  let ?u = "new_JUnfoldArrow unfolder level 1 pool 1"
  let ?f = "new_JFoldArrow level (m_child_level unfolder) 1 (PoolRef pool) (PoolRef pool)"
  let ?o0 = "stage n (toString level @ ''Source'') False True [1] (SourceBody sources
    \<lparr>m_input = new_PlaceRef (PoolRef pool) True 1 1, m_output = new_PlaceRef (QueueRef 0) False 1 1\<rparr>)"
  let ?o1 = "stage n (toString level @ ''Map'') True False [2] (MapBody [] []
    \<lparr>m_input = new_PlaceRef (QueueRef 0) True 1 1, m_output = new_PlaceRef (QueueRef 1) False 1 1\<rparr>)"
  let ?o2 = "\<lambda>ds u. stage n (toString level @ ''Unfold'') False False ds (UnfoldBody u)"
  let ?o3 = "\<lambda>ds f. stage n (toString level @ ''Fold'') False False ds (FoldBody f)"
  let ?u' = "\<lambda>p. unfold_attach_child_out 2 (unfold_attach_child_in (PoolRef p) ?u)"
  let ?f' = "\<lambda>p. attach_child_out (PoolRef p) (attach_child_in 3 ?f)"
  assume lower: "attach_lower_level arrays (m_child_level unfolder) 2 3 (at_level level (evt_procs (tb_components tb)) \<noteq> []) tb1 = Inr tb2"
    and tap: "attach_parent_tap level (at_level level (evt_procs (tb_components tb))) pool 3 (push_arrow 3 tb2) = Inr tb'"
    and tb1: "tb_arrows tb1 = [0, 1, 2]" "length (tb_queues tb1) = 2" "tb_objects tb1 = [?o0, ?o1, ?o2 [] ?u, ?o3 [] ?f]"
  from attach_lower_level_shape [OF lower tb1(3,1,2) stage_views(1) stage_views(1), unfolded stage_views append_Nil] obtain o4 procs p where
    2: "tb_arrows tb2 = [0, 1, 2, 4]" "length (tb_queues tb2) = 4" "tap_on 2 (QueueRef 3) procs o4"
      "tb_objects tb2 = [?o0, ?o1, ?o2 [4] (?u' p), ?o3 [] (?f' p), upd_base (attach_listener 3) o4]"
    by blast
  have 3: "tb_arrows (push_arrow 3 tb2) = [0, 1, 2, 4, 3]" "length (tb_queues (push_arrow 3 tb2)) = 4"
    "tb_objects (push_arrow 3 tb2) = [?o0, ?o1, ?o2 [4] (?u' p), ?o3 [] (?f' p), upd_base (attach_listener 3) o4]" using 2 by simp_all
  note views = pipelined_def pipeline_at_def object_at_def arrow_base_def queue_refs_def map_filter_simps new_PlaceRef_def
    new_JUnfoldArrow_def new_JFoldArrow_def unfold_attach_child_out_def unfold_attach_child_in_def attach_child_out_def
    attach_child_in_def attach_parent_out_def set_queue_def set_pool_def upd_base_def attach_listener_def tap_on_def
    numeral_eq_Suc All_less_Suc
  from attach_parent_tap_shape [OF tap 3(3,1,2) stage_views(1), unfolded stage_views append_Nil] show ?thesis
  proof (elim disjE conjE exE)
    assume "tb' = push_arrow 3 tb2"
    with 2 3 show ?thesis by (simp add: views)
  next
    fix o5
    assume "tb_objects tb' = [?o0, ?o1, ?o2 [4] (?u' p), ?o3 [5] (attach_parent_out (QueueRef 4) (?f' p)), upd_base (attach_listener 3) o4, o5]"
      "tb_arrows tb' = [0, 1, 2, 4, 3, 5]" "length (tb_queues tb') = 5"
      "tap_on 4 (PoolRef pool) (at_level level (evt_procs (tb_components tb))) o5"
    with 2(3) show ?thesis by (simp add: views)
  qed
qed

lemma attach_only_level_pipelined:
  assumes "attach_only_level level sources pool tb = Inr tb'" and "tb_objects tb = []" "tb_arrows tb = []" "tb_queues tb = []"
  shows "pipelined tb'"
  using attach_only_level_shape [OF assms]
  by (auto simp: pipelined_def pipeline_at_def object_at_def arrow_base_def queue_refs_def map_filter_simps new_PlaceRef_def tap_on_def
      numeral_eq_Suc All_less_Suc)

lemma attach_level_pipelined:
  assumes "attach_level arrays level sources tb = Inr tb'" and "blank tb"
  shows "pipelined tb'"
proof -
  from assms(1) obtain tb1 p where pool: "add_pool arrays level tb = Inr (tb1, p)"
    and rest: "(case at_level level (unfolders (tb_components tb1)) of
       [] \<Rightarrow> attach_only_level level sources p tb1
     | [unfolder] \<Rightarrow> attach_two_levels arrays level sources unfolder p tb1
     | _ \<Rightarrow> Inl (JExc ''At most one unfolder must be provided for each level in the event hierarchy!'')) = Inr tb'"
    unfolding attach_level_def by (auto elim!: rbind_InrE)
  have "tb_objects tb1 = []" "tb_arrows tb1 = []" "tb_queues tb1 = []" using add_pool_shape [OF pool] assms(2) by (simp_all add: blank_def)
  with rest show ?thesis by (auto split: list.splits intro: attach_only_level_pipelined attach_two_levels_pipelined)
qed

text \<open>The topmost level at which there is a source.\<close>

function top_level :: "JEventLevel \<Rightarrow> component_lists \<Rightarrow> JEventLevel option" where
  "top_level level comps =
     (if at_level level (evt_srces comps) \<noteq> [] then Some level
      else if next_level level = NoLevel then None
      else top_level (next_level level) comps)"
  by pat_completeness auto

termination
proof (relation "measure (\<lambda>(l, _). level_rank l)")
  show "((next_level l, comps), (l, comps)) \<in> measure (\<lambda>(l, _). level_rank l)" if "next_level l \<noteq> NoLevel" for l and comps :: component_lists
    using that by (cases l) simp_all
qed simp

declare top_level.simps [simp del]

lemma attach_top_level_finds:
  "attach_top_level arrays level tb = (case top_level level (tb_components tb) of
     None \<Rightarrow> Inr tb
   | Some l \<Rightarrow> attach_level arrays l (at_level l (evt_srces (tb_components tb))) tb)"
proof (induction arrays level tb rule: attach_top_level.induct)
  case (1 arrays level tb)
  show ?case
    using 1 [OF refl] attach_top_level.simps [of arrays level tb] top_level.simps [of level "tb_components tb"]
    by (simp add: Let_def split: if_splits)
qed

lemma length_set_ids [simp]: "length (set_ids i qs) = length qs"
  by (induction i qs rule: set_ids.induct) simp_all

lemma pipelined_cong:
  assumes "tb_objects tb' = tb_objects tb" "tb_arrows tb' = tb_arrows tb" "length (tb_queues tb') = length (tb_queues tb)"
  shows "pipelined tb' = pipelined tb"
  by (simp add: pipelined_def pipeline_at_def object_at_def arrow_base_def assms)

lemma create_topology_elim:
  assumes "create_topology arrays event_pool_arrays None tb = Inr tb'"
  obtains tb1 tb2 where "attach_top_level arrays Run tb1 = Inr tb2" "tb' = tb2\<lparr>tb_queues := set_ids 0 (tb_queues tb2)\<rparr>"
    "\<exists>ep. tb1 = tb\<lparr>tb_event_pool := ep\<rparr>"
  using assms unfolding create_topology_def by (auto simp: Let_def elim!: rbind_InrE)

lemma create_topology_pipelined:
  assumes "create_topology arrays event_pool_arrays None tb = Inr tb'" and "blank tb"
  shows "if top_level Run (tb_components tb) = None then tb_arrows tb' = [] else pipelined tb'"
  using assms(1)
proof (rule create_topology_elim)
  fix tb1 tb2
  assume 1: "attach_top_level arrays Run tb1 = Inr tb2" and 2: "tb' = tb2\<lparr>tb_queues := set_ids 0 (tb_queues tb2)\<rparr>"
    and 3: "\<exists>ep. tb1 = tb\<lparr>tb_event_pool := ep\<rparr>"
  have blank: "blank tb1" and comps: "tb_components tb1 = tb_components tb" using 3 assms(2) by (auto simp: blank_def)
  from 1 have "if top_level Run (tb_components tb) = None then tb_arrows tb2 = [] else pipelined tb2"
    using blank unfolding attach_top_level_finds comps
    by (auto simp: blank_def attach_level_pipelined [OF _ blank] split: option.splits)
  with 2 pipelined_cong [of tb' tb2] show ?thesis by auto
qed

text \<open>The scheduler numbers the arrows by position, so it sees each arrow of a pipeline listen to the one before.\<close>

lemma number_arrows_find:
  "distinct arrows \<Longrightarrow> om_ok m \<Longrightarrow> i < length arrows \<Longrightarrow> om_find (arrows ! i) (number_arrows k arrows m) = Some (k + i)"
proof (induction k arrows m arbitrary: i rule: number_arrows.induct)
  case (2 k a arrows m)
  have other: "om_find a (number_arrows k' arrows m') = om_find a m'" if "om_ok m'" for k' m'
    using 2(2) that
  proof (induction k' arrows m' rule: number_arrows.induct)
    case (2 k' b arrows m')
    then show ?case by (simp add: om_find_put_eq om_ok_put)
  qed simp
  show ?case
  proof (cases i)
    case 0
    with 2 other [of "om_put a k m" "Suc k"] show ?thesis by (simp add: om_ok_put om_find_put_eq)
  next
    case (Suc j)
    with 2 show ?thesis by (simp add: om_ok_put)
  qed
qed simp

lemma chain_visit:
  assumes "\<And>i. i < n \<Longrightarrow> W ! i = (if Suc i = n then [] else [Suc i])"
  shows "i < n \<Longrightarrow> n - i \<le> fuel \<Longrightarrow> visit fuel W i = Some [i ..< n]"
proof (induction fuel arbitrary: i)
  case (Suc fuel)
  show ?case
  proof (cases "Suc i = n")
    case True
    with assms [OF Suc(2)] show ?thesis by auto
  next
    case False
    with Suc have "visit fuel W (Suc i) = Some [Suc i ..< n]" by simp
    with assms [OF Suc(2)] False Suc(2) show ?thesis by (simp add: upt_conv_Cons)
  qed
qed simp

lemma pipelined_run_order:
  assumes "pipelined tb"
  shows "run_order (arrow_base tb) (length (tb_arrows tb)) (new_JScheduler (arrow_base tb) (tb_arrows tb))
    = Some [0 ..< length (tb_arrows tb)]"
proof -
  let ?n = "length (tb_arrows tb)" and ?s = "new_JScheduler (arrow_base tb) (tb_arrows tb)"
  have n: "0 < ?n" and "distinct (tb_arrows tb)" using assms by (auto simp: pipelined_def)
  then have num: "arrow_number (tb_arrows tb ! i) (number_arrows 0 (tb_arrows tb) []) = i" if "i < ?n" for i
    using number_arrows_find [of "tb_arrows tb" "[]" i 0] that by (simp add: arrow_number_def)
  have len: "states_length ?s = ?n" by (simp add: new_JScheduler_def)
  have W: "wiring ?s ! i = (if Suc i = ?n then [] else [Suc i])" if "i < ?n" for i
    using assms that num [of "Suc i"] by (auto simp: wiring_def new_JScheduler_def new_ArrowState_def pipelined_def pipeline_at_def)
  have "filter (\<lambda>i. m_is_source (arrow_base tb (names ?s ! i))) [0 ..< ?n] = filter (\<lambda>i. i = 0) [0 ..< ?n]"
  proof (rule filter_cong [OF refl])
    fix i
    assume "i \<in> set [0 ..< ?n]"
    then have "pipeline_at tb i" using assms by (simp only: pipelined_def set_upt atLeastLessThan_iff)
    then show "m_is_source (arrow_base tb (names ?s ! i)) = (i = 0)" by (simp add: new_names pipeline_at_def)
  qed
  also have "\<dots> = [0]" using n by (cases ?n) (simp_all add: upt_conv_Cons del: upt_Suc)
  finally show ?thesis using chain_visit [of ?n "wiring ?s" 0 ?n, OF W] n by (simp add: run_order_def len)
qed


text \<open>
  C9: the default topology is a pipeline.  Whatever sources, processors and unfolders are loaded, when
  \<open>create_topology\<close> succeeds without a user-supplied configuration it has built nothing, if there is no source,
  and otherwise a pipeline: the queue at position \<open>i\<close> is written by the arrow at position \<open>i\<close> and read by the next
  one, and by nobody else; each arrow notifies exactly the next one; the first arrow is the only source.  The
  scheduler therefore activates every arrow exactly once, in order, and a recursion as deep as there are
  arrows is enough.
\<close>

theorem topology_pipelined:
  assumes "create_topology arrays event_pool_arrays None tb = Inr tb'" and "blank tb"
  shows "if top_level Run (tb_components tb) = None then tb_arrows tb' = []
    else pipelined tb' \<and> run_order (arrow_base tb') (length (tb_arrows tb')) (new_JScheduler (arrow_base tb') (tb_arrows tb'))
      = Some [0 ..< length (tb_arrows tb')]"
  using create_topology_pipelined [OF assms] pipelined_run_order by (simp split: if_splits)

section \<open>Component sets that cannot be built\<close>

definition pool_params_ok :: "JTopologyBuilder \<Rightarrow> bool" where
  "pool_params_ok tb \<longleftrightarrow> 1 \<le> tb_location_count tb \<and> (0 < tb_event_pool_size tb \<or> \<not> tb_limit_total_events_in_flight tb)"

lemma add_pool_total: "pool_params_ok tb \<Longrightarrow> \<exists>tb' p. add_pool arrays level tb = Inr (tb', p)"
  by (auto simp: pool_params_ok_def add_pool_def new_JEventPool_def new_JPool_def)

lemma add_pool_params: "add_pool arrays level tb = Inr (tb', p) \<Longrightarrow> pool_params_ok tb' = pool_params_ok tb"
  by (auto simp: add_pool_def pool_params_ok_def elim!: rbind_InrE)

lemma attach_tap_total: "out \<noteq> None \<or> pool \<noteq> None \<Longrightarrow> \<exists>r. attach_tap name q out pool not_sink procs tb = Inr r"
  by (cases out; cases pool) (auto simp: attach_tap_def new_JEventProcessorArrow_def new_pipeline_Inr alloc_arrow_def Let_def)

text \<open>Which components the default configuration rejects, and with which message.\<close>

definition lower_error :: "component_lists \<Rightarrow> JEventLevel \<Rightarrow> string option" where
  "lower_error comps level =
     (if at_level level (evt_srces comps) \<noteq> [] then Some ''Support for lower-level event sources coming soon!''
      else if at_level level (unfolders comps) \<noteq> [] then Some ''Support for lower-level event unfolders coming soon!''
      else if at_level level (evt_procs comps) = [] then Some ''For now we require you to provide at least one JEventProcessor''
      else None)"

definition topology_error :: "component_lists \<Rightarrow> string option" where
  "topology_error comps = (case top_level Run comps of
     None \<Rightarrow> None
   | Some level \<Rightarrow>
       (case at_level level (unfolders comps) of
          [] \<Rightarrow> None
        | [unfolder] \<Rightarrow>
            lower_error comps (m_child_level unfolder)
        | _ \<Rightarrow> Some ''At most one unfolder must be provided for each level in the event hierarchy!''))"

definition raises :: "'a result \<Rightarrow> string option \<Rightarrow> bool" where
  "raises r e \<longleftrightarrow> (case e of None \<Rightarrow> \<exists>x. r = Inr x | Some msg \<Rightarrow> r = Inl (JExc msg))"

lemma raises_rbind: "raises r e \<Longrightarrow> (\<And>x. r = Inr x \<Longrightarrow> \<exists>y. f x = Inr y) \<Longrightarrow> raises (rbind r f) e"
  by (auto simp: raises_def split: option.splits)

lemma params_views [simp]:
  "pool_params_ok (upd_object a f tb) = pool_params_ok tb" "pool_params_ok (push_arrow a tb) = pool_params_ok tb"
  "pool_params_ok (tb\<lparr>tb_objects := objs\<rparr>) = pool_params_ok tb"
  by (simp_all add: pool_params_ok_def upd_object_def push_arrow_def)

lemma attach_lower_level_raises:
  assumes "pool_params_ok tb" and "e = lower_error (tb_components tb) level"
  shows "raises (attach_lower_level arrays level unfold_arrow fold_arrow found_sink tb) e"
proof -
  obtain tb1 p where pool: "add_pool arrays level tb = Inr (tb1, p)" using add_pool_total [OF assms(1)] by blast
  obtain tb2 q1 where q1: "add_queue tb1 = (tb2, q1)" by fastforce
  obtain tb3 q2 where q2: "add_queue tb2 = (tb3, q2)" by fastforce
  obtain r where "attach_tap (toString level @ ''Tap'') q1 (Some q2) nullptr found_sink (at_level level (evt_procs (tb_components tb))) tb3 = Inr r"
    using attach_tap_total by blast
  then show ?thesis
    by (simp add: assms(2) raises_def lower_error_def attach_lower_level_def Let_def pool q1 q2 add_pool_shape [OF pool] split: prod.split)
qed

lemma attach_only_level_total: "\<exists>tb'. attach_only_level level sources pool tb = Inr tb'"
proof -
  obtain tb1 q where q: "add_queue tb = (tb1, q)" by fastforce
  have "\<forall>procs tb. \<exists>r. attach_tap (toString level @ ''Tap'') q nullptr (Some pool) False procs tb = Inr r"
    using attach_tap_total by blast
  then obtain g where "attach_tap (toString level @ ''Tap'') q nullptr (Some pool) False procs tb = Inr (g procs tb)" for procs tb
    by metis
  then show ?thesis
    by (simp add: attach_only_level_def Let_def q new_JEventSourceArrow_def new_pipeline_Inr alloc_arrow_def split: prod.split)
qed

lemma attach_parent_tap_total: "\<exists>tb'. attach_parent_tap level procs pool fold_arrow tb = Inr tb'"
proof -
  obtain tb1 q where q: "add_queue tb = (tb1, q)" by fastforce
  obtain r where "attach_tap (toString level @ ''Tap'') q nullptr (Some pool) False procs tb1 = Inr r"
    using attach_tap_total by blast
  then show ?thesis by (cases r) (simp add: attach_parent_tap_def Let_def q)
qed


lemma attach_two_levels_raises:
  assumes "pool_params_ok tb"
  shows "raises (attach_two_levels arrays level sources unfolder pool tb) (lower_error (tb_components tb) (m_child_level unfolder))"
proof -
  obtain tb1 q1 where q1: "add_queue tb = (tb1, q1)" by fastforce
  obtain tb2 q2 where q2: "add_queue tb1 = (tb2, q2)" by fastforce
  have same: "tb_components tb2 = tb_components tb" "pool_params_ok tb2"
    using q1 q2 assms by (auto simp: add_queue_def pool_params_ok_def)
  show ?thesis
    unfolding attach_two_levels_def
    by (simp add: Let_def q1 q2 new_JEventSourceArrow_def new_JEventMapArrow_def new_pipeline_Inr alloc_arrow_def)
       (rule raises_rbind [OF attach_lower_level_raises attach_parent_tap_total], simp_all add: same)
qed

lemma attach_level_raises:
  assumes "pool_params_ok tb"
  shows "raises (attach_level arrays level sources tb) (case at_level level (unfolders (tb_components tb)) of
      [] \<Rightarrow> None
    | [unfolder] \<Rightarrow> lower_error (tb_components tb) (m_child_level unfolder)
    | _ \<Rightarrow> Some ''At most one unfolder must be provided for each level in the event hierarchy!'')"
proof -
  obtain tb1 p where pool: "add_pool arrays level tb = Inr (tb1, p)" using add_pool_total [OF assms] by blast
  have "tb_components tb1 = tb_components tb" "pool_params_ok tb1" using add_pool_shape [OF pool] add_pool_params [OF pool] assms by simp_all
  with attach_two_levels_raises [of tb1] attach_only_level_total show ?thesis
    by (simp add: attach_level_def pool raises_def split: list.split)
qed

lemma create_topology_raises:
  assumes "pool_params_ok tb"
  shows "raises (create_topology arrays event_pool_arrays None tb) (topology_error (tb_components tb))"
proof -
  obtain pool where pool: "new_JEventPool (tb_event_pool_size tb) (tb_location_count tb) (tb_limit_total_events_in_flight tb) PhysicsEvent = Inr pool"
    using assms by (auto simp: pool_params_ok_def new_JEventPool_def new_JPool_def)
  let ?tb1 = "tb\<lparr>tb_event_pool := Some (pool\<lparr>ep_pool := JPool_init event_pool_arrays (ep_pool pool)\<rparr>)\<rparr>"
  have comps: "tb_components ?tb1 = tb_components tb" by simp
  have ok: "pool_params_ok ?tb1" using assms by (simp add: pool_params_ok_def)
  have "raises (attach_top_level arrays Run ?tb1) (topology_error (tb_components tb))"
    unfolding attach_top_level_finds topology_error_def comps using attach_level_raises [OF ok, unfolded comps]
    by (auto simp: raises_def [of "Inr _"] split: option.split)
  then show ?thesis by (simp add: create_topology_def pool Let_def raises_rbind)
qed

text \<open>
  C34: which sets of components the default configuration accepts.  With pool parameters that the pool accepts,
  \<open>create_topology\<close> succeeds exactly when no message is due: when there is no source at all, when there is no
  unfolder at the topmost level with a source, or when there is exactly one and its child level has processors
  but neither sources nor unfolders of its own.  Otherwise it throws exactly that message.
\<close>

theorem topology_accepts:
  assumes "pool_params_ok tb"
  shows "case topology_error (tb_components tb) of
      None \<Rightarrow> \<exists>tb'. create_topology arrays event_pool_arrays None tb = Inr tb'
    | Some msg \<Rightarrow> create_topology arrays event_pool_arrays None tb = Inl (JExc msg)"
  using create_topology_raises [OF assms] by (simp add: raises_def)

section \<open>The events of a single-level topology\<close>

text \<open>The pipeline arrows of a topology, each with what its \<open>process\<close> does, and the world of its queues and pools.\<close>

fun body_pipeline :: "arrow_body \<Rightarrow> JPipelineArrow option" where
  "body_pipeline (SourceBody _ p) = Some p"
| "body_pipeline (MapBody _ _ p) = Some p"
| "body_pipeline (ProcessorBody _ p) = Some p"
| "body_pipeline (UnfoldBody _) = None"
| "body_pipeline (FoldBody _) = None"

definition built_arrows :: "(nat \<Rightarrow> process) \<Rightarrow> JTopologyBuilder \<Rightarrow> (JPipelineArrow \<times> process) set" where
  "built_arrows proc tb = {(p, proc a) | p a. a \<in> set (tb_arrows tb) \<and> body_pipeline (ao_body (tb_objects tb ! a)) = Some p}"

definition built_world :: "eheap \<Rightarrow> JTopologyBuilder \<Rightarrow> world" where
  "built_world E tb = \<lparr>w_queues = (\<lambda>q. tb_queues tb ! q), w_pools = (\<lambda>p. ep_pool (tb_pools tb ! p)), w_events = E\<rparr>"

definition level_net :: "(nat \<Rightarrow> nat \<Rightarrow> addr) \<Rightarrow> (addr list \<Rightarrow> addr) \<Rightarrow> JTopologyBuilder \<Rightarrow> topology" where
  "level_net arrays malloc tb =
     \<lparr>t_queues = {0}, t_pools = {0}, t_home = (\<lambda>_. 0), t_bases = (\<lambda>_. map (arrays 0) [0 ..< tb_location_count tb]),
      t_malloc = (\<lambda>_. malloc)\<rparr>"

text \<open>What \<open>new[]\<close> and \<open>new\<close> guarantee: arrays that do not overlap, and fresh addresses.\<close>

definition allocator_ok :: "(nat \<Rightarrow> nat \<Rightarrow> addr) \<Rightarrow> (addr list \<Rightarrow> addr) \<Rightarrow> JTopologyBuilder \<Rightarrow> bool" where
  "allocator_ok arrays malloc tb \<longleftrightarrow>
     arrays_ok (tb_event_pool_size tb) (tb_location_count tb) (arrays 0)
     \<and> malloc_ok (tb_event_pool_size tb) (map (arrays 0) [0 ..< tb_location_count tb]) malloc"

lemma new_mailbox_sound: "cap < size_mod \<Longrightarrow> queue_sound (JMailbox_set_id i (new_JMailbox cap n steal)) (\<lambda>_. 0)"
  by (simp add: queue_sound_def JMailbox_set_id_def new_JMailbox_def new_LocalQueue_def lq_inv_def)

lemma sum_list_empties: "sum_list (replicate n {#}) = {#}"
  by (induction n) simp_all

lemma new_mailbox_empty: "contents (JMailbox_set_id i (new_JMailbox cap n steal)) = {#}"
  by (simp add: contents_def JMailbox_set_id_def new_JMailbox_def new_LocalQueue_def sum_list_empties)

lemma single_level_shape:
  assumes "create_topology arrays event_pool_arrays None tb = Inr tb'" and "blank tb"
    and "top_level Run (tb_components tb) = Some level" and "at_level level (unfolders (tb_components tb)) = []"
  shows "tb_arrows tb' = [0, 1]
    \<and> tb_queues tb' = [JMailbox_set_id 0 (new_JMailbox (tb_event_queue_threshold tb) (tb_loc_count tb) (tb_enable_stealing tb))]
    \<and> (\<exists>pool lv. new_JPool (tb_event_pool_size tb) (tb_location_count tb) (tb_limit_total_events_in_flight tb) = Inr pool
        \<and> tb_pools tb' = [\<lparr>ep_pool = JPool_init (arrays 0) pool, ep_level = lv\<rparr>])
    \<and> (\<exists>b sources o1 procs. tb_objects tb' = [\<lparr>ao_base = b, ao_body = SourceBody sources
          \<lparr>m_input = new_PlaceRef (PoolRef 0) True 1 1, m_output = new_PlaceRef (QueueRef 0) False 1 1\<rparr>\<rparr>, o1]
      \<and> tap_on 0 (PoolRef 0) procs o1)"
  using assms(1)
proof (rule create_topology_elim)
  fix tb1 tb2
  assume 1: "attach_top_level arrays Run tb1 = Inr tb2" and 2: "tb' = tb2\<lparr>tb_queues := set_ids 0 (tb_queues tb2)\<rparr>"
    and 3: "\<exists>ep. tb1 = tb\<lparr>tb_event_pool := ep\<rparr>"
  have comps: "tb_components tb1 = tb_components tb" using 3 by auto
  let ?srcs = "at_level level (evt_srces (tb_components tb))"
  from 1 assms(3) have "attach_level arrays level ?srcs tb1 = Inr tb2" by (simp add: attach_top_level_finds comps)
  then obtain tb3 p where pool: "add_pool arrays level tb1 = Inr (tb3, p)" and "attach_only_level level ?srcs p tb3 = Inr tb2"
    using assms(4) unfolding attach_level_def
    by (elim rbind_InrE) (auto simp: comps dest!: add_pool_shape(4))
  from pool 3 assms(2) obtain pl where tb3: "tb_objects tb3 = []" "tb_arrows tb3 = []" "tb_queues tb3 = []" "p = 0"
    "new_JPool (tb_event_pool_size tb) (tb_location_count tb) (tb_limit_total_events_in_flight tb) = Inr pl"
    "tb_pools tb3 = [\<lparr>ep_pool = JPool_init (arrays 0) pl, ep_level = level\<rparr>]"
    "tb_event_queue_threshold tb3 = tb_event_queue_threshold tb" "tb_loc_count tb3 = tb_loc_count tb" "tb_enable_stealing tb3 = tb_enable_stealing tb"
    by (auto simp: add_pool_def new_JEventPool_def blank_def elim!: rbind_InrE)
  from attach_only_level_shape [OF \<open>attach_only_level level ?srcs p tb3 = Inr tb2\<close> tb3(1-3)] tb3(4-) 2 show ?thesis by auto
qed


section \<open>Sample topologies\<close>

definition sample_builder :: "(JEventUnfolder \<times> JEventLevel) list \<Rightarrow> JEventLevel \<Rightarrow> JTopologyBuilder" where
  "sample_builder us level =
     (new_JTopologyBuilder \<lparr>evt_srces = [(7, level)], evt_procs = [(8, PhysicsEvent)], unfolders = us\<rparr> 1)\<lparr>tb_event_pool_size := 2\<rparr>"

definition sample_child_unfolder :: JEventUnfolder where
  "sample_child_unfolder = sample_unfolder\<lparr>m_child_level := PhysicsEvent\<rparr>"

lemma sample_builder_ok: "blank (sample_builder us level)" "pool_params_ok (sample_builder us level)"
  by (simp_all add: sample_builder_def new_JTopologyBuilder_def blank_def pool_params_ok_def)

lemmas top_level_steps = top_level.simps [of Run] top_level.simps [of Subrun] top_level.simps [of Timeslice]
  top_level.simps [of Block] top_level.simps [of SlowControls] top_level.simps [of PhysicsEvent]

lemma sample_top_level:
  "top_level Run (tb_components (sample_builder us PhysicsEvent)) = Some PhysicsEvent"
  "top_level Run (tb_components (sample_builder us Timeslice)) = Some Timeslice"
  by (simp_all add: top_level_steps sample_builder_def new_JTopologyBuilder_def at_level_def)

lemma sample_builder_builds:
  assumes "topology_error (tb_components (sample_builder us level)) = None"
  shows "\<exists>tb. create_topology arrays ea None (sample_builder us level) = Inr tb"
  using create_topology_raises [where tb = "sample_builder us level" and arrays = arrays and event_pool_arrays = ea, OF sample_builder_ok(2)]
  unfolding assms by (simp add: raises_def)

lemma sample_builder_errors:
  "topology_error (tb_components (sample_builder [] PhysicsEvent)) = None"
  "topology_error (tb_components (sample_builder [(sample_child_unfolder, Timeslice)] Timeslice)) = None"
  unfolding topology_error_def sample_top_level
  by (simp_all add: sample_builder_def new_JTopologyBuilder_def at_level_def lower_error_def sample_child_unfolder_def)

theorem topology_pipelined_witness:
  "\<exists>tb. create_topology (\<lambda>_ _. 100) (\<lambda>_. 200) None (sample_builder [(sample_child_unfolder, Timeslice)] Timeslice) = Inr tb
    \<and> pipelined tb \<and> run_order (arrow_base tb) (length (tb_arrows tb)) (new_JScheduler (arrow_base tb) (tb_arrows tb))
      = Some [0 ..< length (tb_arrows tb)]"
proof -
  obtain tb where tb: "create_topology (\<lambda>_ _. 100) (\<lambda>_. 200) None (sample_builder [(sample_child_unfolder, Timeslice)] Timeslice) = Inr tb"
    using sample_builder_builds [OF sample_builder_errors(2)] by blast
  from topology_pipelined [OF tb sample_builder_ok(1)] tb show ?thesis unfolding sample_top_level by simp
qed

theorem topology_accepts_witness:
  "create_topology (\<lambda>_ _. 100) (\<lambda>_. 200) None
      (sample_builder [(sample_child_unfolder, PhysicsEvent), (sample_child_unfolder, PhysicsEvent)] PhysicsEvent)
    = Inl (JExc ''At most one unfolder must be provided for each level in the event hierarchy!'')"
proof -
  let ?us = "[(sample_child_unfolder, PhysicsEvent), (sample_child_unfolder, PhysicsEvent)]"
  have "topology_error (tb_components (sample_builder ?us PhysicsEvent))
      = Some ''At most one unfolder must be provided for each level in the event hierarchy!''"
    unfolding topology_error_def sample_top_level by (simp add: sample_builder_def new_JTopologyBuilder_def at_level_def)
  with topology_accepts [where tb = "sample_builder ?us PhysicsEvent" and arrays = "\<lambda>_ _. 100" and event_pool_arrays = "\<lambda>_. 200",
      OF sample_builder_ok(2)] show ?thesis by simp
qed


end
