(* ===== verification/Worker.thy ===== *)
theory Worker
  imports Scheduler
begin

text \<open>
  Workers and their controller: \<open>Engine/JWorker.*\<close>, \<open>JWorkerMetrics.h\<close> and \<open>JArrowProcessingController.*\<close>.  A
  worker's thread runs \<open>loop\<close>; what happens to it from outside during one assignment (readings of the
  clock and of the run state, results of executing the arrow) is a list of rounds.  Durations and times are
  integers of clock ticks.
\<close>

section \<open>Worker metrics\<close>

record JWorkerMetrics =
  m_last_heartbeat :: int
  m_scheduler_visit_count :: int
  m_total_useful_time :: int
  m_total_retry_time :: int
  m_total_scheduler_time :: int
  m_total_idle_time :: int
  m_last_useful_time :: int
  m_last_retry_time :: int
  m_last_scheduler_time :: int
  m_last_idle_time :: int

definition JWorkerMetrics_clear :: "int \<Rightarrow> JWorkerMetrics" where
  "JWorkerMetrics_clear now =
     \<lparr>m_last_heartbeat = now, m_scheduler_visit_count = 0, m_total_useful_time = 0, m_total_retry_time = 0,
      m_total_scheduler_time = 0, m_total_idle_time = 0, m_last_useful_time = 0, m_last_retry_time = 0,
      m_last_scheduler_time = 0, m_last_idle_time = 0\<rparr>"

definition JWorkerMetrics_update_from :: "JWorkerMetrics \<Rightarrow> JWorkerMetrics \<Rightarrow> JWorkerMetrics" where
  "JWorkerMetrics_update_from m other =
     \<lparr>m_last_heartbeat = m_last_heartbeat other,
      m_scheduler_visit_count = m_scheduler_visit_count m + m_scheduler_visit_count other,
      m_total_useful_time = m_total_useful_time m + m_total_useful_time other,
      m_total_retry_time = m_total_retry_time m + m_total_retry_time other,
      m_total_scheduler_time = m_total_scheduler_time m + m_total_scheduler_time other,
      m_total_idle_time = m_total_idle_time m + m_total_idle_time other,
      m_last_useful_time = m_last_useful_time other, m_last_retry_time = m_last_retry_time other,
      m_last_scheduler_time = m_last_scheduler_time other, m_last_idle_time = m_last_idle_time other\<rparr>"

definition JWorkerMetrics_update :: "int \<Rightarrow> int \<Rightarrow> int \<Rightarrow> int \<Rightarrow> int \<Rightarrow> int \<Rightarrow> JWorkerMetrics \<Rightarrow> JWorkerMetrics" where
  "JWorkerMetrics_update heartbeat scheduler_visit_count useful_time retry_time scheduler_time idle_time m =
     m\<lparr>m_scheduler_visit_count := m_scheduler_visit_count m + scheduler_visit_count,
       m_total_useful_time := m_total_useful_time m + useful_time,
       m_total_retry_time := m_total_retry_time m + retry_time,
       m_total_scheduler_time := m_total_scheduler_time m + scheduler_time,
       m_total_idle_time := m_total_idle_time m + idle_time,
       m_last_useful_time := useful_time, m_last_retry_time := retry_time,
       m_last_scheduler_time := scheduler_time, m_last_idle_time := idle_time,
       m_last_heartbeat := heartbeat\<rparr>"

section \<open>Worker\<close>

datatype RunState = WRunning | WStopping | WStopped | WTimedOut | WExcepted

datatype BackoffStrategy = ConstantBackoff | LinearBackoff | ExponentialBackoff

text \<open>Where the worker's thread is: not running, at the head of the loop, or between two visits to the scheduler.\<close>

datatype worker_pc = NoThread | AtHead | AtWork

record JWorker =
  wk_worker_id :: nat
  wk_cpu_id :: nat
  wk_location_id :: nat
  wk_pin_to_cpu :: bool
  wk_run_state :: RunState
  wk_assignment :: "nat ptr"
  wk_thread :: bool
  wk_metrics :: JWorkerMetrics
  wk_arrow_metrics :: JArrowMetrics
  wk_exception :: "fault option"
  wk_backoff_strategy :: BackoffStrategy
  wk_initial_backoff_time :: int
  wk_checkin_time :: int
  wk_backoff_tries :: nat
  wk_last_result :: ArrowStatus
  wk_pc :: worker_pc

definition blank_metrics :: JArrowMetrics where
  "blank_metrics = \<lparr>m_last_status = NotRunYet, m_total_message_count = 0, m_last_message_count = 0,
     m_total_queue_visits = 0, m_last_queue_visits = 0, m_total_latency = 0, m_last_latency = 0,
     m_total_queue_latency = 0, m_last_queue_latency = 0\<rparr>"

definition new_JWorker :: "int \<Rightarrow> nat \<Rightarrow> nat \<Rightarrow> nat \<Rightarrow> bool \<Rightarrow> JWorker" where
  "new_JWorker now worker_id cpu_id loc pin_to_cpu =
     \<lparr>wk_worker_id = worker_id, wk_cpu_id = cpu_id, wk_location_id = loc, wk_pin_to_cpu = pin_to_cpu,
      wk_run_state = WStopped, wk_assignment = nullptr, wk_thread = False, wk_metrics = JWorkerMetrics_clear now,
      wk_arrow_metrics = blank_metrics, wk_exception = None, wk_backoff_strategy = ExponentialBackoff,
      wk_initial_backoff_time = 1000, wk_checkin_time = 500000000, wk_backoff_tries = 4,
      wk_last_result = NotRunYet, wk_pc = NoThread\<rparr>"

definition declare_timeout :: "JWorker \<Rightarrow> JWorker" where
  "declare_timeout w = w\<lparr>wk_run_state := WTimedOut\<rparr>"

definition worker_start :: "JWorker \<Rightarrow> JWorker" where
  "worker_start w = (if wk_run_state w = WStopped
     then w\<lparr>wk_run_state := WRunning, wk_thread := True, wk_last_result := NotRunYet, wk_pc := AtHead\<rparr> else w)"

definition worker_request_stop :: "JWorker \<Rightarrow> JWorker" where
  "worker_request_stop w = (if wk_run_state w = WRunning then w\<lparr>wk_run_state := WStopping\<rparr> else w)"

text \<open>\<open>join\<close> blocks until the thread has returned; \<open>None\<close> says that it is still waiting.\<close>

definition wait_for_stop :: "JWorker \<Rightarrow> JWorker option" where
  "wait_for_stop w =
     (if \<not> wk_thread w then Some w
      else if wk_run_state w \<noteq> WTimedOut \<and> wk_pc w \<noteq> NoThread then None
      else Some (w\<lparr>wk_thread := False, wk_run_state := (if wk_run_state w = WStopping then WStopped else wk_run_state w)\<rparr>))"

section \<open>One assignment\<close>

text \<open>
  One turn of the inner loop of \<open>JWorker::loop\<close>: whether the run state was still \<open>Running\<close> when the condition was
  evaluated, the clock at that moment, how long \<open>execute\<close> took, and what it threw or left in the metrics.
\<close>

record round =
  rd_running :: bool
  rd_now :: int
  rd_duration :: int
  rd_outcome :: "fault + JArrowMetrics"

record work_state =
  ws_result :: ArrowStatus
  ws_tries :: nat
  ws_backoff :: int
  ws_useful :: int
  ws_retry :: int
  ws_metrics :: JArrowMetrics

definition work_again :: "JWorker \<Rightarrow> int \<Rightarrow> round \<Rightarrow> work_state \<Rightarrow> bool" where
  "work_again w t0 rd s \<longleftrightarrow>
     ws_tries s \<le> wk_backoff_tries w
     \<and> (ws_result s = KeepGoing \<or> ws_result s = ComeBackLater \<or> ws_result s = NotRunYet)
     \<and> rd_running rd \<and> rd_now rd - t0 < wk_checkin_time w"

definition next_backoff :: "BackoffStrategy \<Rightarrow> int \<Rightarrow> int \<Rightarrow> int" where
  "next_backoff strategy initial backoff = (case strategy of
     ConstantBackoff \<Rightarrow> backoff | LinearBackoff \<Rightarrow> backoff + initial | ExponentialBackoff \<Rightarrow> backoff * 2)"

definition after_execute :: "JWorker \<Rightarrow> int \<Rightarrow> JArrowMetrics \<Rightarrow> work_state \<Rightarrow> work_state" where
  "after_execute w duration m s =
     (let last_result = m_last_status m;
          s1 = s\<lparr>ws_result := last_result, ws_metrics := m, ws_useful := ws_useful s + duration\<rparr> in
      if last_result = KeepGoing then s1\<lparr>ws_tries := 0, ws_backoff := wk_initial_backoff_time w\<rparr>
      else
        let s2 = s1\<lparr>ws_tries := Suc (ws_tries s1)\<rparr> in
        if 0 < wk_backoff_tries w
        then let b = next_backoff (wk_backoff_strategy w) (wk_initial_backoff_time w) (ws_backoff s2) in
             s2\<lparr>ws_backoff := b, ws_retry := ws_retry s2 + b\<rparr>
        else s2)"

text \<open>\<open>None\<close>: the rounds end before the loop does.\<close>

fun work_loop :: "JWorker \<Rightarrow> int \<Rightarrow> round list \<Rightarrow> work_state \<Rightarrow> (fault + work_state) option" where
  "work_loop w t0 [] s = None"
| "work_loop w t0 (rd # rds) s =
     (if \<not> work_again w t0 rd s then Some (Inr s)
      else case rd_outcome rd of
        Inl e \<Rightarrow> Some (Inl e)
      | Inr m \<Rightarrow> work_loop w t0 rds (after_execute w (rd_duration rd) m s))"

definition begin_work :: "JWorker \<Rightarrow> work_state" where
  "begin_work w = \<lparr>ws_result = NotRunYet, ws_tries = 0, ws_backoff = wk_initial_backoff_time w, ws_useful = 0, ws_retry = 0,
     ws_metrics = wk_arrow_metrics w\<rparr>"

text \<open>
  The metrics that the worker collected are moved to the arrow at the end of every assignment.
\<close>

definition finish_work :: "int \<Rightarrow> int \<Rightarrow> work_state \<Rightarrow> JArrowMetrics \<Rightarrow> JWorker \<Rightarrow> JWorker \<times> JArrowMetrics" where
  "finish_work t0 scheduler_duration s arrow_metrics w =
     (let (latest, mine) = JArrowMetrics_take blank_metrics (ws_metrics s) in
      (w\<lparr>wk_metrics := JWorkerMetrics_update t0 1 (ws_useful s) (ws_retry s) scheduler_duration 0 (wk_metrics w),
         wk_arrow_metrics := mine, wk_last_result := ws_result s, wk_pc := AtHead\<rparr>,
       JArrowMetrics_update_from arrow_metrics latest))"

definition worker_excepted :: "fault \<Rightarrow> JWorker \<Rightarrow> JWorker" where
  "worker_excepted e w = w\<lparr>wk_run_state := WExcepted, wk_exception := Some e, wk_pc := NoThread\<rparr>"

text \<open>The two visits to the scheduler: for another assignment, and when the worker has been told to stop.\<close>

definition worker_visit :: "(nat \<Rightarrow> JArrow) \<Rightarrow> (nat \<Rightarrow> nat) \<Rightarrow> JWorker \<Rightarrow> JScheduler \<Rightarrow> (JScheduler \<times> JWorker) result" where
  "worker_visit A pending w s =
     rbind (next_assignment A pending (wk_assignment w) (wk_last_result w) s) (\<lambda>(s', a).
       Inr (s', case a of
              None \<Rightarrow> w\<lparr>wk_assignment := nullptr, wk_last_result := NotRunYet, wk_run_state := WStopped, wk_pc := NoThread\<rparr>
            | Some _ \<Rightarrow> w\<lparr>wk_assignment := a, wk_last_result := NotRunYet, wk_pc := AtWork\<rparr>))"

definition worker_leave :: "(nat \<Rightarrow> JArrow) \<Rightarrow> (nat \<Rightarrow> nat) \<Rightarrow> JWorker \<Rightarrow> JScheduler \<Rightarrow> (JScheduler \<times> JWorker) result" where
  "worker_leave A pending w s =
     rbind (last_assignment A pending (wk_assignment w) (wk_last_result w) s) (\<lambda>s'.
       Inr (s', w\<lparr>wk_assignment := nullptr, wk_pc := NoThread\<rparr>))"

text \<open>
  The part of \<open>measure_perf\<close> that changes state: what the worker has collected goes to the arrow it is assigned to,
  and is dropped if there is none.
\<close>

definition measure_perf :: "JWorker \<Rightarrow> (nat \<Rightarrow> JArrowMetrics) \<Rightarrow> JWorker \<times> (nat \<Rightarrow> JArrowMetrics)" where
  "measure_perf w M =
     (let (latest, mine) = JArrowMetrics_take blank_metrics (wk_arrow_metrics w) in
      (w\<lparr>wk_arrow_metrics := mine\<rparr>,
       case wk_assignment w of None \<Rightarrow> M | Some a \<Rightarrow> M(a := JArrowMetrics_update_from (M a) latest)))"

section \<open>The inner loop\<close>

definition failing :: "JWorker \<Rightarrow> int \<Rightarrow> round \<Rightarrow> bool" where
  "failing w t0 rd \<longleftrightarrow> rd_running rd \<and> rd_now rd - t0 < wk_checkin_time w
     \<and> (\<exists>m. rd_outcome rd = Inr m \<and> m_last_status m = ComeBackLater)"

text \<open>What \<open>n\<close> failures in a row add up to.\<close>

definition backoff_total :: "BackoffStrategy \<Rightarrow> int \<Rightarrow> nat \<Rightarrow> int" where
  "backoff_total strategy initial n = (case strategy of
     ConstantBackoff \<Rightarrow> initial * int n
   | LinearBackoff \<Rightarrow> initial * (int n * (int n + 3) div 2)
   | ExponentialBackoff \<Rightarrow> initial * (2 ^ (n + 1) - 2))"

definition backoff_after :: "BackoffStrategy \<Rightarrow> int \<Rightarrow> nat \<Rightarrow> int" where
  "backoff_after strategy initial n = (case strategy of
     ConstantBackoff \<Rightarrow> initial | LinearBackoff \<Rightarrow> initial * (int n + 1) | ExponentialBackoff \<Rightarrow> initial * 2 ^ n)"

lemma backoff_after_Suc: "next_backoff st b (backoff_after st b n) = backoff_after st b (Suc n)"
  by (cases st) (simp_all add: next_backoff_def backoff_after_def algebra_simps)

lemma linear_sum: "(int (Suc n) * (int (Suc n) + 3)) div 2 = (int n * (int n + 3)) div 2 + (int n + 2)"
proof -
  have "int (Suc n) * (int (Suc n) + 3) = int n * (int n + 3) + (int n + 2) * 2" by (simp add: algebra_simps)
  then show ?thesis by simp
qed

lemma backoff_total_Suc: "backoff_total st b (Suc n) = backoff_total st b n + backoff_after st b (Suc n)"
proof (cases st)
  case LinearBackoff
  then show ?thesis unfolding backoff_total_def backoff_after_def linear_sum by (simp add: algebra_simps)
qed (simp_all add: backoff_total_def backoff_after_def algebra_simps)

lemma work_loop_failing:
  assumes "0 < wk_backoff_tries w" and "\<forall>rd\<in>set rds. failing w t0 rd" and "n + length rds = Suc (Suc (wk_backoff_tries w))"
    and "n \<le> Suc (wk_backoff_tries w)"
    and "ws_tries s = n" and "ws_backoff s = backoff_after (wk_backoff_strategy w) (wk_initial_backoff_time w) n"
    and "ws_retry s = backoff_total (wk_backoff_strategy w) (wk_initial_backoff_time w) n"
    and "ws_result s = NotRunYet \<and> n = 0 \<or> ws_result s = ComeBackLater"
  shows "\<exists>s'. work_loop w t0 (rds @ rest) s = Some (Inr s') \<and> ws_result s' = ComeBackLater \<and> ws_tries s' = Suc (wk_backoff_tries w)
    \<and> ws_retry s' = backoff_total (wk_backoff_strategy w) (wk_initial_backoff_time w) (Suc (wk_backoff_tries w))"
  using assms(2-)
proof (induction rds arbitrary: n s)
  case (Cons rd rds)
  from Cons.prems(1) obtain m where m: "rd_outcome rd = Inr m" "m_last_status m = ComeBackLater"
    and go: "rd_running rd" "rd_now rd - t0 < wk_checkin_time w" by (auto simp: failing_def)
  show ?case
  proof (cases "n = Suc (wk_backoff_tries w)")
    case True
    with Cons.prems have "\<not> work_again w t0 rd s" by (simp add: work_again_def)
    with True Cons.prems show ?thesis by auto
  next
    case False
    with Cons.prems have again: "work_again w t0 rd s" using go by (auto simp: work_again_def)
    let ?s = "after_execute w (rd_duration rd) m s"
    have "ws_tries ?s = Suc n" "ws_result ?s = ComeBackLater"
      "ws_backoff ?s = backoff_after (wk_backoff_strategy w) (wk_initial_backoff_time w) (Suc n)"
      "ws_retry ?s = backoff_total (wk_backoff_strategy w) (wk_initial_backoff_time w) (Suc n)"
      using m Cons.prems(4-6) assms(1) by (simp_all add: after_execute_def Let_def backoff_after_Suc backoff_total_Suc)
    with Cons.IH [of "Suc n" ?s] Cons.prems(1-3) False m again show ?thesis by simp
  qed
qed simp

lemma begin_work_views [simp]:
  "ws_tries (begin_work w) = 0" "ws_retry (begin_work w) = 0" "ws_result (begin_work w) = NotRunYet"
  "ws_backoff (begin_work w) = wk_initial_backoff_time w"
  by (simp_all add: begin_work_def)

text \<open>
  C24: a worker that gets nothing done gives up.  If every execution of its arrow reports that there is nothing
  to do, the worker executes the arrow exactly once more than \<open>m_backoff_tries\<close> says, sleeps for the total that
  the back-off strategy prescribes (constant, arithmetic or geometric series) and goes back to the scheduler.
\<close>

theorem worker_gives_up:
  assumes "0 < wk_backoff_tries w" and "\<forall>rd\<in>set rds. failing w t0 rd" and "wk_backoff_tries w + 2 \<le> length rds"
  shows "\<exists>s. work_loop w t0 rds (begin_work w) = Some (Inr s) \<and> ws_result s = ComeBackLater
    \<and> ws_tries s = wk_backoff_tries w + 1
    \<and> ws_retry s = backoff_total (wk_backoff_strategy w) (wk_initial_backoff_time w) (wk_backoff_tries w + 1)"
proof -
  let ?k = "wk_backoff_tries w + 2" and ?st = "wk_backoff_strategy w" and ?b = "wk_initial_backoff_time w"
  have fails: "\<forall>rd\<in>set (take ?k rds). failing w t0 rd" using assms(2) by (meson in_set_takeD)
  have start: "ws_backoff (begin_work w) = backoff_after ?st ?b 0" "ws_retry (begin_work w) = backoff_total ?st ?b 0"
    by (cases ?st; simp add: backoff_after_def backoff_total_def)+
  from work_loop_failing [OF assms(1) fails _ _ _ start, of "drop ?k rds"] assms(3) show ?thesis
    by (simp add: min_absorb2)
qed

lemma work_loop_open: "work_loop w t0 rds s = None \<Longrightarrow> rd \<in> set rds \<Longrightarrow> rd_running rd \<and> rd_now rd - t0 < wk_checkin_time w"
  by (induction w t0 rds s rule: work_loop.induct) (auto simp: work_again_def split: if_splits sum.splits)

text \<open>
  C25: no worker stays with its arrow for ever.  However well the arrow keeps going, the worker is back at the
  scheduler, or out with an exception, by the first round in which the clock has passed the check-in time or
  the run state is no longer \<open>Running\<close>.
\<close>

theorem worker_checks_in:
  assumes "rd \<in> set rds" and "\<not> rd_running rd \<or> t0 + wk_checkin_time w \<le> rd_now rd"
  shows "\<exists>r. work_loop w t0 rds (begin_work w) = Some r"
proof (cases "work_loop w t0 rds (begin_work w)")
  case None
  with work_loop_open [OF None assms(1)] assms(2) show ?thesis by auto
qed simp

section \<open>Controller\<close>

text \<open>
  \<open>mapping\<close> gives the CPU and the location of a worker.  The scheduler, once \<open>initialize\<close> has created it,
  and the workers are the state; \<open>en_visitor\<close> is the arrow that \<open>execute_arrow\<close> has checked out.
\<close>

record JArrowProcessingController =
  en_sched :: JScheduler
  en_workers :: "JWorker list"
  en_metrics :: "nat \<Rightarrow> JArrowMetrics"
  en_visitor :: "nat ptr"

definition controller_initialize :: "(nat \<Rightarrow> JArrow) \<Rightarrow> nat list \<Rightarrow> JArrowProcessingController result" where
  "controller_initialize A arrows =
     rbind (initialize_topology (new_JScheduler A arrows)) (\<lambda>s.
       Inr \<lparr>en_sched = s, en_workers = [], en_metrics = (\<lambda>_. blank_metrics), en_visitor = nullptr\<rparr>)"

definition set_worker :: "nat \<Rightarrow> JWorker \<Rightarrow> JArrowProcessingController \<Rightarrow> JArrowProcessingController" where
  "set_worker i w c = c\<lparr>en_workers := (en_workers c)[i := w]\<rparr>"

definition set_sched :: "JScheduler \<Rightarrow> JArrowProcessingController \<Rightarrow> JArrowProcessingController" where
  "set_sched s c = c\<lparr>en_sched := s\<rparr>"

definition add_worker :: "int \<Rightarrow> (nat \<Rightarrow> nat \<times> nat) \<Rightarrow> bool \<Rightarrow> nat \<Rightarrow> JArrowProcessingController \<Rightarrow> JArrowProcessingController" where
  "add_worker now mapping pin_to_cpu next_worker_id c =
     (case mapping next_worker_id of (cpu, loc) \<Rightarrow>
        c\<lparr>en_workers := en_workers c @ [new_JWorker now next_worker_id cpu loc pin_to_cpu]\<rparr>)"

definition start_worker :: "nat \<Rightarrow> JArrowProcessingController \<Rightarrow> JArrowProcessingController" where
  "start_worker i c = set_worker i (worker_start (en_workers c ! i)) c"

definition controller_run ::
    "(nat \<Rightarrow> JArrow) \<Rightarrow> nat \<Rightarrow> int \<Rightarrow> (nat \<Rightarrow> nat \<times> nat) \<Rightarrow> bool \<Rightarrow> nat \<Rightarrow> JArrowProcessingController
     \<Rightarrow> JArrowProcessingController option result" where
  "controller_run A fuel now mapping pin_to_cpu nthreads c =
     rbind (run_topology A fuel (int nthreads) (en_sched c)) (\<lambda>r.
       Inr (map_option (\<lambda>s.
         fold start_worker [0 ..< nthreads] (fold (add_worker now mapping pin_to_cpu) [0 ..< nthreads] (set_sched s c))) r))"

fun wait_workers :: "nat list \<Rightarrow> JArrowProcessingController \<Rightarrow> JArrowProcessingController option" where
  "wait_workers [] c = Some c"
| "wait_workers (i # is) c =
     (case wait_for_stop (en_workers c ! i) of None \<Rightarrow> None | Some w \<Rightarrow> wait_workers is (set_worker i w c))"

definition scale_workers ::
    "int \<Rightarrow> (nat \<Rightarrow> nat \<times> nat) \<Rightarrow> bool \<Rightarrow> nat \<Rightarrow> JArrowProcessingController \<Rightarrow> JArrowProcessingController" where
  "scale_workers now mapping pin_to_cpu nthreads c =
     fold (add_worker now mapping pin_to_cpu) [length (en_workers c) ..< nthreads] c"

text \<open>\<open>scale\<close> up to the moment when all the threads have been joined, and from there on.\<close>

definition scale_resume ::
    "(nat \<Rightarrow> JArrow) \<Rightarrow> nat \<Rightarrow> int \<Rightarrow> (nat \<Rightarrow> nat \<times> nat) \<Rightarrow> bool \<Rightarrow> nat \<Rightarrow> JArrowProcessingController
     \<Rightarrow> JArrowProcessingController option result" where
  "scale_resume A fuel now mapping pin_to_cpu nthreads c =
     (let c1 = scale_workers now mapping pin_to_cpu nthreads (set_sched (achieve_topology_pause (en_sched c)) c) in
      rbind (run_topology A fuel (int nthreads) (en_sched c1)) (\<lambda>r.
        Inr (map_option (\<lambda>s. fold start_worker [0 ..< nthreads] (set_sched s c1)) r)))"

definition controller_request_pause :: "JArrowProcessingController \<Rightarrow> JArrowProcessingController" where
  "controller_request_pause c = set_sched (request_topology_pause (en_sched c)) c"

definition wait_until_paused :: "JArrowProcessingController \<Rightarrow> JArrowProcessingController option" where
  "wait_until_paused c = map_option (\<lambda>c. set_sched (achieve_topology_pause (en_sched c)) c)
     (wait_workers [0 ..< length (en_workers c)] c)"

definition controller_request_stop :: "(nat \<Rightarrow> JArrow) \<Rightarrow> JArrowProcessingController \<Rightarrow> JArrowProcessingController" where
  "controller_request_stop A c = set_sched (drain_topology A (en_sched c)) c"

definition wait_until_stopped :: "JArrowProcessingController \<Rightarrow> JArrowProcessingController option" where
  "wait_until_stopped c = map_option (\<lambda>c. set_sched (finish_topology (achieve_topology_pause (en_sched c))) c)
     (wait_workers [0 ..< length (en_workers c)] c)"

definition is_stopped :: "JArrowProcessingController \<Rightarrow> bool" where
  "is_stopped c \<longleftrightarrow> topology_status (en_sched c) = TPaused"

definition is_finished :: "JArrowProcessingController \<Rightarrow> bool" where
  "is_finished c \<longleftrightarrow> topology_status (en_sched c) = TFinalized"

definition is_excepted :: "JArrowProcessingController \<Rightarrow> bool" where
  "is_excepted c \<longleftrightarrow> list_ex (\<lambda>w. wk_run_state w = WExcepted) (en_workers c)"

definition get_exceptions :: "JArrowProcessingController \<Rightarrow> fault list" where
  "get_exceptions c = List.map_filter (\<lambda>w. if wk_run_state w = WExcepted then wk_exception w else None) (en_workers c)"

section \<open>Any interleaving of the engine\<close>

text \<open>
  One step is one call that takes the scheduler's lock, one assignment of a worker between two such calls, or
  one call of the controller on a worker.  \<open>run\<close>, \<open>scale\<close> and the waiting methods are sequences of them.
\<close>

inductive engine_step :: "(nat \<Rightarrow> JArrow) \<Rightarrow> nat \<Rightarrow> JArrowProcessingController \<Rightarrow> JArrowProcessingController \<Rightarrow> bool"
  for A :: "nat \<Rightarrow> JArrow" and fuel :: nat where
  en_visit: "i < length (en_workers c) \<Longrightarrow> en_workers c ! i = w \<Longrightarrow> wk_pc w = AtHead \<Longrightarrow> wk_run_state w = WRunning \<Longrightarrow>
    worker_visit A pending w (en_sched c) = Inr (s', w') \<Longrightarrow> engine_step A fuel c (set_worker i w' (set_sched s' c))"
| en_leave: "i < length (en_workers c) \<Longrightarrow> en_workers c ! i = w \<Longrightarrow> wk_pc w = AtHead \<Longrightarrow> wk_run_state w \<noteq> WRunning \<Longrightarrow>
    worker_leave A pending w (en_sched c) = Inr (s', w') \<Longrightarrow> engine_step A fuel c (set_worker i w' (set_sched s' c))"
| en_work: "i < length (en_workers c) \<Longrightarrow> en_workers c ! i = w \<Longrightarrow> wk_pc w = AtWork \<Longrightarrow> wk_assignment w = Some a \<Longrightarrow>
    work_loop w t0 rds (begin_work w) = Some (Inr s) \<Longrightarrow> finish_work t0 d s (en_metrics c a) w = (w', m') \<Longrightarrow>
    engine_step A fuel c (set_worker i w' (c\<lparr>en_metrics := (en_metrics c)(a := m')\<rparr>))"
| en_except: "i < length (en_workers c) \<Longrightarrow> en_workers c ! i = w \<Longrightarrow> wk_pc w = AtWork \<Longrightarrow>
    work_loop w t0 rds (begin_work w) = Some (Inl e) \<Longrightarrow>
    engine_step A fuel c (controller_request_pause (set_worker i (worker_excepted e w) c))"
| en_start: "i < length (en_workers c) \<Longrightarrow> engine_step A fuel c (start_worker i c)"
| en_stop: "i < length (en_workers c) \<Longrightarrow> engine_step A fuel c (set_worker i (worker_request_stop (en_workers c ! i)) c)"
| en_timeout: "i < length (en_workers c) \<Longrightarrow> engine_step A fuel c (set_worker i (declare_timeout (en_workers c ! i)) c)"
| en_join: "i < length (en_workers c) \<Longrightarrow> wait_for_stop (en_workers c ! i) = Some w \<Longrightarrow> engine_step A fuel c (set_worker i w c)"
| en_measure: "i < length (en_workers c) \<Longrightarrow> measure_perf (en_workers c ! i) (en_metrics c) = (w, M) \<Longrightarrow>
    engine_step A fuel c (set_worker i w (c\<lparr>en_metrics := M\<rparr>))"
| en_add: "engine_step A fuel c (add_worker now mapping pin k c)"
| en_run: "run_topology A fuel n (en_sched c) = Inr (Some s') \<Longrightarrow> engine_step A fuel c (set_sched s' c)"
| en_pause: "engine_step A fuel c (controller_request_pause c)"
| en_drain: "engine_step A fuel c (controller_request_stop A c)"
| en_achieve: "engine_step A fuel c (set_sched (achieve_topology_pause (en_sched c)) c)"
| en_finish: "engine_step A fuel c (set_sched (finish_topology (en_sched c)) c)"
| en_checkout: "en_visitor c = None \<Longrightarrow> checkout A i (en_sched c) = (s', a) \<Longrightarrow>
    engine_step A fuel c (set_sched s' (c\<lparr>en_visitor := a\<rparr>))"
| en_return: "last_assignment A pending (en_visitor c) r (en_sched c) = Inr s' \<Longrightarrow>
    engine_step A fuel c (set_sched s' (c\<lparr>en_visitor := nullptr\<rparr>))"

inductive engine_reachable :: "(nat \<Rightarrow> JArrow) \<Rightarrow> nat \<Rightarrow> nat list \<Rightarrow> JArrowProcessingController \<Rightarrow> bool"
  for A :: "nat \<Rightarrow> JArrow" and fuel :: nat and arrows :: "nat list" where
  engine_start: "controller_initialize A arrows = Inr c \<Longrightarrow> engine_reachable A fuel arrows c"
| engine_more: "engine_reachable A fuel arrows c \<Longrightarrow> engine_step A fuel c c' \<Longrightarrow> engine_reachable A fuel arrows c'"

text \<open>Who holds what, as the scheduler sees it: holder 0 is the visitor, the workers follow.\<close>

definition holders :: "JArrowProcessingController \<Rightarrow> crew" where
  "holders c w = (case w of 0 \<Rightarrow> en_visitor c | Suc i \<Rightarrow> if i < length (en_workers c) then wk_assignment (en_workers c ! i) else None)"

definition engine_abs :: "JArrowProcessingController \<Rightarrow> JScheduler \<times> crew" where
  "engine_abs c = (en_sched c, holders c)"

lemma holders_set_worker: "i < length (en_workers c) \<Longrightarrow> holders (set_worker i w c) = (holders c)(Suc i := wk_assignment w)"
  by (rule ext) (auto simp: holders_def set_worker_def nth_list_update split: nat.splits)

lemma holders_same: "i < length (en_workers c) \<Longrightarrow> wk_assignment w = wk_assignment (en_workers c ! i) \<Longrightarrow> holders (set_worker i w c) = holders c"
  by (rule ext) (auto simp: holders_def set_worker_def nth_list_update split: nat.splits)

lemma engine_views [simp]:
  "holders (set_sched s c) = holders c" "en_sched (set_sched s c) = s" "en_workers (set_sched s c) = en_workers c"
  "en_sched (set_worker i w c) = en_sched c" "length (en_workers (set_worker i w c)) = length (en_workers c)"
  "holders (c\<lparr>en_metrics := m\<rparr>) = holders c" "holders (c\<lparr>en_visitor := v\<rparr>) = (holders c)(0 := v)"
  by (auto simp: holders_def set_sched_def set_worker_def split: nat.splits)

lemma holders_worker: "i < length (en_workers c) \<Longrightarrow> holders c (Suc i) = wk_assignment (en_workers c ! i)"
  by (simp add: holders_def)

lemma holders_visitor: "holders c 0 = en_visitor c"
  by (simp add: holders_def)

lemma holders_add: "holders (add_worker now mapping pin k c) = holders c"
  by (rule ext) (auto simp: holders_def add_worker_def new_JWorker_def nth_append less_Suc_eq split: nat.splits prod.splits)

lemma worker_visit_assigns:
  assumes "worker_visit A pending w s = Inr (s', w')"
  shows "next_assignment A pending (wk_assignment w) (wk_last_result w) s = Inr (s', wk_assignment w')"
  using assms by (auto simp: worker_visit_def elim!: rbind_InrE split: option.splits)

lemma worker_leave_returns:
  assumes "worker_leave A pending w s = Inr (s', w')"
  shows "last_assignment A pending (wk_assignment w) (wk_last_result w) s = Inr s' \<and> wk_assignment w' = None"
  using assms by (auto simp: worker_leave_def elim!: rbind_InrE)

lemma worker_keeps_assignment:
  "wk_assignment (worker_start w) = wk_assignment w" "wk_assignment (worker_request_stop w) = wk_assignment w"
  "wk_assignment (declare_timeout w) = wk_assignment w" "wk_assignment (worker_excepted e w) = wk_assignment w"
  "wait_for_stop w = Some w' \<Longrightarrow> wk_assignment w' = wk_assignment w"
  "finish_work t0 d s m w = (w', m') \<Longrightarrow> wk_assignment w' = wk_assignment w"
  "measure_perf w M = (w', M') \<Longrightarrow> wk_assignment w' = wk_assignment w"
  by (auto simp: worker_start_def worker_request_stop_def declare_timeout_def worker_excepted_def wait_for_stop_def
      finish_work_def measure_perf_def split: if_splits prod.splits)

lemma engine_step_refines:
  assumes "engine_step A fuel c c'"
  shows "sched_step A fuel (\<lambda>_. True) (engine_abs c) (engine_abs c') \<or> engine_abs c' = engine_abs c"
  using assms
proof cases
  case (en_visit i w pending s' w')
  with worker_visit_assigns [OF en_visit(6)] have "next_assignment A pending (holders c (Suc i)) (wk_last_result w) (en_sched c) = Inr (s', wk_assignment w')"
    by (simp add: holders_worker)
  from step_next [where held = "holders c" and w = "Suc i", OF this] en_visit show ?thesis by (simp add: engine_abs_def holders_set_worker)
next
  case (en_leave i w pending s' w')
  with worker_leave_returns [OF en_leave(6)] have "last_assignment A pending (holders c (Suc i)) (wk_last_result w) (en_sched c) = Inr s'"
    by (simp add: holders_worker)
  from step_last [where held = "holders c" and w = "Suc i", OF this] en_leave worker_leave_returns [OF en_leave(6)] show ?thesis by (simp add: engine_abs_def holders_set_worker)
next
  case (en_work i w a t0 rds s d w' m')
  with worker_keeps_assignment(6) [OF en_work(7)] show ?thesis by (simp add: engine_abs_def holders_same)
next
  case (en_except i w t0 rds e)
  then show ?thesis using step_pause [of A fuel "\<lambda>_. True" "en_sched c" "holders c"]
    by (simp add: engine_abs_def controller_request_pause_def holders_same worker_keeps_assignment)
next
  case (en_start i)
  then show ?thesis by (simp add: engine_abs_def start_worker_def holders_same worker_keeps_assignment)
next
  case (en_stop i)
  then show ?thesis by (simp add: engine_abs_def holders_same worker_keeps_assignment)
next
  case (en_timeout i)
  then show ?thesis by (simp add: engine_abs_def holders_same worker_keeps_assignment)
next
  case (en_join i w)
  then show ?thesis by (simp add: engine_abs_def holders_same worker_keeps_assignment)
next
  case (en_measure i w M)
  with worker_keeps_assignment(7) [OF en_measure(3)] show ?thesis by (simp add: engine_abs_def holders_same)
next
  case (en_add now mapping pin k)
  then show ?thesis by (simp add: engine_abs_def holders_add) (simp add: add_worker_def split: prod.split)
next
  case (en_run n s')
  then show ?thesis by (simp add: engine_abs_def step_run)
next
  case en_pause
  then show ?thesis by (simp add: engine_abs_def controller_request_pause_def step_pause)
next
  case en_drain
  then show ?thesis by (simp add: engine_abs_def controller_request_stop_def step_drain)
next
  case en_achieve
  then show ?thesis by (simp add: engine_abs_def step_achieve)
next
  case en_finish
  then show ?thesis by (simp add: engine_abs_def step_finish)
next
  case (en_checkout i s' a)
  from en_checkout(2) have "holders c 0 = None" by (simp add: holders_visitor)
  from step_checkout [where held = "holders c" and w = 0, OF this en_checkout(3)] en_checkout(1) show ?thesis by (simp add: engine_abs_def)
next
  case (en_return pending r s')
  then have "last_assignment A pending (holders c 0) r (en_sched c) = Inr s'" by (simp add: holders_visitor)
  from step_last [where held = "holders c" and w = 0, OF this] en_return(1) show ?thesis by (simp add: engine_abs_def)
qed

lemma engine_start_refines: "controller_initialize A arrows = Inr c \<Longrightarrow> sched_reachable A fuel (\<lambda>_. True) arrows (engine_abs c)"
proof -
  assume "controller_initialize A arrows = Inr c"
  then obtain s where s: "initialize_topology (new_JScheduler A arrows) = Inr s"
    and c: "c = \<lparr>en_sched = s, en_workers = [], en_metrics = (\<lambda>_. blank_metrics), en_visitor = nullptr\<rparr>"
    by (auto simp: controller_initialize_def elim: rbind_InrE)
  have "holders c = (\<lambda>_. None)" by (rule ext) (simp add: c holders_def split: nat.split)
  with sched_more [OF sched_start step_init [OF s]] c show ?thesis by (simp add: engine_abs_def)
qed

lemma engine_reachable_abs: "engine_reachable A fuel arrows c \<Longrightarrow> sched_reachable A fuel (\<lambda>_. True) arrows (engine_abs c)"
proof (induction rule: engine_reachable.induct)
  case (engine_start c)
  then show ?case by (rule engine_start_refines)
next
  case (engine_more c c')
  from engine_step_refines [OF engine_more(2)] engine_more(3) show ?case by (auto intro: sched_more)
qed

text \<open>
  C8: the engine implements the scheduler's view of it.  Every step of the threads and of the controller is,
  for the scheduler and the record of who holds which arrow, either one of its own steps or no change; and the
  engine starts where the scheduler does.
\<close>

theorem engine_refines_scheduler:
  "(controller_initialize A arrows = Inr c0 \<longrightarrow> sched_reachable A fuel (\<lambda>_. True) arrows (engine_abs c0))
    \<and> (engine_step A fuel c c' \<longrightarrow> sched_step A fuel (\<lambda>_. True) (engine_abs c) (engine_abs c') \<or> engine_abs c' = engine_abs c)"
  using engine_start_refines engine_step_refines by blast


lemma engine_sole:
  assumes "engine_reachable A fuel arrows c" and "distinct arrows"
    and "i < length (en_workers c)" and "wk_assignment (en_workers c ! i) = Some a" and "\<not> m_is_parallel (A a)"
  shows "en_visitor c \<noteq> Some a \<and> (j < length (en_workers c) \<and> j \<noteq> i \<longrightarrow> wk_assignment (en_workers c ! j) \<noteq> Some a)"
proof -
  from engine_reachable_abs [OF assms(1)] have "sched_reachable A fuel (\<lambda>_. True) arrows (en_sched c, holders c)"
    by (simp add: engine_abs_def)
  from reachable_exclusive [OF this assms(2)] have ex: "exclusive A (en_sched c) (holders c)" by simp
  have i: "holders c (Suc i) = Some a" using assms(3,4) by (simp add: holders_worker)
  have "holders c w \<noteq> Some a" if "w \<noteq> Suc i" for w using exclusive_sole [OF ex i _ assms(5), of w] that by blast
  from this [of 0] this [of "Suc j"] show ?thesis by (auto simp: holders_visitor holders_worker)
qed

text \<open>
  C6: two threads never execute a sequential arrow at the same time.  In every state that the controller and
  any number of workers can reach, by any interleaving of visits to the scheduler, executions, exceptions,
  stops, time-outs, restarts and changes of the number of workers, two different workers are at work on the
  same arrow only if that arrow is parallel, and none is while an inspector executes it.
\<close>

theorem engine_exclusive:
  assumes "engine_reachable A fuel arrows c" and "distinct arrows"
    and "i < length (en_workers c)" and "wk_assignment (en_workers c ! i) = Some a" and "\<not> m_is_parallel (A a)"
  shows "en_visitor c \<noteq> Some a \<and> (j < length (en_workers c) \<and> j \<noteq> i \<longrightarrow> wk_assignment (en_workers c ! j) \<noteq> Some a)"
  using engine_sole [OF assms] .

text \<open>A worker that is out of service for good.\<close>

definition retired :: "nat ptr \<Rightarrow> JWorker \<Rightarrow> bool" where
  "retired a w \<longleftrightarrow> wk_pc w = NoThread \<and> (wk_run_state w = WExcepted \<or> wk_run_state w = WTimedOut) \<and> wk_assignment w = a"

definition retired_at :: "nat \<Rightarrow> nat ptr \<Rightarrow> JArrowProcessingController \<Rightarrow> bool" where
  "retired_at i a c \<longleftrightarrow> i < length (en_workers c) \<and> retired a (en_workers c ! i)"

lemma retired_set_worker: "retired_at i a c \<Longrightarrow> (k = i \<Longrightarrow> retired a w) \<Longrightarrow> retired_at i a (set_worker k w c)"
  by (cases "k = i") (auto simp: retired_at_def set_worker_def)

lemma retired_views [simp]:
  "retired_at i a (set_sched s c) = retired_at i a c" "retired_at i a (c\<lparr>en_metrics := m\<rparr>) = retired_at i a c"
  "retired_at i a (c\<lparr>en_visitor := v\<rparr>) = retired_at i a c"
  by (simp_all add: retired_at_def set_sched_def)

lemma retired_methods:
  "retired a w \<Longrightarrow> retired a (worker_start w)" "retired a w \<Longrightarrow> retired a (worker_request_stop w)"
  "retired a w \<Longrightarrow> retired a (declare_timeout w)" "retired a w \<Longrightarrow> wait_for_stop w = Some w' \<Longrightarrow> retired a w'"
  "retired a w \<Longrightarrow> measure_perf w M = (w', M') \<Longrightarrow> retired a w'"
  by (auto simp: retired_def worker_start_def worker_request_stop_def declare_timeout_def wait_for_stop_def measure_perf_def split: if_splits prod.splits)

lemma retired_atD: "retired_at i a c \<Longrightarrow> retired a (en_workers c ! i)" "retired_at i a c \<Longrightarrow> wk_pc (en_workers c ! i) = NoThread"
  by (simp_all add: retired_at_def retired_def)

lemma retired_step: "engine_step A fuel c c' \<Longrightarrow> retired_at i a c \<Longrightarrow> retired_at i a c'"
proof (induction rule: engine_step.induct)
  case (en_add c now mapping pin k)
  then show ?case by (auto simp: retired_at_def add_worker_def nth_append split: prod.split)
next
  case (en_measure k c w M)
  have "retired a w" if "k = i" using retired_methods(5) [OF retired_atD(1) [OF en_measure(3)]] en_measure(2) that by blast
  with en_measure(3) show ?case by (simp add: retired_set_worker)
qed (auto simp: start_worker_def controller_request_pause_def controller_request_stop_def retired_methods(1-4) retired_atD
       intro!: retired_set_worker dest: retired_atD(2) retired_methods(4) [OF retired_atD(1)])

text \<open>
  An exception keeps its arrow.  A worker whose arrow threw never returns the arrow to the scheduler and can
  never be started again; from then on nobody else is ever assigned that arrow if it is sequential, not even
  after the topology has been paused and run again.
\<close>

theorem excepted_arrow_lost:
  assumes "engine_reachable A fuel arrows c" and "distinct arrows"
    and "i < length (en_workers c)" and "wk_pc (en_workers c ! i) = AtWork" and "wk_assignment (en_workers c ! i) = Some a"
    and "\<not> m_is_parallel (A a)" and "work_loop (en_workers c ! i) t0 rds (begin_work (en_workers c ! i)) = Some (Inl e)"
    and "(engine_step A fuel)\<^sup>*\<^sup>* (controller_request_pause (set_worker i (worker_excepted e (en_workers c ! i)) c)) c'"
  shows "wk_assignment (en_workers c' ! i) = Some a
    \<and> (j < length (en_workers c') \<and> j \<noteq> i \<longrightarrow> wk_assignment (en_workers c' ! j) \<noteq> Some a)"
proof -
  let ?c = "controller_request_pause (set_worker i (worker_excepted e (en_workers c ! i)) c)"
  from assms(8) have "retired_at i (Some a) c' \<and> engine_reachable A fuel arrows c'"
  proof (induction rule: rtranclp_induct)
    case base
    have "retired_at i (Some a) ?c"
      using assms(3,5) by (simp add: controller_request_pause_def retired_at_def set_worker_def retired_def worker_excepted_def)
    with engine_more [OF assms(1) en_except [OF assms(3) refl assms(4,7)]] show ?case by simp
  next
    case (step c1 c2)
    then show ?case using retired_step engine_more by blast
  qed
  then have "i < length (en_workers c')" "wk_assignment (en_workers c' ! i) = Some a" "engine_reachable A fuel arrows c'"
    by (auto simp: retired_at_def retired_def)
  with engine_sole [OF this(3) assms(2) this(1,2) assms(6)] show ?thesis by blast
qed


section \<open>The methods of the controller\<close>

lemma steps_start: "\<forall>i\<in>set is. i < length (en_workers c) \<Longrightarrow> (engine_step A fuel)\<^sup>*\<^sup>* c (fold start_worker is c)"
proof (induction "is" arbitrary: c)
  case (Cons i "is")
  have "engine_step A fuel c (start_worker i c)" using Cons.prems by (simp add: en_start)
  moreover have "(engine_step A fuel)\<^sup>*\<^sup>* (start_worker i c) (fold start_worker is (start_worker i c))"
    using Cons.prems by (intro Cons.IH) (simp add: start_worker_def)
  ultimately show ?case by (simp add: converse_rtranclp_into_rtranclp)
qed simp

lemma steps_add: "(engine_step A fuel)\<^sup>*\<^sup>* c (fold (add_worker now mapping pin) ks c)"
proof (induction ks arbitrary: c)
  case (Cons k ks)
  from converse_rtranclp_into_rtranclp [OF en_add Cons] show ?case by simp
qed simp

lemma length_add_workers: "length (en_workers (fold (add_worker now mapping pin) ks c)) = length (en_workers c) + length ks"
  by (induction ks arbitrary: c) (simp_all add: add_worker_def split: prod.split)

lemma steps_wait: "wait_workers is c = Some c' \<Longrightarrow> \<forall>i\<in>set is. i < length (en_workers c) \<Longrightarrow>
    (engine_step A fuel)\<^sup>*\<^sup>* c c' \<and> length (en_workers c') = length (en_workers c) \<and> en_sched c' = en_sched c"
proof (induction "is" c rule: wait_workers.induct)
  case (2 i "is" c)
  then obtain w where w: "wait_for_stop (en_workers c ! i) = Some w" "wait_workers is (set_worker i w c) = Some c'"
    by (auto split: option.splits)
  have "engine_step A fuel c (set_worker i w c)" using 2(3) w(1) by (simp add: en_join)
  with 2(1) [OF w] 2(3) show ?case by (auto intro: converse_rtranclp_into_rtranclp)
qed simp

text \<open>
  The methods of the controller are engine steps.  \<open>run\<close>, the part of \<open>scale\<close> after its threads have been
  joined, \<open>wait_until_paused\<close> and \<open>wait_until_stopped\<close> are sequences of engine steps, so that all that holds for
  every interleaving holds when they are called; starting workers never indexes out of range.
\<close>

theorem controller_steps:
  "(controller_run A fuel now mapping pin n c = Inr (Some c1) \<longrightarrow> (engine_step A fuel)\<^sup>*\<^sup>* c c1)
    \<and> (scale_resume A fuel now mapping pin n c = Inr (Some c2) \<longrightarrow> (engine_step A fuel)\<^sup>*\<^sup>* c c2)
    \<and> (wait_until_paused c = Some c3 \<longrightarrow> (engine_step A fuel)\<^sup>*\<^sup>* c c3)
    \<and> (wait_until_stopped c = Some c4 \<longrightarrow> (engine_step A fuel)\<^sup>*\<^sup>* c c4)"
proof (intro conjI impI)
  assume "controller_run A fuel now mapping pin n c = Inr (Some c1)"
  then obtain s where s: "run_topology A fuel (int n) (en_sched c) = Inr (Some s)"
    and c1: "c1 = fold start_worker [0 ..< n] (fold (add_worker now mapping pin) [0 ..< n] (set_sched s c))"
    by (auto simp: controller_run_def elim!: rbind_InrE)
  let ?c = "fold (add_worker now mapping pin) [0 ..< n] (set_sched s c)"
  have "(engine_step A fuel)\<^sup>*\<^sup>* c ?c" by (rule converse_rtranclp_into_rtranclp [where r = "engine_step A fuel", OF en_run [OF s] steps_add])
  moreover have "(engine_step A fuel)\<^sup>*\<^sup>* ?c c1" unfolding c1 by (rule steps_start) (simp add: length_add_workers)
  ultimately show "(engine_step A fuel)\<^sup>*\<^sup>* c c1" by (rule rtranclp_trans)
next
  let ?c = "scale_workers now mapping pin n (set_sched (achieve_topology_pause (en_sched c)) c)"
  assume "scale_resume A fuel now mapping pin n c = Inr (Some c2)"
  then obtain s where s: "run_topology A fuel (int n) (en_sched ?c) = Inr (Some s)"
    and c2: "c2 = fold start_worker [0 ..< n] (set_sched s ?c)"
    by (auto simp: scale_resume_def Let_def elim!: rbind_InrE)
  have "(engine_step A fuel)\<^sup>*\<^sup>* c ?c" unfolding scale_workers_def
    by (rule converse_rtranclp_into_rtranclp [where r = "engine_step A fuel", OF en_achieve steps_add])
  also have "engine_step A fuel ?c (set_sched s ?c)" using s by (rule en_run)
  also have "(engine_step A fuel)\<^sup>*\<^sup>* (set_sched s ?c) c2" unfolding c2
    by (rule steps_start) (auto simp: scale_workers_def length_add_workers)
  finally show "(engine_step A fuel)\<^sup>*\<^sup>* c c2" .
next
  assume "wait_until_paused c = Some c3"
  then obtain c' where "wait_workers [0 ..< length (en_workers c)] c = Some c'" "c3 = set_sched (achieve_topology_pause (en_sched c')) c'"
    by (auto simp: wait_until_paused_def)
  with steps_wait [OF this(1), of A fuel] show "(engine_step A fuel)\<^sup>*\<^sup>* c c3"
    using rtranclp.rtrancl_into_rtrancl [of "engine_step A fuel" c c', OF _ en_achieve] by simp
next
  assume "wait_until_stopped c = Some c4"
  then obtain c' where "wait_workers [0 ..< length (en_workers c)] c = Some c'"
    and c4: "c4 = set_sched (finish_topology (achieve_topology_pause (en_sched c'))) c'"
    by (auto simp: wait_until_stopped_def)
  with steps_wait [OF this(1), of A fuel] have "(engine_step A fuel)\<^sup>*\<^sup>* c c'" by simp
  also have "engine_step A fuel c' (set_sched (achieve_topology_pause (en_sched c')) c')" by (rule en_achieve)
  also have "engine_step A fuel \<dots> c4" using en_finish [of A fuel "set_sched (achieve_topology_pause (en_sched c')) c'"]
    by (simp add: c4) (simp add: set_sched_def)
  finally show "(engine_step A fuel)\<^sup>*\<^sup>* c c4" .
qed

text \<open>The calls of \<open>finalize\<close> that \<open>finish_topology\<close> makes.\<close>

definition open_arrows :: "JScheduler \<Rightarrow> sched_call list" where
  "open_arrows s = map (\<lambda>as. FinalizeArrow (sa_arrow as)) (filter (\<lambda>as. sa_status as \<noteq> AFinalized) (arrow_states s))"

lemma finish_calls: "finish_topology s = s\<lparr>sc_calls := sc_calls s @ open_arrows s, topology_status := TFinalized\<rparr>"
proof -
  have "fold (\<lambda>as s. if sa_status as \<noteq> AFinalized then sched_log (FinalizeArrow (sa_arrow as)) s else s) xs s
      = s\<lparr>sc_calls := sc_calls s @ map (\<lambda>as. FinalizeArrow (sa_arrow as)) (filter (\<lambda>as. sa_status as \<noteq> AFinalized) xs)\<rparr>" for xs :: "ArrowState list"
    by (induction xs arbitrary: s) (simp_all add: sched_log_def)
  then show ?thesis by (simp add: finish_topology_def open_arrows_def)
qed

lemma wait_workers_threads:
  "wait_workers is c = Some c' \<Longrightarrow> distinct is \<Longrightarrow> \<forall>i\<in>set is. i < length (en_workers c) \<Longrightarrow>
     (\<forall>i\<in>set is. \<not> wk_thread (en_workers c' ! i)) \<and> (\<forall>i. i \<notin> set is \<longrightarrow> en_workers c' ! i = en_workers c ! i)"
proof (induction "is" c rule: wait_workers.induct)
  case (2 i "is" c)
  then obtain w where w: "wait_for_stop (en_workers c ! i) = Some w" "wait_workers is (set_worker i w c) = Some c'"
    by (auto split: option.splits)
  have "\<not> wk_thread w" using w(1) by (auto simp: wait_for_stop_def split: if_splits)
  with 2(1) [OF w] 2(3,4) show ?case by (auto simp: set_worker_def)
qed simp

lemma wait_workers_again: "\<forall>i\<in>set is. \<not> wk_thread (en_workers c ! i) \<Longrightarrow> wait_workers is c = Some c"
  by (induction "is" c rule: wait_workers.induct) (simp_all add: wait_for_stop_def set_worker_def)

text \<open>
  Stopping twice finalizes twice.  When \<open>wait_until_stopped\<close> returns, every thread has been joined or given
  up and the topology is finalized.  A second call returns as well, and finalizes again every arrow that the
  first call finalized.
\<close>

theorem stopping_twice_finalizes_twice:
  assumes "wait_until_stopped c = Some c'"
  shows "is_finished c' \<and> (\<forall>i<length (en_workers c'). \<not> wk_thread (en_workers c' ! i))
    \<and> (\<exists>c''. wait_until_stopped c' = Some c'' \<and> sc_calls (en_sched c'') = sc_calls (en_sched c') @ open_arrows (en_sched c)
        \<and> (\<exists>calls. sc_calls (en_sched c') = calls @ open_arrows (en_sched c)))"
proof -
  from assms obtain c1 where c1: "wait_workers [0 ..< length (en_workers c)] c = Some c1"
    and c': "c' = set_sched (finish_topology (achieve_topology_pause (en_sched c1))) c1" by (auto simp: wait_until_stopped_def)
  have same: "length (en_workers c1) = length (en_workers c)" "en_sched c1 = en_sched c"
    using steps_wait [OF c1, of "\<lambda>_. undefined" 0] by auto
  from wait_workers_threads [OF c1] have joined: "\<forall>i<length (en_workers c1). \<not> wk_thread (en_workers c1 ! i)" using same by auto
  let ?s = "achieve_topology_pause (en_sched c)"
  have open_same: "open_arrows ?s = open_arrows (en_sched c)" by (simp add: open_arrows_def achieve_topology_pause_def sched_log_def)
  have workers: "en_workers c' = en_workers c1" and sched: "en_sched c' = finish_topology ?s" using c' same by simp_all
  have "wait_workers [0 ..< length (en_workers c')] c' = Some c'"
    by (rule wait_workers_again) (use joined workers in auto)
  then have again: "wait_until_stopped c' = Some (set_sched (finish_topology (achieve_topology_pause (en_sched c'))) c')"
    by (simp add: wait_until_stopped_def)
  have "achieve_topology_pause (en_sched c') = en_sched c'" by (simp add: sched finish_calls achieve_topology_pause_def)
  moreover have "open_arrows (en_sched c') = open_arrows (en_sched c)" by (simp add: sched finish_calls open_arrows_def) (simp add: open_same [unfolded open_arrows_def])
  ultimately show ?thesis using again joined workers
    by (simp add: is_finished_def sched finish_calls open_same)
qed


section \<open>Sample runs of the engine\<close>

definition sample_round :: "fault + JArrowMetrics \<Rightarrow> round" where
  "sample_round r = \<lparr>rd_running = True, rd_now = 7, rd_duration = 2, rd_outcome = r\<rparr>"

definition sample_worker :: JWorker where
  "sample_worker = (new_JWorker 0 0 0 0 False)\<lparr>wk_run_state := WRunning, wk_thread := True\<rparr>"

definition sample_engine :: JArrowProcessingController where
  "sample_engine = \<lparr>en_sched = chain_state AActive 0 AActive 0 1 TRunning 2 0 [], en_workers = [sample_worker\<lparr>wk_pc := AtHead\<rparr>],
     en_metrics = (\<lambda>_. blank_metrics), en_visitor = nullptr\<rparr>"

definition sample_busy :: JArrowProcessingController where
  "sample_busy = sample_engine\<lparr>en_sched := chain_state AActive 1 AActive 0 1 TRunning 2 1 [],
     en_workers := [sample_worker\<lparr>wk_assignment := Some 10, wk_pc := AtWork\<rparr>]\<rparr>"

lemma sample_engine_reachable: "engine_reachable chain_arrows 2 [10, 20] sample_engine"
proof -
  let ?s = "(new_JScheduler chain_arrows [10, 20])\<lparr>topology_status := TPaused, sc_calls := [InitializeArrow 10, InitializeArrow 20]\<rparr>"
  let ?c0 = "\<lparr>en_sched = ?s, en_workers = [], en_metrics = (\<lambda>_. blank_metrics), en_visitor = nullptr\<rparr>"
  have "controller_initialize chain_arrows [10, 20] = Inr ?c0"
    by (simp add: controller_initialize_def initialize_topology_def new_JScheduler_def sched_log_def)
  then have r0: "engine_reachable chain_arrows 2 [10, 20] ?c0" by (rule engine_start)
  have "run_topology chain_arrows 2 4 ?s = Inr (Some (chain_state AActive 0 AActive 0 1 TRunning 2 0 []))"
    by (simp add: sched_eval upt_rec numeral_2_eq_2)
  from engine_more [OF r0 en_run] this
  have r1: "engine_reachable chain_arrows 2 [10, 20] (set_sched (chain_state AActive 0 AActive 0 1 TRunning 2 0 []) ?c0)" by simp
  from engine_more [OF engine_more [OF r1 en_add [of _ _ _ 0 "\<lambda>_. (0, 0)" False 0]] en_start [of 0]]
  show ?thesis
    by (simp add: add_worker_def set_sched_def start_worker_def set_worker_def worker_start_def new_JWorker_def sample_engine_def sample_worker_def)
qed

lemma sample_busy_step: "engine_step chain_arrows 2 sample_engine sample_busy"
proof -
  have "worker_visit chain_arrows (\<lambda>_. 0) (sample_worker\<lparr>wk_pc := AtHead\<rparr>) (en_sched sample_engine)
      = Inr (chain_state AActive 1 AActive 0 1 TRunning 2 1 [], sample_worker\<lparr>wk_assignment := Some 10, wk_pc := AtWork\<rparr>)"
    by (simp add: worker_visit_def sample_engine_def sample_worker_def new_JWorker_def sched_eval)
  from en_visit [where c = sample_engine and i = 0 and fuel = 2, OF _ _ _ _ this]
  show ?thesis by (simp add: sample_engine_def sample_busy_def set_worker_def set_sched_def) (simp add: sample_worker_def)
qed

lemma sample_busy_reachable: "engine_reachable chain_arrows 2 [10, 20] sample_busy"
  using sample_engine_reachable sample_busy_step by (rule engine_more)

theorem worker_gives_up_witness:
  "\<exists>s. work_loop sample_worker 0 (replicate 6 (sample_round (Inr (blank_metrics\<lparr>m_last_status := ComeBackLater\<rparr>)))) (begin_work sample_worker)
      = Some (Inr s) \<and> ws_retry s = 62000"
proof -
  have "wk_backoff_tries sample_worker = 4" "wk_backoff_strategy sample_worker = ExponentialBackoff" "wk_initial_backoff_time sample_worker = 1000"
    "wk_checkin_time sample_worker = 500000000"
    by (simp_all add: sample_worker_def new_JWorker_def)
  with worker_gives_up [of sample_worker "replicate 6 (sample_round (Inr (blank_metrics\<lparr>m_last_status := ComeBackLater\<rparr>)))" 0]
  show ?thesis by (auto simp: failing_def sample_round_def backoff_total_def)
qed

theorem worker_checks_in_witness:
  "\<exists>r. work_loop sample_worker 0 [sample_round (Inr (blank_metrics\<lparr>m_last_status := KeepGoing\<rparr>)),
       (sample_round (Inr blank_metrics))\<lparr>rd_now := 500000000\<rparr>] (begin_work sample_worker) = Some r"
  by (rule worker_checks_in [of "(sample_round (Inr blank_metrics))\<lparr>rd_now := 500000000\<rparr>"])
     (simp_all add: sample_worker_def new_JWorker_def)

theorem engine_refines_scheduler_witness:
  "sched_step chain_arrows 2 (\<lambda>_. True) (engine_abs sample_engine) (engine_abs sample_busy)"
  using engine_refines_scheduler [of chain_arrows "[]" _ 2 sample_engine sample_busy] sample_busy_step
  by (auto simp: engine_abs_def sample_engine_def sample_busy_def chain_state_def)

theorem engine_exclusive_witness: "en_visitor sample_busy \<noteq> Some 10"
  using engine_exclusive [OF sample_busy_reachable, of 0 10 0]
  by (simp add: sample_busy_def sample_engine_def chain_arrows_def sample_stage_def new_JArrow_def)

theorem excepted_arrow_lost_witness:
  "wk_assignment (en_workers (controller_request_pause (set_worker 0
       (worker_excepted (JExc ''bad event'') (en_workers sample_busy ! 0)) sample_busy)) ! 0) = Some 10"
  using excepted_arrow_lost [OF sample_busy_reachable, of 0 10 0 "[sample_round (Inl (JExc ''bad event''))]" "JExc ''bad event''",
    OF _ _ _ _ _ _ rtranclp.rtrancl_refl, of 0]
  by (simp add: sample_busy_def sample_engine_def sample_worker_def new_JWorker_def chain_arrows_def sample_stage_def new_JArrow_def
      work_again_def begin_work_def sample_round_def)

theorem controller_steps_witness:
  "\<exists>c. controller_run chain_arrows 2 0 (\<lambda>_. (0, 0)) False 1 (sample_engine\<lparr>en_workers := []\<rparr>) = Inr (Some c)
    \<and> (engine_step chain_arrows 2)\<^sup>*\<^sup>* (sample_engine\<lparr>en_workers := []\<rparr>) c"
proof -
  let ?c = "sample_engine\<lparr>en_workers := []\<rparr>"
  have "run_topology chain_arrows 2 (int 1) (en_sched ?c) = Inr (Some (en_sched ?c))"
    by (simp add: run_topology_def sample_engine_def chain_state_def)
  then obtain c where "controller_run chain_arrows 2 0 (\<lambda>_. (0, 0)) False 1 ?c = Inr (Some c)" by (auto simp: controller_run_def)
  with controller_steps [of chain_arrows 2 0 "\<lambda>_. (0, 0)" False 1 ?c c] show ?thesis by blast
qed

theorem stopping_twice_finalizes_twice_witness:
  "\<exists>c c''. wait_until_stopped (sample_engine\<lparr>en_workers := []\<rparr>) = Some c \<and> wait_until_stopped c = Some c''
    \<and> sc_calls (en_sched c'') = sc_calls (en_sched c) @ [FinalizeArrow 10, FinalizeArrow 20]"
proof -
  let ?c = "sample_engine\<lparr>en_workers := []\<rparr>"
  have o: "open_arrows (en_sched ?c) = [FinalizeArrow 10, FinalizeArrow 20]"
    by (simp add: open_arrows_def sample_engine_def chain_state_def)
  obtain c where c: "wait_until_stopped ?c = Some c" by (simp add: wait_until_stopped_def)
  from stopping_twice_finalizes_twice [OF c] c show ?thesis unfolding o by blast
qed

end
