(* ===== verification/PerfMetrics.thy ===== *)
theory PerfMetrics
  imports Worker
begin

text \<open>
  The stopwatch of a topology, \<open>Engine/JPerfMetrics.h\<close> and \<open>.cc\<close>, and how \<open>JArrowProcessingController::measure_performance\<close>
  feeds it.  Readings of the clock are arguments, durations are integers.  The rates of the summary are floating-point
  quotients of the fields modelled here and are left out.
\<close>

datatype PerfMode = PerfReset | PerfTicking | PerfStopped

record JPerfMetrics =
  pm_mode :: PerfMode
  pm_start_time :: int
  pm_prev_time :: int
  pm_last_time :: int
  pm_start_event_count :: nat
  pm_prev_event_count :: nat
  pm_last_event_count :: nat
  pm_thread_count :: nat

record perf_summary =
  monotonic_events_completed :: nat
  total_events_completed :: nat
  latest_events_completed :: nat
  total_uptime :: int
  latest_uptime :: int
  summary_thread_count :: nat

text \<open>Each of the three member initializers reads the clock.\<close>

definition new_JPerfMetrics :: "int \<Rightarrow> int \<Rightarrow> int \<Rightarrow> JPerfMetrics" where
  "new_JPerfMetrics t0 t1 t2 =
     \<lparr>pm_mode = PerfReset, pm_start_time = t0, pm_prev_time = t1, pm_last_time = t2, pm_start_event_count = 0,
      pm_prev_event_count = 0, pm_last_event_count = 0, pm_thread_count = 0\<rparr>"

definition perf_reset :: "int \<Rightarrow> JPerfMetrics \<Rightarrow> JPerfMetrics" where
  "perf_reset now m =
     m\<lparr>pm_mode := PerfReset, pm_start_time := now, pm_prev_time := now, pm_last_time := now,
       pm_start_event_count := pm_last_event_count m, pm_prev_event_count := pm_last_event_count m,
       pm_last_event_count := 0, pm_thread_count := 0\<rparr>"

definition perf_start :: "int \<Rightarrow> nat \<Rightarrow> JPerfMetrics \<Rightarrow> JPerfMetrics result" where
  "perf_start now current_thread_count m =
     (if pm_mode m = PerfReset
      then Inr (m\<lparr>pm_mode := PerfTicking, pm_start_time := now, pm_last_time := now, pm_prev_time := now,
                  pm_thread_count := current_thread_count\<rparr>)
      else Inl (JExc ''Stopwatch must be reset before it can be started!''))"

definition perf_start_at :: "int \<Rightarrow> nat \<Rightarrow> nat \<Rightarrow> JPerfMetrics \<Rightarrow> JPerfMetrics result" where
  "perf_start_at now current_event_count current_thread_count m =
     (if pm_mode m = PerfReset
      then Inr (m\<lparr>pm_mode := PerfTicking, pm_start_time := now, pm_last_time := now, pm_prev_time := now,
                  pm_start_event_count := current_event_count, pm_prev_event_count := current_event_count,
                  pm_last_event_count := current_event_count, pm_thread_count := current_thread_count\<rparr>)
      else Inl (JExc ''Stopwatch must be reset before it can be started!''))"

definition perf_split :: "int \<Rightarrow> nat \<Rightarrow> JPerfMetrics \<Rightarrow> JPerfMetrics" where
  "perf_split now current_event_count m =
     (if pm_mode m = PerfTicking
      then m\<lparr>pm_prev_time := pm_last_time m, pm_last_time := now,
             pm_prev_event_count := pm_last_event_count m, pm_last_event_count := current_event_count\<rparr>
      else m\<lparr>pm_last_event_count := current_event_count\<rparr>)"

definition perf_stop :: "int \<Rightarrow> JPerfMetrics \<Rightarrow> JPerfMetrics" where
  "perf_stop now m =
     (if pm_mode m = PerfTicking
      then m\<lparr>pm_mode := PerfStopped, pm_prev_time := pm_last_time m, pm_last_time := now\<rparr> else m)"

definition perf_stop_at :: "int \<Rightarrow> nat \<Rightarrow> JPerfMetrics \<Rightarrow> JPerfMetrics" where
  "perf_stop_at now current_event_count m =
     (if pm_mode m = PerfTicking
      then m\<lparr>pm_mode := PerfStopped, pm_prev_time := pm_last_time m, pm_last_time := now,
             pm_prev_event_count := pm_last_event_count m, pm_last_event_count := current_event_count\<rparr>
      else m)"

definition perf_summarize :: "JPerfMetrics \<Rightarrow> perf_summary" where
  "perf_summarize m =
     \<lparr>monotonic_events_completed = pm_last_event_count m,
      total_events_completed = sz_sub (pm_last_event_count m) (pm_start_event_count m),
      latest_events_completed = sz_sub (pm_last_event_count m) (pm_prev_event_count m),
      total_uptime = pm_last_time m - pm_start_time m, latest_uptime = pm_last_time m - pm_prev_time m,
      summary_thread_count = pm_thread_count m\<rparr>"

section \<open>A run of the topology\<close>

text \<open>The measurements of one run: a reading of the clock and the number of events completed so far.\<close>

fun perf_splits :: "(int \<times> nat) list \<Rightarrow> JPerfMetrics \<Rightarrow> JPerfMetrics" where
  "perf_splits [] m = m"
| "perf_splits ((now, n) # ss) m = perf_splits ss (perf_split now n m)"

lemma perf_splits_append: "perf_splits (ss @ ts) m = perf_splits ts (perf_splits ss m)"
  by (induction ss m rule: perf_splits.induct) simp_all

lemma perf_splits_keep:
  "pm_mode (perf_splits ss m) = pm_mode m \<and> pm_start_event_count (perf_splits ss m) = pm_start_event_count m
    \<and> pm_start_time (perf_splits ss m) = pm_start_time m \<and> pm_thread_count (perf_splits ss m) = pm_thread_count m"
  by (induction ss m rule: perf_splits.induct) (simp_all add: perf_split_def)

text \<open>
  A run is measured from where the previous one ended.  Let a stopwatch on which \<open>n0\<close> events had been recorded
  be reset, started, split at least twice, the last two times with counts \<open>n1\<close> and \<open>n2\<close> where
  \<open>n0 \<le> n1 \<le> n2\<close>, and stopped.  The summary then reports the events and the time of this run, its thread count, and
  as latest figures the events between the last two measurements and the time since the last one.
\<close>

theorem perf_run_measured:
  assumes "pm_last_event_count m = n0" and "perf_start t0 nthreads (perf_reset tr m) = Inr m1"
    and "m2 = perf_stop t2 (perf_splits (ss @ [(t1, n1), (t1', n2)]) m1)"
    and "n0 \<le> n1" and "n1 \<le> n2" and "n2 < size_mod"
  shows "perf_summarize m2 = \<lparr>monotonic_events_completed = n2, total_events_completed = n2 - n0,
    latest_events_completed = n2 - n1, total_uptime = t2 - t0, latest_uptime = t2 - t1', summary_thread_count = nthreads\<rparr>"
proof -
  from assms(2) have m1: "pm_mode m1 = PerfTicking" "pm_start_event_count m1 = n0" "pm_start_time m1 = t0" "pm_thread_count m1 = nthreads"
    using assms(1) by (auto simp: perf_start_def perf_reset_def)
  have "sz_sub n2 n0 = n2 - n0" "sz_sub n2 n1 = n2 - n1" using assms(4-6) by (simp_all add: sz_sub_exact)
  then show ?thesis
    using perf_splits_keep [of ss m1] m1 unfolding assms(3)
    by (simp add: perf_splits_append perf_split_def perf_stop_def perf_summarize_def)
qed

theorem perf_run_measured_witness:
  "\<exists>m1. perf_start 10 4 (perf_reset 9 ((new_JPerfMetrics 0 0 0)\<lparr>pm_last_event_count := 100\<rparr>)) = Inr m1
    \<and> total_events_completed (perf_summarize (perf_stop 40 (perf_splits [(20, 150), (30, 180)] m1))) = 80"
proof -
  obtain m1 where m1: "perf_start 10 4 (perf_reset 9 ((new_JPerfMetrics 0 0 0)\<lparr>pm_last_event_count := 100\<rparr>)) = Inr m1"
    by (simp add: perf_start_def perf_reset_def)
  from perf_run_measured [OF _ m1 refl, where ss = "[]" and ?n1.0 = 150 and ?n2.0 = 180 and ?t1.0 = 20 and t1' = 30 and ?t2.0 = 40 and ?n0.0 = 100] m1
  show ?thesis by (simp add: size_mod_def)
qed

text \<open>
  A reset spoils the next measurement.  On a stopwatch on which \<open>n0\<close> events had been recorded, the first
  measurement \<open>n\<close> of a new run reports the \<open>n - n0\<close> events of the run in total, but all \<open>n\<close> as the latest ones.  If the
  stopwatch is reset once more before a measurement, the new run is measured from 0, and all \<open>n\<close> events are
  reported as its total too.
\<close>

theorem perf_double_reset:
  assumes "pm_last_event_count m = n0" and "n0 \<le> n" and "n < size_mod"
    and "perf_start t nthreads (perf_reset t0 m) = Inr m1" and "perf_start t nthreads (perf_reset t1 (perf_reset t0 m)) = Inr m2"
  shows "total_events_completed (perf_summarize (perf_split t2 n m1)) = n - n0
    \<and> latest_events_completed (perf_summarize (perf_split t2 n m1)) = n
    \<and> pm_start_event_count m2 = 0 \<and> total_events_completed (perf_summarize (perf_split t2 n m2)) = n"
proof -
  have "sz_sub n 0 = n" "sz_sub n n0 = n - n0" using assms(2,3) by (simp_all add: sz_sub_exact)
  then show ?thesis using assms(1,4,5) by (auto simp: perf_start_def perf_reset_def perf_split_def perf_summarize_def)
qed

theorem perf_double_reset_witness:
  "\<exists>m1 m2. perf_start 10 4 (perf_reset 8 ((new_JPerfMetrics 0 0 0)\<lparr>pm_last_event_count := 100\<rparr>)) = Inr m1
    \<and> perf_start 10 4 (perf_reset 9 (perf_reset 8 ((new_JPerfMetrics 0 0 0)\<lparr>pm_last_event_count := 100\<rparr>))) = Inr m2
    \<and> latest_events_completed (perf_summarize (perf_split 20 150 m1)) = 150
    \<and> total_events_completed (perf_summarize (perf_split 20 150 m2)) = 150"
proof -
  let ?m = "(new_JPerfMetrics 0 0 0)\<lparr>pm_last_event_count := 100\<rparr>"
  obtain m1 where m1: "perf_start 10 4 (perf_reset 8 ?m) = Inr m1" by (simp add: perf_start_def perf_reset_def)
  obtain m2 where m2: "perf_start 10 4 (perf_reset 9 (perf_reset 8 ?m)) = Inr m2" by (simp add: perf_start_def perf_reset_def)
  have "(150::nat) < size_mod" by (simp add: size_mod_def)
  with perf_double_reset [OF refl _ this m1 m2, of 20] m1 m2 show ?thesis by simp
qed

section \<open>The stopwatch of the scheduler\<close>

text \<open>
  A log of the stopwatch: the calls of the scheduler, and measurements in between, with the readings of the clock.
  The number of threads is an \<open>int\<close> for the scheduler and a \<open>size_t\<close> for the stopwatch.
\<close>

fun perf_call :: "int \<Rightarrow> sched_call \<Rightarrow> JPerfMetrics \<Rightarrow> JPerfMetrics result" where
  "perf_call now MetricsReset m = Inr (perf_reset now m)"
| "perf_call now (MetricsStart n) m = perf_start now (nat (n mod int size_mod)) m"
| "perf_call now MetricsStop m = Inr (perf_stop now m)"
| "perf_call now (InitializeArrow a) m = Inr m"
| "perf_call now (FinalizeArrow a) m = Inr m"

fun perf_log :: "(int \<times> (sched_call + nat)) list \<Rightarrow> JPerfMetrics \<Rightarrow> JPerfMetrics result" where
  "perf_log [] m = Inr m"
| "perf_log ((now, Inl c) # log) m = rbind (perf_call now c m) (perf_log log)"
| "perf_log ((now, Inr n) # log) m = perf_log log (perf_split now n m)"

fun logged_calls :: "(int \<times> (sched_call + nat)) list \<Rightarrow> sched_call list" where
  "logged_calls [] = []"
| "logged_calls ((now, Inl c) # log) = c # logged_calls log"
| "logged_calls ((now, Inr n) # log) = logged_calls log"

text \<open>The mode alone, and the calls that matter for it.\<close>

fun mode_after :: "sched_call list \<Rightarrow> PerfMode \<Rightarrow> PerfMode option" where
  "mode_after [] md = Some md"
| "mode_after (MetricsReset # cs) md = mode_after cs PerfReset"
| "mode_after (MetricsStart n # cs) md = (if md = PerfReset then mode_after cs PerfTicking else None)"
| "mode_after (MetricsStop # cs) md = mode_after cs (if md = PerfTicking then PerfStopped else md)"
| "mode_after (InitializeArrow a # cs) md = mode_after cs md"
| "mode_after (FinalizeArrow a # cs) md = mode_after cs md"

lemma mode_after_append: "mode_after (cs @ ds) md = Option.bind (mode_after cs md) (mode_after ds)"
  by (induction cs md rule: mode_after.induct) simp_all

lemma perf_log_mode:
  "mode_after (logged_calls log) (pm_mode m) = Some md \<Longrightarrow> \<exists>m'. perf_log log m = Inr m' \<and> pm_mode m' = md"
proof (induction log m rule: perf_log.induct)
  case (2 now c log m)
  then show ?case
    by (cases c) (auto simp: perf_reset_def perf_start_def perf_stop_def split: if_splits)
next
  case (3 now n log m)
  have "pm_mode (perf_split now n m) = pm_mode m" by (simp add: perf_split_def)
  with 3 show ?case by simp
qed simp

definition watched :: "sched_call \<Rightarrow> bool" where
  "watched c \<longleftrightarrow> (case c of InitializeArrow a \<Rightarrow> False | FinalizeArrow a \<Rightarrow> False | _ \<Rightarrow> True)"

lemma mode_after_watched: "mode_after (filter watched cs) md = mode_after cs md"
  by (induction cs md rule: mode_after.induct) (simp_all add: watched_def)

definition watch_state :: "JScheduler \<Rightarrow> sched_call list \<times> TopologyStatus" where
  "watch_state s = (filter watched (sc_calls s), topology_status s)"

lemma stage_simps [simp]:
  "watch_state (upd_state i f s) = watch_state s" "watch_state (add_upstream n i s) = watch_state s" "watch_state (add_threads n i s) = watch_state s"
  "watch_state (set_arrow_status st i s) = watch_state s" "watch_state (add_active n s) = watch_state s" "watch_state (s\<lparr>next_arrow_index := k\<rparr>) = watch_state s"
  "watch_state (sched_log (InitializeArrow a) s) = watch_state s" "watch_state (sched_log (FinalizeArrow a) s) = watch_state s"
  by (simp_all add: watch_state_def upd_defs upd_state_def add_active_def sched_log_def watched_def)

lemma stage_status: "watch_state (s\<lparr>topology_status := ts\<rparr>) = (fst (watch_state s), ts)"
  by (simp add: watch_state_def)

lemma stage_fold: "(\<And>x s. watch_state (f x s) = watch_state s) \<Longrightarrow> watch_state (fold f xs s) = watch_state s"
  by (induction xs arbitrary: s) simp_all

lemma stage_run_arrow:
  "run_arrow fuel i s = Some s' \<Longrightarrow> watch_state s' = watch_state s" "run_downstream fuel ds s = Some s' \<Longrightarrow> watch_state s' = watch_state s"
  by (induction fuel i s and fuel ds s arbitrary: s' and s' rule: run_arrow_run_downstream.induct) (auto split: option.splits)

lemma stage_run_sources: "run_sources A fuel is s = Some s' \<Longrightarrow> watch_state s' = watch_state s"
  by (induction A fuel "is" s rule: run_sources.induct) (auto split: if_splits option.splits dest: stage_run_arrow(1))

lemma stage_pause_arrow [simp]: "watch_state (pause_arrow i s) = watch_state s"
  by (simp add: pause_arrow_def stage_fold)

lemma stage_drain_sources [simp]: "watch_state (drain_sources A is s) = watch_state s"
  by (induction A "is" s rule: drain_sources.induct) simp_all

lemma stage_settle [simp]: "watch_state (settle A pending a r i s) = watch_state s"
  by (simp add: settle_def deactivate_def Let_def stage_fold)

lemma stage_checkout_loop: "checkout_loop A k i s = Inr (s', a) \<Longrightarrow> watch_state s' = watch_state s"
  by (induction A k i s rule: checkout_loop.induct) (auto simp: Let_def split: if_splits)

text \<open>The stopwatch has not thrown, and it is ticking while the topology runs or is about to pause.\<close>

definition on_time :: "sched_call list \<times> TopologyStatus \<Rightarrow> bool" where
  "on_time cs \<longleftrightarrow> (\<exists>md. mode_after (fst cs) PerfReset = Some md \<and> (snd cs = TRunning \<or> snd cs = TPausing \<longrightarrow> md = PerfTicking))"

lemma on_time_achieve: "on_time (watch_state s) \<Longrightarrow> on_time (watch_state (achieve_topology_pause s))"
  by (auto simp: achieve_topology_pause_def on_time_def watch_state_def sched_log_def watched_def mode_after_append)

lemma on_time_run: "run_topology A fuel n s = Inr (Some s') \<Longrightarrow> on_time (watch_state s) \<Longrightarrow> on_time (watch_state s')"
proof -
  assume r: "run_topology A fuel n s = Inr (Some s')" and s: "on_time (watch_state s)"
  show ?thesis
  proof (cases "topology_status s = TRunning \<or> topology_status s = TFinalized")
    case False
    with r obtain s1 where "run_sources A fuel [0 ..< length (arrow_states s)] s = Some s1"
      and s': "s' = (sched_log (MetricsStart n) (sched_log MetricsReset s1))\<lparr>topology_status := TRunning\<rparr>"
      by (auto simp: run_topology_def split: if_splits)
    then have "watch_state s1 = watch_state s" by (simp add: stage_run_sources)
    with s show ?thesis by (auto simp: s' on_time_def watch_state_def sched_log_def watched_def mode_after_append)
  qed (use r s in \<open>auto simp: run_topology_def\<close>)
qed

lemma on_time_last: "last_assignment A pending h r s = Inr s' \<Longrightarrow> on_time (watch_state s) \<Longrightarrow> on_time (watch_state s')"
  by (auto simp: last_assignment_def checkin_def Let_def on_time_achieve elim!: rbind_InrE split: option.splits if_splits)

lemma on_time_next:
  assumes "next_assignment A pending h r s = Inr (s', a)" and "on_time (watch_state s)"
  shows "on_time (watch_state s')"
proof -
  from assms(1) obtain x where "last_assignment A pending h r s = Inr x" and "checkout_loop A (length (sc_arrows x)) (next_arrow_index x) x = Inr (s', a)"
    by (auto simp: next_assignment_def checkout_unprotected_def elim!: rbind_InrE)
  with on_time_last [OF this(1) assms(2)] stage_checkout_loop [OF this(2)] show ?thesis by simp
qed

lemma stage_methods:
  "watch_state (request_topology_pause s) = (fst (watch_state s), if topology_status s = TRunning then TPausing else topology_status s)"
  "watch_state (drain_topology A s) = (fst (watch_state s), if topology_status s = TFinalized then TFinalized else TDraining)"
  "watch_state (finish_topology s) = (fst (watch_state s), TFinalized)" "watch_state (fst (checkout A i s)) = watch_state s"
  "initialize_topology s = Inr s' \<Longrightarrow> watch_state s' = (fst (watch_state s), TPaused)"
  by (auto simp: request_topology_pause_def drain_topology_def finish_topology_def checkout_def initialize_topology_def
      stage_status stage_fold Let_def split: if_splits) (simp_all add: watch_state_def)

lemma on_time_step: "sched_step A fuel restart (s, held) (s', held') \<Longrightarrow> on_time (watch_state s) \<Longrightarrow> on_time (watch_state s')"
proof (erule sched_step.cases, goal_cases)
  case (3 held w i s s' a)
  then show ?case using stage_methods(4) [of A i s] by simp
qed (auto dest: on_time_last on_time_next on_time_run on_time_achieve simp: stage_methods, (auto simp: on_time_def watch_state_def)+)

lemma on_time_reachable: "sched_reachable A fuel restart arrows c \<Longrightarrow> on_time (watch_state (fst c))"
proof (induction rule: sched_reachable.induct)
  case sched_start
  show ?case by (simp add: on_time_def watch_state_def new_JScheduler_def)
next
  case (sched_more c c')
  then show ?case using on_time_step [of A fuel restart "fst c" "snd c" "fst c'" "snd c'"] by simp
qed

text \<open>
  C35: the scheduler uses its stopwatch properly.  Under any interleaving of all the methods of the scheduler, with
  measurements at any time, \<open>start\<close> never throws, and the stopwatch is ticking whenever the topology is running or
  about to pause.
\<close>

theorem stopwatch_in_step:
  assumes "sched_reachable A fuel restart arrows (s, held)" and "logged_calls log = sc_calls s"
  shows "\<exists>m. perf_log log (new_JPerfMetrics t0 t1 t2) = Inr m
    \<and> (topology_status s = TRunning \<or> topology_status s = TPausing \<longrightarrow> pm_mode m = PerfTicking)"
proof -
  from on_time_reachable [OF assms(1)] obtain md where md: "mode_after (sc_calls s) PerfReset = Some md"
    and run: "topology_status s = TRunning \<or> topology_status s = TPausing \<longrightarrow> md = PerfTicking"
    by (auto simp: on_time_def watch_state_def mode_after_watched)
  from perf_log_mode [of log "new_JPerfMetrics t0 t1 t2" md] md assms(2) run show ?thesis by (auto simp: new_JPerfMetrics_def)
qed

section \<open>Measuring a running topology\<close>

fun measure_workers :: "JWorker list \<Rightarrow> (nat \<Rightarrow> JArrowMetrics) \<Rightarrow> JWorker list \<times> (nat \<Rightarrow> JArrowMetrics)" where
  "measure_workers [] M = ([], M)"
| "measure_workers (w # ws) M =
     (let (w', M1) = measure_perf w M; (ws', M2) = measure_workers ws M1 in (w' # ws', M2))"

fun monotonic_event_count :: "(nat \<Rightarrow> JArrow) \<Rightarrow> nat list \<Rightarrow> (nat \<Rightarrow> JArrowMetrics) \<Rightarrow> nat \<Rightarrow> nat" where
  "monotonic_event_count A [] M n = n"
| "monotonic_event_count A (a # arrows) M n =
     monotonic_event_count A arrows M (if m_is_sink (A a) then sz_add n (get_total_message_count (M a)) else n)"

definition measure_performance ::
    "(nat \<Rightarrow> JArrow) \<Rightarrow> nat list \<Rightarrow> int \<Rightarrow> JArrowProcessingController \<Rightarrow> JPerfMetrics
     \<Rightarrow> JArrowProcessingController \<times> JPerfMetrics \<times> perf_summary" where
  "measure_performance A arrows now c m =
     (let (ws, M) = measure_workers (en_workers c) (en_metrics c);
          m' = perf_split now (monotonic_event_count A arrows M 0) m in
      (c\<lparr>en_workers := ws, en_metrics := M\<rparr>, m', perf_summarize m'))"

text \<open>What the sinks have published, and what workers at a sink have not published yet.\<close>

definition published :: "(nat \<Rightarrow> JArrow) \<Rightarrow> nat list \<Rightarrow> (nat \<Rightarrow> JArrowMetrics) \<Rightarrow> nat" where
  "published A arrows M = (\<Sum>a\<leftarrow>arrows. if m_is_sink (A a) then m_total_message_count (M a) else 0)"

definition unpublished :: "(nat \<Rightarrow> JArrow) \<Rightarrow> nat list \<Rightarrow> JWorker \<Rightarrow> nat" where
  "unpublished A arrows w = (case wk_assignment w of
     None \<Rightarrow> 0 | Some a \<Rightarrow> if a \<in> set arrows \<and> m_is_sink (A a) then m_total_message_count (wk_arrow_metrics w) else 0)"

lemma monotonic_event_count_published: "monotonic_event_count A arrows M n mod size_mod = (n + published A arrows M) mod size_mod"
proof (induction arrows arbitrary: n)
  case (Cons a arrows)
  then show ?case by (simp add: published_def get_total_message_count_def sz_add_def mod_simps ac_simps)
qed (simp add: published_def)

lemma monotonic_event_count_bound: "n < size_mod \<Longrightarrow> monotonic_event_count A arrows M n < size_mod"
  by (induction arrows arbitrary: n) (simp_all add: sz_add_def size_mod_def)

lemma monotonic_event_count_total: "monotonic_event_count A arrows M 0 = published A arrows M mod size_mod"
  using monotonic_event_count_published [of A arrows M 0] monotonic_event_count_bound [of 0 A arrows M]
  by (simp add: size_mod_def)

lemma published_upd:
  assumes "distinct arrows"
  shows "published A arrows (M(a := x)) + (if a \<in> set arrows \<and> m_is_sink (A a) then m_total_message_count (M a) else 0)
    = published A arrows M + (if a \<in> set arrows \<and> m_is_sink (A a) then m_total_message_count x else 0)"
  using assms
proof (induction arrows)
  case (Cons b arrows)
  then show ?case by (cases "a = b") (auto simp: published_def)
qed (simp add: published_def)

lemma mod_cancel_right: "(a + c) mod n = (b + c) mod n \<Longrightarrow> a mod n = b mod (n :: nat)"
  by (auto simp: nat_mod_eq_iff)

lemma measure_perf_moves:
  assumes "measure_perf w M = (w', M')" and "distinct arrows"
  shows "published A arrows M' mod size_mod = (published A arrows M + unpublished A arrows w) mod size_mod"
    and "wk_assignment w' = wk_assignment w" and "m_total_message_count (wk_arrow_metrics w') = 0"
proof -
  let ?k = "m_total_message_count (wk_arrow_metrics w)"
  show "wk_assignment w' = wk_assignment w" "m_total_message_count (wk_arrow_metrics w') = 0"
    using assms(1) by (auto simp: measure_perf_def JArrowMetrics_take_def Let_def)
  show "published A arrows M' mod size_mod = (published A arrows M + unpublished A arrows w) mod size_mod"
  proof (cases "wk_assignment w")
    case None
    then show ?thesis using assms(1) by (auto simp: measure_perf_def unpublished_def split: prod.splits)
  next
    case (Some a)
    then obtain x where M': "M' = M(a := x)" and x: "m_total_message_count x = (m_total_message_count (M a) + ?k) mod size_mod"
      using assms(1) by (auto simp: measure_perf_def JArrowMetrics_take_def JArrowMetrics_update_from_def blank_metrics_def
          sz_add_def Let_def mod_simps)
    show ?thesis
    proof (cases "a \<in> set arrows \<and> m_is_sink (A a)")
      case True
      have "(published A arrows M' + m_total_message_count (M a)) mod size_mod
          = (published A arrows M + ?k + m_total_message_count (M a)) mod size_mod"
        using published_upd [OF assms(2), of A M a x] True M' x by (simp add: mod_simps ac_simps)
      from mod_cancel_right [OF this] True Some show ?thesis by (simp add: unpublished_def)
    next
      case False
      with published_upd [OF assms(2), of A M a x] M' Some show ?thesis by (auto simp: unpublished_def)
    qed
  qed
qed

lemma measure_workers_move:
  assumes "measure_workers ws M = (ws', M')" and "distinct arrows"
  shows "published A arrows M' mod size_mod = (published A arrows M + (\<Sum>w\<leftarrow>ws. unpublished A arrows w)) mod size_mod
    \<and> (\<forall>w\<in>set ws'. m_total_message_count (wk_arrow_metrics w) = 0) \<and> map wk_assignment ws' = map wk_assignment ws"
  using assms(1)
proof (induction ws arbitrary: M ws')
  case (Cons w ws)
  from Cons.prems obtain w1 M1 ws1 where w1: "measure_perf w M = (w1, M1)" and ws1: "measure_workers ws M1 = (ws1, M')"
    and ws': "ws' = w1 # ws1" by (auto split: prod.splits)
  note one = measure_perf_moves [OF w1 assms(2)] and rest = Cons.IH [OF ws1]
  have "published A arrows M' mod size_mod = (published A arrows M1 mod size_mod + (\<Sum>w\<leftarrow>ws. unpublished A arrows w)) mod size_mod"
    using rest by (simp add: mod_simps)
  also have "\<dots> = (published A arrows M + (\<Sum>w\<leftarrow>w # ws. unpublished A arrows w)) mod size_mod"
    unfolding one(1) [of A] by (simp add: mod_simps ac_simps)
  finally show ?case using rest one(2,3) ws' by simp
qed simp

lemma unpublished_sum_0: "\<forall>w\<in>set ws. m_total_message_count (wk_arrow_metrics w) = 0 \<Longrightarrow> (\<Sum>w\<leftarrow>ws. unpublished A arrows w) = 0"
  by (induction ws) (auto simp: unpublished_def split: option.splits)

text \<open>
  C33: a measurement counts every event once.  It reports, modulo \<open>2 ^ 64\<close>, what the sinks of the topology have
  published together with what the workers assigned to a sink have collected since.  Afterwards the workers hold no
  uncounted events, and a second measurement right after it reports the same number, and on a ticking stopwatch
  no new events.
\<close>

theorem measurement_counts_once:
  assumes "distinct arrows" and "measure_performance A arrows now c m = (c', m', summary)"
    and "measure_performance A arrows now' c' m' = (c'', m'', summary')"
  shows "monotonic_events_completed summary
      = (published A arrows (en_metrics c) + (\<Sum>w\<leftarrow>en_workers c. unpublished A arrows w)) mod size_mod
    \<and> (\<Sum>w\<leftarrow>en_workers c'. unpublished A arrows w) = 0
    \<and> monotonic_events_completed summary' = monotonic_events_completed summary
    \<and> (pm_mode m = PerfTicking \<longrightarrow> latest_events_completed summary' = 0)"
proof -
  obtain ws M where mw: "measure_workers (en_workers c) (en_metrics c) = (ws, M)" by fastforce
  obtain ws' M' where mw': "measure_workers ws M = (ws', M')" by fastforce
  let ?n = "published A arrows M mod size_mod"
  note first = measure_workers_move [OF mw assms(1), of A] and second = measure_workers_move [OF mw' assms(1), of A]
  have zero: "(\<Sum>w\<leftarrow>ws. unpublished A arrows w) = 0" using first by (simp add: unpublished_sum_0)
  have m': "c' = c\<lparr>en_workers := ws, en_metrics := M\<rparr>" "m' = perf_split now ?n m" "summary = perf_summarize m'"
    using assms(2) mw by (auto simp: measure_performance_def monotonic_event_count_total Let_def)
  have same: "published A arrows M' mod size_mod = ?n" using second zero by simp
  have m'': "summary' = perf_summarize (perf_split now' ?n m')"
    using assms(3) mw' by (auto simp: m'(1) measure_performance_def monotonic_event_count_total same Let_def)
  have "sz_sub ?n ?n = 0" by (simp add: sz_sub_exact size_mod_def)
  with first zero show ?thesis by (auto simp: m'' m' perf_split_def perf_summarize_def)
qed

section \<open>Samples\<close>

definition sample_measured :: JArrowProcessingController where
  "sample_measured = sample_busy\<lparr>en_workers := [sample_worker\<lparr>wk_assignment := Some 20,
     wk_arrow_metrics := blank_metrics\<lparr>m_total_message_count := 7\<rparr>\<rparr>]\<rparr>"

theorem measurement_counts_once_witness:
  "monotonic_events_completed (snd (snd (measure_performance chain_arrows [10, 20] 5 sample_measured (new_JPerfMetrics 0 0 0)))) = 7"
proof -
  obtain c' m' su where 1: "measure_performance chain_arrows [10, 20] 5 sample_measured (new_JPerfMetrics 0 0 0) = (c', m', su)"
    by (cases "measure_performance chain_arrows [10, 20] 5 sample_measured (new_JPerfMetrics 0 0 0)") auto
  obtain c'' m'' su' where 2: "measure_performance chain_arrows [10, 20] 6 c' m' = (c'', m'', su')"
    by (cases "measure_performance chain_arrows [10, 20] 6 c' m'") auto
  have "distinct [10, 20 :: nat]" by simp
  from measurement_counts_once [OF this 1 2] 1 show ?thesis
    by (simp add: published_def unpublished_def sample_measured_def sample_busy_def sample_engine_def blank_metrics_def
        chain_arrows_def sample_stage_def new_JArrow_def size_mod_def)
qed

theorem stopwatch_in_step_witness:
  "\<exists>m. perf_log (map (\<lambda>c. (0, Inl c)) (sc_calls (en_sched sample_busy))) (new_JPerfMetrics 0 0 0) = Inr m \<and> pm_mode m = PerfTicking"
proof -
  have "sched_reachable chain_arrows 2 (\<lambda>_. True) [10, 20] (en_sched sample_busy, holders sample_busy)"
    using engine_reachable_abs [OF sample_busy_reachable] by (simp add: engine_abs_def)
  from stopwatch_in_step [OF this, of "map (\<lambda>c. (0, Inl c)) (sc_calls (en_sched sample_busy))" 0 0 0]
  show ?thesis by (simp add: sample_busy_def sample_engine_def chain_state_def)
qed

end
