(* ===== verification/Codec.thy ===== *)
theory Codec
  imports OrdMap
begin

text \<open>
  How parameter values are written as strings and read back: \<open>Parse\<close> and \<open>Stringify\<close> of
  \<open>Services/JParameterManager.h\<close>, for strings, booleans, \<open>int\<close>, vectors and arrays.  Floating-point types are left out.
\<close>

section \<open>Characters and streams\<close>

definition isspace :: "char \<Rightarrow> bool" where
  "isspace c \<longleftrightarrow> of_char c = (32 :: nat) \<or> (9 \<le> (of_char c :: nat) \<and> of_char c \<le> (13 :: nat))"

definition isdigit :: "char \<Rightarrow> bool" where
  "isdigit c \<longleftrightarrow> 48 \<le> (of_char c :: nat) \<and> of_char c \<le> (57 :: nat)"

definition digit_value :: "char \<Rightarrow> nat" where
  "digit_value c = of_char c - 48"

definition digit :: "nat \<Rightarrow> char" where
  "digit n = char_of (48 + n)"

text \<open>\<open>getline\<close> with a delimiter on a string stream, until it extracts nothing.\<close>

function getlines :: "char \<Rightarrow> string \<Rightarrow> string list" where
  "getlines d [] = []"
| "getlines d (c # s) = takeWhile (\<lambda>x. x \<noteq> d) (c # s) # getlines d (drop 1 (dropWhile (\<lambda>x. x \<noteq> d) (c # s)))"
  by pat_completeness auto

termination getlines
proof (relation "measure (\<lambda>(d, s). length s)")
  fix d c and s :: string
  have "length (dropWhile (\<lambda>x. x \<noteq> d) s) \<le> length s" by (rule length_dropWhile_le)
  then show "((d, drop 1 (dropWhile (\<lambda>x. x \<noteq> d) (c # s))), d, c # s) \<in> measure (\<lambda>(d, s). length s)" by auto
qed simp

section \<open>Types that can be parameters\<close>

text \<open>
  \<open>cd_parse s out\<close> is \<open>Parse(s, out)\<close>, where \<open>None\<close> is a variable that has not been initialized;
  \<open>cd_show\<close> is \<open>Stringify\<close>, and \<open>cd_stream\<close> is the stream operator, which vectors use for their elements.
\<close>

record 'a codec =
  cd_parse :: "string \<Rightarrow> 'a option \<Rightarrow> 'a option result"
  cd_show :: "'a \<Rightarrow> string"
  cd_stream :: "'a \<Rightarrow> string"

definition string_codec :: "string codec" where
  "string_codec = \<lparr>cd_parse = (\<lambda>value out. Inr (Some value)), cd_show = (\<lambda>value. value), cd_stream = (\<lambda>value. value)\<rparr>"

definition parse_bool :: "string \<Rightarrow> bool option \<Rightarrow> bool option result" where
  "parse_bool value val =
     (if value = ''0'' \<or> value = ''false'' \<or> value = ''off'' then Inr (Some False)
      else if value = ''1'' \<or> value = ''true'' \<or> value = ''on'' then Inr (Some True)
      else Inl (JExc (CHR 0x27 # value @ CHR 0x27 # '' not parseable as bool'')))"

definition show_bool :: "bool \<Rightarrow> string" where
  "show_bool b = (if b then ''1'' else ''0'')"

definition bool_codec :: "bool codec" where
  "bool_codec = \<lparr>cd_parse = parse_bool, cd_show = show_bool, cd_stream = show_bool\<rparr>"

text \<open>
  \<open>int\<close> through the stream operators: leading white space, a sign and the longest run of digits; a number out
  of range gives the nearest value of the type, no digits give 0, and an exhausted stream leaves the variable alone.
\<close>

definition int_min :: int where
  "int_min = - (2 ^ 31)"

definition int_max :: int where
  "int_max = 2 ^ 31 - 1"

definition decimal :: "string \<Rightarrow> nat" where
  "decimal s = foldl (\<lambda>n c. 10 * n + digit_value c) 0 s"

definition read_int :: "string \<Rightarrow> int" where
  "read_int s =
     (case s of
        [] \<Rightarrow> 0
      | c # cs \<Rightarrow>
          if c = CHR ''-'' then - int (decimal (takeWhile isdigit cs))
          else if c = CHR ''+'' then int (decimal (takeWhile isdigit cs))
          else int (decimal (takeWhile isdigit s)))"

definition parse_int :: "string \<Rightarrow> int option \<Rightarrow> int option result" where
  "parse_int s out =
     (let field = dropWhile isspace s in
      if field = [] then Inr out else Inr (Some (max int_min (min int_max (read_int field)))))"

function show_nat :: "nat \<Rightarrow> string" where
  "show_nat n = (if n < 10 then [digit n] else show_nat (n div 10) @ [digit (n mod 10)])"
  by pat_completeness auto

termination show_nat
  by (relation "measure id") simp_all

declare show_nat.simps [simp del]

definition show_int :: "int \<Rightarrow> string" where
  "show_int i = (if i < 0 then CHR ''-'' # show_nat (nat (- i)) else show_nat (nat i))"

definition int_codec :: "int codec" where
  "int_codec = \<lparr>cd_parse = parse_int, cd_show = show_int, cd_stream = show_int\<rparr>"

section \<open>Vectors and arrays\<close>

text \<open>Reading a variable that \<open>Parse\<close> left uninitialized is undefined.\<close>

definition initialized :: "'a option \<Rightarrow> 'a result" where
  "initialized v = (case v of None \<Rightarrow> Inl (UndefinedBehaviour ''uninitialized value'') | Some x \<Rightarrow> Inr x)"

fun parse_fields :: "'a codec \<Rightarrow> string list \<Rightarrow> 'a list \<Rightarrow> 'a list result" where
  "parse_fields c [] val = Inr val"
| "parse_fields c (s # ss) val =
     rbind (cd_parse c s None) (\<lambda>t. rbind (initialized t) (\<lambda>x. parse_fields c ss (val @ [x])))"

definition parse_vector :: "'a codec \<Rightarrow> string \<Rightarrow> 'a list option \<Rightarrow> 'a list option result" where
  "parse_vector c value val = rbind (parse_fields c (getlines (CHR '','') value) []) (\<lambda>xs. Inr (Some xs))"

fun stringify_vector :: "'a codec \<Rightarrow> 'a list \<Rightarrow> string" where
  "stringify_vector c [] = ''''"
| "stringify_vector c [x] = cd_stream c x"
| "stringify_vector c (x # xs) = cd_stream c x @ '','' @ stringify_vector c xs"

definition vector_codec :: "'a codec \<Rightarrow> 'a list codec" where
  "vector_codec c = \<lparr>cd_parse = parse_vector c, cd_show = stringify_vector c, cd_stream = stringify_vector c\<rparr>"

text \<open>The elements of an array that have not been assigned are \<open>None\<close>; an index beyond the array is undefined.\<close>

fun parse_elements :: "'a codec \<Rightarrow> string list \<Rightarrow> nat \<Rightarrow> 'a option list \<Rightarrow> 'a option list result" where
  "parse_elements c [] indx val = Inr val"
| "parse_elements c (s # ss) indx val =
     rbind (cd_parse c s None) (\<lambda>t. rbind (initialized t) (\<lambda>x.
       if indx < length val then parse_elements c ss (Suc indx) (val[indx := Some x])
       else Inl (UndefinedBehaviour ''array index'')))"

definition parse_array :: "'a codec \<Rightarrow> string \<Rightarrow> 'a option list \<Rightarrow> 'a option list result" where
  "parse_array c value val = parse_elements c (getlines (CHR '','') value) 0 val"

definition stringify_array :: "'a codec \<Rightarrow> 'a list \<Rightarrow> string" where
  "stringify_array c values = stringify_vector c values"

section \<open>The contract of a parameter type\<close>

text \<open>Values that survive being written and read, and those that also survive inside a vector.\<close>

locale stringifiable =
  fixes c :: "'a codec" and good :: "'a \<Rightarrow> bool"
  assumes parse_show: "good v \<Longrightarrow> cd_parse c (cd_show c v) out = Inr (Some v)"

locale streamable =
  fixes c :: "'a codec" and good :: "'a \<Rightarrow> bool" and sure :: "'a \<Rightarrow> bool"
  assumes parse_stream: "good v \<Longrightarrow> cd_parse c (cd_stream c v) out = Inr (Some v)"
    and stream_comma: "good v \<Longrightarrow> CHR '','' \<notin> set (cd_stream c v)"
    and stream_nonempty: "good v \<Longrightarrow> sure v \<Longrightarrow> cd_stream c v \<noteq> []"

lemma getlines_last:
  assumes "s \<noteq> []" and "d \<notin> set s"
  shows "getlines d s = [s]"
proof -
  from assms(2) have t: "takeWhile (\<lambda>x. x \<noteq> d) s = s" "dropWhile (\<lambda>x. x \<noteq> d) s = []" by (auto simp: takeWhile_eq_all_conv)
  from assms(1) obtain a s' where "s = a # s'" by (cases s) auto
  with t show ?thesis by (metis drop_Nil getlines.simps)
qed

lemma getlines_more: "d \<notin> set s \<Longrightarrow> getlines d (s @ d # t) = s # getlines d t"
proof (cases s)
  case (Cons a s')
  assume "d \<notin> set s"
  then have "takeWhile (\<lambda>x. x \<noteq> d) (s @ d # t) = s" "dropWhile (\<lambda>x. x \<noteq> d) (s @ d # t) = d # t"
    by (auto simp: takeWhile_append dropWhile_append)
  with Cons show ?thesis by simp
qed simp

definition all_good :: "('a \<Rightarrow> bool) \<Rightarrow> ('a \<Rightarrow> bool) \<Rightarrow> 'a list \<Rightarrow> bool" where
  "all_good good sure vs \<longleftrightarrow> list_all good vs \<and> (vs \<noteq> [] \<longrightarrow> sure (last vs))"

context streamable
begin

lemma getlines_vector: "all_good good sure vs \<Longrightarrow> getlines (CHR '','') (stringify_vector c vs) = map (cd_stream c) vs"
proof (induction vs rule: induct_list012)
  case (2 x)
  then show ?case by (simp add: all_good_def getlines_last stream_comma stream_nonempty)
next
  case (3 x y zs)
  then show ?case by (simp add: all_good_def getlines_more stream_comma)
qed simp

lemma parse_fields_stream: "list_all good vs \<Longrightarrow> parse_fields c (map (cd_stream c) vs) xs = Inr (xs @ vs)"
  by (induction vs arbitrary: xs) (simp_all add: parse_stream initialized_def)

lemma parse_elements_stream:
  "list_all good vs \<Longrightarrow> n + length vs = length val \<Longrightarrow>
     parse_elements c (map (cd_stream c) vs) n val = Inr (take n val @ map Some vs)"
proof (induction vs arbitrary: n val)
  case (Cons v vs)
  then show ?case by (simp add: parse_stream initialized_def take_Suc_conv_app_nth)
qed simp

lemma array_roundtrip: "all_good good sure vs \<Longrightarrow> length val = length vs \<Longrightarrow> parse_array c (stringify_array c vs) val = Inr (map Some vs)"
  by (simp add: parse_array_def stringify_array_def getlines_vector parse_elements_stream all_good_def)

end

sublocale streamable \<subseteq> vec: stringifiable "vector_codec c" "all_good good sure"
proof
  fix vs out
  assume "all_good good sure vs"
  then show "cd_parse (vector_codec c) (cd_show (vector_codec c) vs) out = Inr (Some vs)"
    by (simp add: vector_codec_def parse_vector_def getlines_vector parse_fields_stream all_good_def)
qed

section \<open>Decimal numbers\<close>

lemma digit_code: "n < 10 \<Longrightarrow> (of_char (digit n) :: nat) = 48 + n"
  by (simp add: digit_def)

lemma digit_props: "n < 10 \<Longrightarrow> isdigit (digit n)" "n < 10 \<Longrightarrow> digit_value (digit n) = n"
  by (simp_all add: isdigit_def digit_value_def digit_code)

lemma show_nat_digits: "list_all isdigit (show_nat n) \<and> show_nat n \<noteq> []"
proof (induction n rule: show_nat.induct)
  case (1 n)
  then show ?case by (simp add: show_nat.simps [of n] digit_props)
qed

lemma decimal_append: "decimal (s @ [c]) = 10 * decimal s + digit_value c"
  by (simp add: decimal_def)

lemma decimal_show_nat: "decimal (show_nat n) = n"
proof (induction n rule: show_nat.induct)
  case (1 n)
  show ?case
  proof (cases "n < 10")
    case True
    then show ?thesis by (subst show_nat.simps) (simp add: decimal_def digit_props)
  next
    case False
    with 1 show ?thesis by (subst show_nat.simps) (simp add: decimal_append digit_props)
  qed
qed

lemma isdigit_not: "isdigit c \<Longrightarrow> \<not> isspace c \<and> c \<noteq> CHR ''-'' \<and> c \<noteq> CHR ''+'' \<and> c \<noteq> CHR '','' \<and> c \<noteq> CHR 0x23"
  by (auto simp: isdigit_def isspace_def)

lemma show_nat_chars: "CHR '','' \<notin> set (show_nat n)" "takeWhile isdigit (show_nat n) = show_nat n"
  using show_nat_digits [of n] isdigit_not by (auto simp: list_all_iff takeWhile_eq_all_conv)

lemma show_nat_head: "\<exists>a s. show_nat n = a # s \<and> isdigit a"
  using show_nat_digits [of n] by (cases "show_nat n") auto

lemma dropWhile_show_int: "dropWhile isspace (show_int i) = show_int i"
proof -
  obtain a s where "show_nat (nat i) = a # s" "isdigit a" using show_nat_head by blast
  then show ?thesis using isdigit_not [of a] by (auto simp: show_int_def isspace_def [of "CHR ''-''"])
qed

lemma read_show_int: "read_int (show_int i) = i"
proof (cases "i < 0")
  case True
  then show ?thesis by (simp add: show_int_def read_int_def show_nat_chars decimal_show_nat)
next
  case False
  obtain a s where as: "show_nat (nat i) = a # s" "isdigit a" using show_nat_head by blast
  have "read_int (show_nat (nat i)) = int (decimal (takeWhile isdigit (show_nat (nat i))))"
    using isdigit_not [OF as(2)] by (simp add: read_int_def as(1))
  with False show ?thesis by (simp add: show_int_def show_nat_chars decimal_show_nat)
qed

lemma show_int_chars: "CHR '','' \<notin> set (show_int i)" "show_int i \<noteq> []"
  using show_nat_digits by (auto simp: show_int_def show_nat_chars)

section \<open>The types of the library\<close>

definition int_range :: "int \<Rightarrow> bool" where
  "int_range i \<longleftrightarrow> int_min \<le> i \<and> i \<le> int_max"

lemma parse_show_int: "int_range i \<Longrightarrow> parse_int (show_int i) out = Inr (Some i)"
  by (simp add: parse_int_def dropWhile_show_int read_show_int show_int_chars int_range_def)

interpretation st: stringifiable string_codec "\<lambda>_. True"
  by unfold_locales (simp add: string_codec_def)

interpretation bl: stringifiable bool_codec "\<lambda>_. True"
  by unfold_locales (simp add: bool_codec_def parse_bool_def show_bool_def)

interpretation it: stringifiable int_codec int_range
  by unfold_locales (simp add: int_codec_def parse_show_int)

interpretation sv: streamable string_codec "\<lambda>s. CHR '','' \<notin> set s" "\<lambda>s. s \<noteq> []"
  by unfold_locales (simp_all add: string_codec_def)

interpretation bv: streamable bool_codec "\<lambda>_. True" "\<lambda>_. True"
  by unfold_locales (simp_all add: bool_codec_def parse_bool_def show_bool_def)

interpretation iv: streamable int_codec int_range "\<lambda>_. True"
  by unfold_locales (simp_all add: int_codec_def parse_show_int show_int_chars)

section \<open>Vectors of strings\<close>

lemma getlines_free: "x \<in> set (getlines d s) \<Longrightarrow> d \<notin> set x"
proof (induction d s rule: getlines.induct)
  case (2 d c s)
  then show ?case by (auto dest: set_takeWhileD)
qed simp

lemma getlines_strings: "getlines (CHR '','') (stringify_vector string_codec vs) = vs \<Longrightarrow> vs \<noteq> [] \<Longrightarrow> last vs \<noteq> []"
proof (induction vs rule: induct_list012)
  case (2 x)
  then show ?case by (auto simp: string_codec_def)
next
  case (3 x y zs)
  have "CHR '','' \<notin> set x" using getlines_free [of x "CHR '',''" "stringify_vector string_codec (x # y # zs)"] 3(3) by simp
  with 3(3) have "getlines (CHR '','') (stringify_vector string_codec (y # zs)) = y # zs"
    by (simp add: string_codec_def getlines_more)
  with 3(2) show ?case by simp
qed simp

lemma parse_fields_strings: "parse_fields string_codec ss xs = Inr (xs @ ss)"
  by (induction ss arbitrary: xs) (simp_all add: string_codec_def initialized_def)

text \<open>
  Which vectors of strings survive as a parameter.  Writing a vector of strings and reading it back gives the
  same vector exactly when no element contains a comma and the last element, if there is one, is not empty.
\<close>

theorem string_vector_roundtrip:
  "cd_parse (vector_codec string_codec) (cd_show (vector_codec string_codec) vs) out = Inr (Some vs)
    \<longleftrightarrow> \<not> list_ex (\<lambda>s. CHR '','' \<in> set s) vs \<and> \<not> (vs \<noteq> [] \<and> last vs = [])"
proof
  assume "cd_parse (vector_codec string_codec) (cd_show (vector_codec string_codec) vs) out = Inr (Some vs)"
  then have g: "getlines (CHR '','') (stringify_vector string_codec vs) = vs"
    by (simp add: vector_codec_def parse_vector_def parse_fields_strings)
  then have "CHR '','' \<notin> set s" if "s \<in> set vs" for s using getlines_free that by metis
  with getlines_strings [OF g] show "\<not> list_ex (\<lambda>s. CHR '','' \<in> set s) vs \<and> \<not> (vs \<noteq> [] \<and> last vs = [])"
    by (auto simp: list_ex_iff)
next
  assume "\<not> list_ex (\<lambda>s. CHR '','' \<in> set s) vs \<and> \<not> (vs \<noteq> [] \<and> last vs = [])"
  then have "all_good (\<lambda>s. CHR '','' \<notin> set s) (\<lambda>s. s \<noteq> []) vs" by (auto simp: all_good_def list_all_iff list_ex_iff)
  then show "cd_parse (vector_codec string_codec) (cd_show (vector_codec string_codec) vs) out = Inr (Some vs)"
    by (rule sv.vec.parse_show)
qed

text \<open>
  A list that is longer than the array it is read into is written past the end of the array; a shorter one
  leaves the rest of the array as it was.
\<close>

theorem int_array_fields:
  assumes "list_all int_range vs" and "vs \<noteq> []"
  shows "parse_array int_codec (stringify_vector int_codec vs) val
    = (if length vs \<le> length val then Inr (map Some vs @ drop (length vs) val)
       else Inl (UndefinedBehaviour ''array index''))"
proof -
  have "parse_elements int_codec (map (cd_stream int_codec) us) n val
      = (if n + length us \<le> length val then Inr (take n val @ map Some us @ drop (n + length us) val)
         else Inl (UndefinedBehaviour ''array index''))" if "list_all int_range us" "n \<le> length val" for us n
    using that
  proof (induction us arbitrary: n val)
    case (Cons u us)
    then show ?case
      by (simp add: iv.parse_stream initialized_def take_Suc_conv_app_nth)
  qed simp
  moreover have "all_good int_range (\<lambda>_. True) vs" using assms(1) by (simp add: all_good_def)
  ultimately show ?thesis using assms(1) by (simp add: parse_array_def iv.getlines_vector)
qed

theorem int_array_fields_witness:
  "parse_array int_codec ''1,2,3'' [None, None] = Inl (UndefinedBehaviour ''array index'')"
proof -
  have "stringify_vector int_codec [1, 2, 3] = ''1,2,3''"
    by code_simp
  with int_array_fields [of "[1, 2, 3]" "[None, None]"] show ?thesis by (simp add: int_range_def int_min_def int_max_def)
qed

end
