(* ===== verification/ParameterManager.thy ===== *)
theory ParameterManager
  imports Codec
begin

text \<open>
  Configuration parameters: \<open>Services/JParameterManager.h\<close> and \<open>.cc\<close>.  Methods return the manager next to their
  result, because an exception of \<open>Parse\<close> leaves what was changed before it in place.  A pointer to a parameter is the
  key of the map under which the manager owns it.  A method template takes the codec of its type.
\<close>

record JParameter =
  jp_name :: string
  jp_value :: string
  jp_default_value :: string
  jp_description :: string
  jp_has_default :: bool
  jp_is_default :: bool
  jp_is_deprecated :: bool
  jp_is_advanced :: bool
  jp_is_used :: bool

definition new_JParameter :: "string \<Rightarrow> string \<Rightarrow> string \<Rightarrow> string \<Rightarrow> bool \<Rightarrow> bool \<Rightarrow> JParameter" where
  "new_JParameter key value defaultValue description hasDefault isDefault =
     \<lparr>jp_name = key, jp_value = value, jp_default_value = defaultValue, jp_description = description,
      jp_has_default = hasDefault, jp_is_default = isDefault, jp_is_deprecated = False, jp_is_advanced = False, jp_is_used = False\<rparr>"

record JParameterManager =
  jpm_parameters :: "(string, JParameter) omap"
  jpm_strictness :: int
  jpm_verbosity :: int

definition new_JParameterManager :: JParameterManager where
  "new_JParameterManager = \<lparr>jpm_parameters = [], jpm_strictness = 1, jpm_verbosity = 1\<rparr>"

text \<open>The copy constructor copies the parameters one by one; the other two members get their initial values.\<close>

definition copy_JParameterManager :: "JParameterManager \<Rightarrow> JParameterManager" where
  "copy_JParameterManager other =
     new_JParameterManager\<lparr>jpm_parameters := fold (\<lambda>(k, p). om_put k p) (jpm_parameters other) []\<rparr>"

definition tolower :: "char \<Rightarrow> char" where
  "tolower c = (if 65 \<le> (of_char c :: nat) \<and> of_char c \<le> (90 :: nat) then char_of (of_char c + 32 :: nat) else c)"

definition ToLower :: "string \<Rightarrow> string" where
  "ToLower name = map tolower name"

definition Exists :: "string \<Rightarrow> JParameterManager \<Rightarrow> bool" where
  "Exists name m \<longleftrightarrow> om_find (ToLower name) (jpm_parameters m) \<noteq> None"

definition FindParameter :: "string \<Rightarrow> JParameterManager \<Rightarrow> JParameter ptr" where
  "FindParameter name m = om_find (ToLower name) (jpm_parameters m)"

definition put_parameter :: "string \<Rightarrow> JParameter \<Rightarrow> JParameterManager \<Rightarrow> JParameterManager" where
  "put_parameter key p m = m\<lparr>jpm_parameters := om_put key p (jpm_parameters m)\<rparr>"

text \<open>\<open>GetParameter\<close> marks the parameter as used after parsing its value, \<open>GetParameterValue\<close> before.\<close>

definition GetParameter ::
    "'a codec \<Rightarrow> string \<Rightarrow> 'a option \<Rightarrow> JParameterManager \<Rightarrow> JParameterManager \<times> (string ptr \<times> 'a option) result" where
  "GetParameter c name val m =
     (case om_find (ToLower name) (jpm_parameters m) of
        None \<Rightarrow> (m, Inr (nullptr, val))
      | Some p \<Rightarrow>
          (case cd_parse c (jp_value p) val of
             Inl e \<Rightarrow> (m, Inl e)
           | Inr val' \<Rightarrow> (put_parameter (ToLower name) (p\<lparr>jp_is_used := True\<rparr>) m, Inr (Some (ToLower name), val'))))"

definition GetParameterValue :: "'a codec \<Rightarrow> string \<Rightarrow> JParameterManager \<Rightarrow> JParameterManager \<times> 'a result" where
  "GetParameterValue c name m =
     (case om_find (ToLower name) (jpm_parameters m) of
        None \<Rightarrow> (m, Inl (JExc (''Unknown parameter '' @ CHR 0x22 # name @ [CHR 0x22])))
      | Some p \<Rightarrow>
          (put_parameter (ToLower name) (p\<lparr>jp_is_used := True\<rparr>) m,
           rbind (cd_parse c (jp_value p) None) initialized))"

definition SetParameter :: "'a codec \<Rightarrow> string \<Rightarrow> 'a \<Rightarrow> JParameterManager \<Rightarrow> JParameterManager" where
  "SetParameter c name val m =
     (case om_find (ToLower name) (jpm_parameters m) of
        None \<Rightarrow> put_parameter (ToLower name) (new_JParameter name (cd_show c val) '''' '''' False False) m
      | Some p \<Rightarrow> put_parameter (ToLower name) (p\<lparr>jp_value := cd_show c val, jp_is_default := False\<rparr>) m)"

text \<open>
  \<open>SetDefaultParameter\<close> in two parts: finding or creating the parameter, which also leaves a value in the local
  variable \<open>t\<close>, and the pass of the value through \<open>Parse\<close> at the end.  Warnings are left out.
\<close>

definition declare_default ::
    "'a codec \<Rightarrow> string \<Rightarrow> 'a \<Rightarrow> string \<Rightarrow> JParameter ptr \<Rightarrow> (JParameter \<times> 'a option) result" where
  "declare_default c name val description param =
     (case param of
        Some p \<Rightarrow>
          if \<not> jp_has_default p
          then Inr (p\<lparr>jp_has_default := True, jp_default_value := cd_show c val, jp_description := description\<rparr>, None)
          else
            rbind (cd_parse c (jp_default_value p) None) (\<lambda>t. rbind (initialized t) (\<lambda>d.
              Inr (if val \<noteq> d \<and> jp_is_default p then p\<lparr>jp_value := cd_show c val\<rparr> else p, Some d)))
      | None \<Rightarrow>
          let valstr = cd_show c val in
          rbind (cd_parse c valstr None) (\<lambda>t. rbind (initialized t) (\<lambda>d.
            Inr (new_JParameter name valstr valstr description True True, Some d))))"

definition SetDefaultParameter ::
    "'a codec \<Rightarrow> string \<Rightarrow> 'a \<Rightarrow> string \<Rightarrow> JParameterManager \<Rightarrow> JParameterManager \<times> 'a result" where
  "SetDefaultParameter c name val description m =
     (case declare_default c name val description (om_find (ToLower name) (jpm_parameters m)) of
        Inl e \<Rightarrow> (m, Inl e)
      | Inr (p, t) \<Rightarrow>
          (case rbind (cd_parse c (jp_value p) t) initialized of
             Inl e \<Rightarrow> (put_parameter (ToLower name) p m, Inl e)
           | Inr val' \<Rightarrow> (put_parameter (ToLower name) (p\<lparr>jp_is_used := True\<rparr>) m, Inr val')))"

definition RegisterParameter ::
    "'a codec \<Rightarrow> string \<Rightarrow> 'a \<Rightarrow> string \<Rightarrow> JParameterManager \<Rightarrow> JParameterManager \<times> 'a result" where
  "RegisterParameter c name default_val description m = SetDefaultParameter c name default_val description m"

text \<open>What clients do through the pointer that they get back.\<close>

definition mark_advanced :: "bool \<Rightarrow> string \<Rightarrow> JParameterManager \<Rightarrow> JParameterManager" where
  "mark_advanced b name m =
     (case FindParameter name m of None \<Rightarrow> m | Some p \<Rightarrow> put_parameter (ToLower name) (p\<lparr>jp_is_advanced := b\<rparr>) m)"

definition mark_deprecated :: "bool \<Rightarrow> string \<Rightarrow> JParameterManager \<Rightarrow> JParameterManager" where
  "mark_deprecated b name m =
     (case FindParameter name m of None \<Rightarrow> m | Some p \<Rightarrow> put_parameter (ToLower name) (p\<lparr>jp_is_deprecated := b\<rparr>) m)"

section \<open>Selecting parameters\<close>

fun filter_loop ::
    "string \<Rightarrow> (string, JParameter) omap \<Rightarrow> (string, string) omap \<Rightarrow> (string, JParameter) omap \<times> (string, string) omap" where
  "filter_loop flt [] parms = ([], parms)"
| "filter_loop flt ((k, p) # rest) parms =
     (if flt \<noteq> [] \<and> take (length flt) (jp_name p) \<noteq> flt
      then case filter_loop flt rest parms of (rest', parms') \<Rightarrow> ((k, p) # rest', parms')
      else case filter_loop flt rest (om_put (drop (length flt) (jp_name p)) (jp_value p) parms) of
             (rest', parms') \<Rightarrow> ((k, p\<lparr>jp_is_used := True\<rparr>) # rest', parms'))"

definition FilterParameters :: "string \<Rightarrow> JParameterManager \<Rightarrow> JParameterManager \<times> (string, string) omap" where
  "FilterParameters flt m =
     (case filter_loop flt (jpm_parameters m) [] of (ps, parms) \<Rightarrow> (m\<lparr>jpm_parameters := ps\<rparr>, parms))"

section \<open>The table of parameters\<close>

text \<open>
  What \<open>PrintParameters\<close> logs: nothing but a hint, one line, or a table, whose warnings column may be missing.
  The exception comes after the table.
\<close>

datatype param_report = TableHidden | AllDefault | ParamTable bool "(string \<times> string \<times> string \<times> string \<times> string) list"

definition unused_by_user :: "JParameter \<Rightarrow> bool" where
  "unused_by_user p \<longleftrightarrow> \<not> jp_is_default p \<and> \<not> jp_is_used p"

definition param_shown :: "int \<Rightarrow> JParameter \<Rightarrow> bool" where
  "param_shown verbosity p \<longleftrightarrow>
     \<not> (jp_is_deprecated p \<and> jp_is_default p)
     \<and> \<not> (verbosity = 1 \<and> jp_is_default p)
     \<and> \<not> (verbosity = 2 \<and> jp_is_default p \<and> jp_is_advanced p)"

definition param_warning :: "JParameter \<Rightarrow> string" where
  "param_warning p =
     (if jp_is_deprecated p then ''Deprecated'' else if \<not> jp_is_used p then ''Unused''
      else if jp_is_advanced p then ''Advanced'' else '''')"

definition print_parameters :: "int \<Rightarrow> int \<Rightarrow> JParameterManager \<Rightarrow> param_report \<times> unit result" where
  "print_parameters verbosity strictness m =
     (if verbosity = 0 then (TableHidden, Inr ())
      else
        let params = map snd (jpm_parameters m);
            strictness_violation = list_ex (\<lambda>p. strictness > 0 \<and> unused_by_user p) params;
            warnings_present = (verbosity = 3 \<or> strictness_violation \<or> list_ex (\<lambda>p. \<not> jp_is_default p \<and> jp_is_deprecated p) params);
            verbosity' = (if strictness_violation then 3 else verbosity);
            params_to_print = filter (param_shown verbosity') params in
        if params_to_print = [] then (AllDefault, Inr ())
        else
          (ParamTable warnings_present
             (map (\<lambda>p. (jp_name p, if warnings_present then param_warning p else '''', jp_value p, jp_default_value p, jp_description p))
                params_to_print),
           if strictness_violation \<and> strictness > 1
           then Inl (JExc ''Unrecognized parameters found! Throwing an exception because jana:parameter_strictness=2. See full parameters table in log.'')
           else Inr ()))"

definition print_parameters_flags :: "bool \<Rightarrow> bool \<Rightarrow> bool \<Rightarrow> JParameterManager \<Rightarrow> param_report \<times> unit result" where
  "print_parameters_flags show_defaulted show_advanced warn_on_unused m =
     print_parameters (if show_advanced then 3 else if show_defaulted then 2 else 1) (if warn_on_unused then 1 else 0) m"

definition verbosity_description :: string where
  "verbosity_description =
     ''0: Don'' @ CHR 0x27 # ''t show parameters table'' @ CHR 0x0A # ''1: Show user-provided parameters only''
     @ CHR 0x0A # ''2: Show defaulted parameters'' @ CHR 0x0A # ''3: Show defaulted advanced parameters''"

definition strictness_description :: string where
  "strictness_description =
     ''0: Ignore unused parameters'' @ CHR 0x0A # ''1: Warn on unused parameters'' @ CHR 0x0A # ''2: Throw on unused parameters''"

definition set_verbosity :: "JParameterManager \<times> int result \<Rightarrow> JParameterManager result" where
  "set_verbosity r = (case r of (m, v) \<Rightarrow> rbind v (\<lambda>i. Inr (m\<lparr>jpm_verbosity := i\<rparr>)))"

definition set_strictness :: "JParameterManager \<times> int result \<Rightarrow> JParameterManager result" where
  "set_strictness r = (case r of (m, v) \<Rightarrow> rbind v (\<lambda>i. Inr (m\<lparr>jpm_strictness := i\<rparr>)))"

definition PrintParameters :: "JParameterManager \<Rightarrow> (JParameterManager \<times> param_report) result" where
  "PrintParameters m =
     rbind (set_verbosity (SetDefaultParameter int_codec ''jana:parameter_verbosity'' (jpm_verbosity m) verbosity_description m)) (\<lambda>m1.
     rbind (set_strictness (SetDefaultParameter int_codec ''jana:parameter_strictness'' (jpm_strictness m1) strictness_description m1)) (\<lambda>m2.
       if jpm_verbosity m2 < 0 \<or> jpm_verbosity m2 > 3 then Inl (JExc ''jana:parameter_verbosity: Bad parameter value!'')
       else if jpm_strictness m2 < 0 \<or> jpm_strictness m2 > 2 then Inl (JExc ''jana:parameter_strictness: Bad parameter value!'')
       else case print_parameters (jpm_verbosity m2) (jpm_strictness m2) m2 of (report, r) \<Rightarrow> rbind r (\<lambda>_. Inr (m2, report))))"

section \<open>Well-formed managers\<close>

definition parameter_ok :: "string \<Rightarrow> JParameter \<Rightarrow> bool" where
  "parameter_ok key p \<longleftrightarrow> key = ToLower (jp_name p) \<and> (jp_is_default p \<longrightarrow> jp_has_default p)"

definition jpm_ok :: "JParameterManager \<Rightarrow> bool" where
  "jpm_ok m \<longleftrightarrow> om_ok (jpm_parameters m) \<and> list_all (\<lambda>(k, p). parameter_ok k p) (jpm_parameters m)"

lemma om_put_set: "set (om_put k v m) \<subseteq> insert (k, v) (set m)"
  by (induction k v m rule: om_put.induct) auto

lemma jpm_okD:
  assumes "jpm_ok m" and "om_find k (jpm_parameters m) = Some p"
  shows "parameter_ok k p"
  using assms om_find_in by (fastforce simp: jpm_ok_def list_all_iff)

lemma jpm_ok_new [simp]: "jpm_ok new_JParameterManager"
  by (simp add: jpm_ok_def new_JParameterManager_def)

lemma jpm_ok_put: "jpm_ok m \<Longrightarrow> parameter_ok k p \<Longrightarrow> jpm_ok (put_parameter k p m)"
  using om_put_set [of k p "jpm_parameters m"] by (auto simp: jpm_ok_def put_parameter_def om_ok_put list_all_iff)

lemma find_put: "jpm_ok m \<Longrightarrow> om_find k (jpm_parameters (put_parameter k' p m)) = (if k = k' then Some p else om_find k (jpm_parameters m))"
  by (simp add: put_parameter_def jpm_ok_def om_find_put_eq)

lemma parameter_ok_updates [simp]:
  "parameter_ok k (p\<lparr>jp_is_used := b\<rparr>) = parameter_ok k p" "parameter_ok k (p\<lparr>jp_is_advanced := b\<rparr>) = parameter_ok k p"
  "parameter_ok k (p\<lparr>jp_is_deprecated := b\<rparr>) = parameter_ok k p" "parameter_ok k (p\<lparr>jp_value := s\<rparr>) = parameter_ok k p"
  by (simp_all add: parameter_ok_def)

lemma parameter_ok_user: "parameter_ok k p \<Longrightarrow> parameter_ok k (p\<lparr>jp_value := s, jp_is_default := False\<rparr>)"
  by (simp add: parameter_ok_def)

lemma parameter_ok_new: "(d \<longrightarrow> h) \<Longrightarrow> parameter_ok (ToLower name) (new_JParameter name v dv descr h d)"
  by (simp add: parameter_ok_def new_JParameter_def)

lemma declare_default_ok:
  assumes "declare_default c name val descr param = Inr (p, t)" and "\<And>q. param = Some q \<Longrightarrow> parameter_ok (ToLower name) q"
  shows "parameter_ok (ToLower name) p"
proof (cases param)
  case None
  then show ?thesis using assms(1) by (auto simp: declare_default_def Let_def parameter_ok_new elim!: rbind_InrE)
next
  case (Some q)
  with assms(2) have "parameter_ok (ToLower name) q" .
  then show ?thesis using assms(1) Some
    by (auto simp: declare_default_def parameter_ok_def elim!: rbind_InrE split: if_splits)
qed

lemma SetParameter_ok: "jpm_ok m \<Longrightarrow> jpm_ok (SetParameter c name val m)"
  by (auto simp: SetParameter_def jpm_ok_put parameter_ok_new parameter_ok_user jpm_okD split: option.split)

lemma SetDefaultParameter_ok: "jpm_ok m \<Longrightarrow> jpm_ok (fst (SetDefaultParameter c name val descr m))"
proof -
  assume m: "jpm_ok m"
  show ?thesis
  proof (cases "declare_default c name val descr (om_find (ToLower name) (jpm_parameters m))")
    case (Inr pt)
    then obtain p t where pt: "declare_default c name val descr (om_find (ToLower name) (jpm_parameters m)) = Inr (p, t)" by (cases pt) auto
    then have "parameter_ok (ToLower name) p" by (rule declare_default_ok) (rule jpm_okD [OF m])
    then show ?thesis using m pt by (simp add: SetDefaultParameter_def jpm_ok_put split: sum.split)
  qed (simp add: SetDefaultParameter_def m)
qed

lemma filter_loop_keys: "filter_loop flt ps parms = (ps', parms') \<Longrightarrow>
    map fst ps' = map fst ps \<and> (list_all (\<lambda>(k, p). parameter_ok k p) ps \<longrightarrow> list_all (\<lambda>(k, p). parameter_ok k p) ps')"
  by (induction flt ps parms arbitrary: ps' rule: filter_loop.induct) (auto split: if_splits prod.splits)

lemma fold_put_find:
  "om_ok m \<Longrightarrow> distinct (map fst xs) \<Longrightarrow>
     om_find k (fold (\<lambda>(k, p). om_put k p) xs m) = (case om_find k xs of None \<Rightarrow> om_find k m | Some v \<Rightarrow> Some v)"
  by (induction xs arbitrary: m)
    (auto simp: om_ok_put om_find_put_eq [unfolded om_find_def] om_find_def split: option.splits dest: map_of_SomeD intro: rev_image_eqI)

lemma copy_parameters: "jpm_ok m \<Longrightarrow> FindParameter name (copy_JParameterManager m) = FindParameter name m"
  by (simp add: copy_JParameterManager_def FindParameter_def fold_put_find jpm_ok_def om_ok_distinct split: option.split)


section \<open>Names\<close>

lemma tolower_idem: "tolower (tolower c) = tolower c"
  by (simp add: tolower_def)

lemma ToLower_idem: "ToLower (ToLower s) = ToLower s"
  by (simp add: ToLower_def tolower_idem)

section \<open>Setting, declaring and getting\<close>

fun default_calls :: "'a codec \<Rightarrow> string \<Rightarrow> string \<Rightarrow> 'a list \<Rightarrow> JParameterManager \<Rightarrow> JParameterManager \<times> 'a result list" where
  "default_calls c name descr [] m = (m, [])"
| "default_calls c name descr (v # vs) m =
     (case SetDefaultParameter c name v descr m of (m1, r) \<Rightarrow>
      case default_calls c name descr vs m1 of (m2, rs) \<Rightarrow> (m2, r # rs))"

text \<open>What calls with the defaults \<open>vs\<close> return when the first default was \<open>d\<close> and the current value is \<open>u\<close>.\<close>

fun returned_defaults :: "'a \<Rightarrow> 'a \<Rightarrow> 'a list \<Rightarrow> 'a list" where
  "returned_defaults d u [] = []"
| "returned_defaults d u (v # vs) = (if v \<noteq> d then v # returned_defaults d v vs else u # returned_defaults d u vs)"

definition holds_default :: "'a codec \<Rightarrow> 'a \<Rightarrow> 'a \<Rightarrow> JParameter \<Rightarrow> bool" where
  "holds_default c d u p \<longleftrightarrow> jp_has_default p \<and> jp_is_default p \<and> jp_default_value p = cd_show c d \<and> jp_value p = cd_show c u"

definition holds_user :: "'a codec \<Rightarrow> ('a \<Rightarrow> bool) \<Rightarrow> 'a \<Rightarrow> JParameter \<Rightarrow> bool" where
  "holds_user c good u p \<longleftrightarrow> \<not> jp_is_default p \<and> jp_value p = cd_show c u
     \<and> (jp_has_default p \<longrightarrow> (\<exists>d. good d \<and> jp_default_value p = cd_show c d))"

context stringifiable
begin

lemma default_new:
  assumes "jpm_ok m" and "FindParameter name m = None" and "good v"
  shows "\<exists>m' p. SetDefaultParameter c name v descr m = (m', Inr v) \<and> jpm_ok m' \<and> FindParameter name m' = Some p
    \<and> holds_default c v v p \<and> jp_is_used p"
proof -
  let ?p = "new_JParameter name (cd_show c v) (cd_show c v) descr True True"
  have "SetDefaultParameter c name v descr m = (put_parameter (ToLower name) (?p\<lparr>jp_is_used := True\<rparr>) m, Inr v)"
    using assms(2,3) by (simp add: SetDefaultParameter_def FindParameter_def declare_default_def Let_def parse_show initialized_def
        new_JParameter_def)
  moreover have "jpm_ok (put_parameter (ToLower name) (?p\<lparr>jp_is_used := True\<rparr>) m)"
    using assms(1) by (simp add: jpm_ok_put parameter_ok_new)
  ultimately show ?thesis using assms(1) by (simp add: FindParameter_def find_put holds_default_def) (simp add: new_JParameter_def)
qed

lemma default_again:
  assumes "jpm_ok m" and "FindParameter name m = Some p" and "holds_default c d u p" and "good d" and "good u" and "good v"
  shows "\<exists>m' p'. SetDefaultParameter c name v descr m = (m', Inr (if v \<noteq> d then v else u)) \<and> jpm_ok m'
    \<and> FindParameter name m' = Some p' \<and> holds_default c d (if v \<noteq> d then v else u) p'"
proof -
  let ?p = "if v \<noteq> d then p\<lparr>jp_value := cd_show c v\<rparr> else p"
  have find: "om_find (ToLower name) (jpm_parameters m) = Some p" using assms(2) by (simp add: FindParameter_def)
  have "declare_default c name v descr (Some p) = Inr (?p, Some d)"
    using assms(3,4) by (simp add: declare_default_def holds_default_def parse_show initialized_def)
  then have "SetDefaultParameter c name v descr m = (put_parameter (ToLower name) (?p\<lparr>jp_is_used := True\<rparr>) m, Inr (if v \<noteq> d then v else u))"
    using assms(3,5,6) by (simp add: SetDefaultParameter_def find holds_default_def parse_show initialized_def)
  moreover have "jpm_ok (put_parameter (ToLower name) (?p\<lparr>jp_is_used := True\<rparr>) m)"
    using assms(1) jpm_okD [OF assms(1) find] by (simp add: jpm_ok_put)
  ultimately show ?thesis using assms(1,3) by (simp add: FindParameter_def find_put holds_default_def)
qed

lemma user_default:
  assumes "jpm_ok m" and "FindParameter name m = Some p" and "holds_user c good u p" and "good u" and "good v"
  shows "\<exists>m' p'. SetDefaultParameter c name v descr m = (m', Inr u) \<and> jpm_ok m'
    \<and> FindParameter name m' = Some p' \<and> holds_user c good u p' \<and> jp_is_used p' \<and> jp_has_default p'"
proof -
  have find: "om_find (ToLower name) (jpm_parameters m) = Some p" using assms(2) by (simp add: FindParameter_def)
  have "\<exists>q t. declare_default c name v descr (Some p) = Inr (q, t) \<and> holds_user c good u q \<and> jp_has_default q"
  proof (cases "jp_has_default p")
    case True
    with assms(3) obtain d where "good d" "jp_default_value p = cd_show c d" by (auto simp: holds_user_def)
    with True assms(3) show ?thesis by (simp add: declare_default_def parse_show initialized_def holds_user_def)
  next
    case False
    with assms(3,5) show ?thesis by (auto simp: declare_default_def holds_user_def)
  qed
  then obtain q t where q: "declare_default c name v descr (Some p) = Inr (q, t)" "holds_user c good u q" "jp_has_default q" by blast
  then have "SetDefaultParameter c name v descr m = (put_parameter (ToLower name) (q\<lparr>jp_is_used := True\<rparr>) m, Inr u)"
    using assms(4) by (simp add: SetDefaultParameter_def find holds_user_def parse_show initialized_def)
  moreover have "jpm_ok (put_parameter (ToLower name) (q\<lparr>jp_is_used := True\<rparr>) m)"
    using assms(1) declare_default_ok [OF q(1)] jpm_okD [OF assms(1) find] by (simp add: jpm_ok_put)
  ultimately show ?thesis using assms(1) q(2,3) by (simp add: FindParameter_def find_put holds_user_def)
qed

lemma default_calls_again:
  "jpm_ok m \<Longrightarrow> FindParameter name m = Some p \<Longrightarrow> holds_default c d u p \<Longrightarrow> good d \<Longrightarrow> good u \<Longrightarrow> list_all good vs \<Longrightarrow>
     snd (default_calls c name descr vs m) = map Inr (returned_defaults d u vs)"
proof (induction vs arbitrary: m p u)
  case (Cons v vs)
  then have v: "good v" "list_all good vs" by simp_all
  from default_again [OF Cons.prems(1-5) v(1), of descr] obtain m' p' where
    m': "SetDefaultParameter c name v descr m = (m', Inr (if v \<noteq> d then v else u))" "jpm_ok m'" "FindParameter name m' = Some p'"
    "holds_default c d (if v \<noteq> d then v else u) p'" by blast
  have "good (if v \<noteq> d then v else u)" using v Cons.prems(5) by simp
  from Cons.IH [OF m'(2-4) Cons.prems(4) this v(2)] m'(1) show ?case by (auto split: prod.splits)
qed simp

lemma default_calls_user:
  "jpm_ok m \<Longrightarrow> FindParameter name m = Some p \<Longrightarrow> holds_user c good u p \<Longrightarrow> good u \<Longrightarrow> list_all good vs \<Longrightarrow>
     snd (default_calls c name descr vs m) = replicate (length vs) (Inr u)"
proof (induction vs arbitrary: m p)
  case (Cons v vs)
  then have v: "good v" "list_all good vs" by simp_all
  from user_default [OF Cons.prems(1-4) v(1), of descr] obtain m' p' where
    m': "SetDefaultParameter c name v descr m = (m', Inr u)" "jpm_ok m'" "FindParameter name m' = Some p'" "holds_user c good u p'" by blast
  from Cons.IH [OF m'(2-4) Cons.prems(4) v(2)] m'(1) show ?case by (auto split: prod.splits)
qed simp

lemma default_calls_new:
  assumes "jpm_ok m" and "FindParameter name m = None" and "good v" and "list_all good vs"
  shows "snd (default_calls c name descr (v # vs) m) = map Inr (v # returned_defaults v v vs)"
proof -
  from default_new [OF assms(1-3), of descr] obtain m' p where
    "SetDefaultParameter c name v descr m = (m', Inr v)" "jpm_ok m'" "FindParameter name m' = Some p" "holds_default c v v p" by blast
  with default_calls_again [OF this(2-4) assms(3,3,4), of descr] show ?thesis by (auto split: prod.splits)
qed

lemma set_user:
  assumes "jpm_ok m" and "\<And>p. FindParameter name m = Some p \<Longrightarrow> jp_has_default p \<Longrightarrow> \<exists>d. good d \<and> jp_default_value p = cd_show c d"
    and "ToLower name' = ToLower name"
  shows "\<exists>p. FindParameter name (SetParameter c name' u m) = Some p \<and> holds_user c good u p \<and> jpm_ok (SetParameter c name' u m)"
proof (cases "om_find (ToLower name) (jpm_parameters m)")
  case None
  then show ?thesis using assms(1) parameter_ok_new [of False False name' "cd_show c u" "[]" "[]"] assms(3)
    by (simp add: SetParameter_def FindParameter_def find_put jpm_ok_put holds_user_def) (simp add: new_JParameter_def)
next
  case (Some p)
  with assms(2) have "jp_has_default p \<Longrightarrow> \<exists>d. good d \<and> jp_default_value p = cd_show c d" by (simp add: FindParameter_def)
  with Some assms(1,3) show ?thesis
    by (simp add: SetParameter_def FindParameter_def find_put jpm_ok_put holds_user_def parameter_ok_user jpm_okD [OF assms(1)])
qed

lemma get_user:
  assumes "FindParameter name m = Some p" and "holds_user c good u p" and "good u"
  shows "snd (GetParameterValue c name m) = Inr u \<and> snd (GetParameter c name out m) = Inr (Some (ToLower name), Some u)"
  using assms by (simp add: GetParameterValue_def GetParameter_def FindParameter_def holds_user_def parse_show initialized_def)

end


text \<open>
  Defaults that disagree.  If the user gives no value, the calls of \<open>SetDefaultParameter\<close> with the defaults \<open>v\<close>,
  \<open>v1\<close>, \<open>v2\<close>, \<dots> return each its own default, except that a call whose default is \<open>v\<close> again gets the latest default
  that was different from \<open>v\<close>: the manager changes the value, but compares with the default of the first call.
\<close>

theorem defaults_returned:
  assumes "jpm_ok m" and "FindParameter name m = None" and "int_range v" and "list_all int_range vs"
  shows "snd (default_calls int_codec name descr (v # vs) m) = map Inr (v # returned_defaults v v vs)"
  using it.default_calls_new [OF assms] .


theorem defaults_returned_witness:
  "snd (default_calls int_codec ''testing:dummy_var_2'' [] [44, 77, 44] new_JParameterManager) = [Inr 44, Inr 77, Inr 77]"
proof -
  have find: "FindParameter ''testing:dummy_var_2'' new_JParameterManager = None" by (simp add: FindParameter_def new_JParameterManager_def)
  have "list_all int_range [77, 44]" "int_range 44" by (simp_all add: int_range_def int_min_def int_max_def)
  with defaults_returned [OF jpm_ok_new find, of 44 "[77, 44]"] show ?thesis by simp
qed

section \<open>Selecting parameters is exact\<close>

definition selected :: "string \<Rightarrow> JParameter \<Rightarrow> bool" where
  "selected flt p \<longleftrightarrow> take (length flt) (jp_name p) = flt"

definition selection :: "string \<Rightarrow> (string, JParameter) omap \<Rightarrow> (string, string) omap" where
  "selection flt ps = map (\<lambda>(k, p). (drop (length flt) (jp_name p), jp_value p)) (filter (\<lambda>(k, p). selected flt p) ps)"

lemma filter_loop_selection:
  "filter_loop flt ps parms = (map (\<lambda>(k, p). (k, if selected flt p then p\<lparr>jp_is_used := True\<rparr> else p)) ps,
     fold (\<lambda>(k, v). om_put k v) (selection flt ps) parms)"
  by (induction flt ps parms rule: filter_loop.induct) (auto simp: selected_def selection_def)

lemma selected_name: "selected flt p \<Longrightarrow> jp_name p = flt @ drop (length flt) (jp_name p)"
  unfolding selected_def by (metis append_take_drop_id)

lemma selection_Cons: "selection flt ((k, p) # ps) =
    (if selected flt p then (drop (length flt) (jp_name p), jp_value p) # selection flt ps else selection flt ps)"
  by (simp add: selection_def)

lemma selection_distinct:
  assumes "distinct (map fst ps)" and "list_all (\<lambda>(k, p). parameter_ok k p) ps"
  shows "distinct (map fst (selection flt ps))"
  using assms
proof (induction ps)
  case (Cons kp ps)
  obtain k p where kp: "kp = (k, p)" by (cases kp)
  have "drop (length flt) (jp_name p) \<notin> fst ` set (selection flt ps)" if "selected flt p"
  proof
    assume "drop (length flt) (jp_name p) \<in> fst ` set (selection flt ps)"
    then obtain k' p' where p': "(k', p') \<in> set ps" "selected flt p'" "drop (length flt) (jp_name p) = drop (length flt) (jp_name p')"
      by (auto simp: selection_def)
    with that have "jp_name p = jp_name p'" using selected_name by metis
    with Cons.prems(2) kp p'(1) have "k = k'" by (auto simp: list_all_iff parameter_ok_def)
    with Cons.prems(1) kp p'(1) show False by (force simp: rev_image_eqI)
  qed
  moreover have "distinct (map fst (selection flt ps))" using Cons by simp
  ultimately show ?case by (simp add: kp selection_Cons)
qed (simp add: selection_def)

lemma selection_mem:
  assumes "list_all (\<lambda>(k, p). parameter_ok k p) ps"
  shows "(k, v) \<in> set (selection flt ps) \<longleftrightarrow> (\<exists>p. (ToLower (flt @ k), p) \<in> set ps \<and> jp_name p = flt @ k \<and> jp_value p = v)"
proof
  assume "(k, v) \<in> set (selection flt ps)"
  then obtain n p where p: "(n, p) \<in> set ps" "selected flt p" "k = drop (length flt) (jp_name p)" "v = jp_value p"
    by (auto simp: selection_def)
  from selected_name [OF p(2)] p(3) have "jp_name p = flt @ k" by simp
  moreover from assms p(1) have "n = ToLower (jp_name p)" by (auto simp: list_all_iff parameter_ok_def)
  ultimately show "\<exists>p. (ToLower (flt @ k), p) \<in> set ps \<and> jp_name p = flt @ k \<and> jp_value p = v" using p(1,4) by auto
next
  assume "\<exists>p. (ToLower (flt @ k), p) \<in> set ps \<and> jp_name p = flt @ k \<and> jp_value p = v"
  then obtain p where p: "(ToLower (flt @ k), p) \<in> set ps" "jp_name p = flt @ k" "jp_value p = v" by blast
  then have "(\<lambda>(k, p). (drop (length flt) (jp_name p), jp_value p)) (ToLower (flt @ k), p) = (k, v)" "selected flt p"
    by (simp_all add: selected_def)
  with p(1) show "(k, v) \<in> set (selection flt ps)" unfolding selection_def by force
qed

lemma om_find_map_value: "om_find k (map (\<lambda>(k, p). (k, f p)) ps) = map_option f (om_find k ps)"
  by (induction ps) (auto simp: om_find_def)

text \<open>
  C40: \<open>FilterParameters\<close> selects exactly the parameters whose name, in the case in which it was first written,
  starts with the filter.  The result has their values under the rest of the name, and exactly they are marked as
  used.
\<close>

theorem filter_exact:
  assumes "jpm_ok m" and "FilterParameters flt m = (m', parms)"
  shows "(om_find k parms = Some v \<longleftrightarrow> (\<exists>p. FindParameter (flt @ k) m = Some p \<and> jp_name p = flt @ k \<and> jp_value p = v))
    \<and> FindParameter name m' = map_option (\<lambda>p. if selected flt p then p\<lparr>jp_is_used := True\<rparr> else p) (FindParameter name m)"
proof -
  let ?ps = "jpm_parameters m"
  have ok: "om_ok ?ps" "list_all (\<lambda>(k, p). parameter_ok k p) ?ps" using assms(1) by (simp_all add: jpm_ok_def)
  have parms: "parms = fold (\<lambda>(k, v). om_put k v) (selection flt ?ps) []"
    and m': "m' = m\<lparr>jpm_parameters := map (\<lambda>(k, p). (k, if selected flt p then p\<lparr>jp_is_used := True\<rparr> else p)) ?ps\<rparr>"
    using assms(2) by (auto simp: FilterParameters_def filter_loop_selection)
  have dist: "distinct (map fst (selection flt ?ps))" by (rule selection_distinct [OF om_ok_distinct [OF ok(1)] ok(2)])
  have "om_find k parms = map_of (selection flt ?ps) k"
    unfolding parms fold_put_find [OF om_ok_Nil dist] by (simp add: om_find_def split: option.split)
  then have "om_find k parms = Some v \<longleftrightarrow> (k, v) \<in> set (selection flt ?ps)" by (simp add: map_of_eq_Some_iff [OF dist])
  also have "\<dots> \<longleftrightarrow> (\<exists>p. (ToLower (flt @ k), p) \<in> set ?ps \<and> jp_name p = flt @ k \<and> jp_value p = v)"
    by (rule selection_mem [OF ok(2)])
  also have "\<dots> \<longleftrightarrow> (\<exists>p. FindParameter (flt @ k) m = Some p \<and> jp_name p = flt @ k \<and> jp_value p = v)"
    by (simp add: FindParameter_def om_in_iff [OF ok(1)])
  finally show ?thesis by (simp add: m' FindParameter_def om_find_map_value)
qed

theorem filter_exact_witness:
  "om_find ''a'' (snd (FilterParameters ''X:'' (SetParameter int_codec ''X:a'' 1 new_JParameterManager))) = Some ''1''"
proof -
  let ?m = "SetParameter int_codec ''X:a'' 1 new_JParameterManager"
  have ok: "jpm_ok ?m" by (rule SetParameter_ok [OF jpm_ok_new])
  have p: "FindParameter (''X:'' @ ''a'') ?m = Some (new_JParameter ''X:a'' ''1'' [] [] False False)"
    by code_simp
  obtain m' parms where f: "FilterParameters ''X:'' ?m = (m', parms)" by (cases "FilterParameters ''X:'' ?m")
  from filter_exact [OF ok f, of "''a''" "''1''"] p show ?thesis by (simp add: f new_JParameter_def)
qed

section \<open>When the table of parameters throws\<close>

text \<open>
  Unused parameters.  Printing the table throws exactly when the strictness is above 1, the table is not hidden,
  and the user gave a parameter that nobody has used; at verbosity 0 the check is skipped.
\<close>

theorem print_throws:
  "snd (print_parameters verbosity strictness m) \<noteq> Inr ()
    \<longleftrightarrow> verbosity \<noteq> 0 \<and> 1 < strictness \<and> list_ex (\<lambda>(k, p). unused_by_user p) (jpm_parameters m)"
proof (cases "verbosity = 0 \<or> \<not> 1 < strictness")
  case True
  then show ?thesis by (auto simp: print_parameters_def Let_def)
next
  case False
  show ?thesis
  proof (cases "list_ex (\<lambda>(k, p). unused_by_user p) (jpm_parameters m)")
    case True
    then obtain k p where p: "(k, p) \<in> set (jpm_parameters m)" "unused_by_user p" by (auto simp: list_ex_iff)
    then have "p \<in> set (filter (param_shown 3) (map snd (jpm_parameters m)))"
      by (force simp: param_shown_def unused_by_user_def)
    then have "filter (param_shown 3) (map snd (jpm_parameters m)) \<noteq> []" by force
    moreover have "list_ex unused_by_user (map snd (jpm_parameters m))" using p by (force simp: list_ex_iff)
    ultimately show ?thesis using False True by (simp add: print_parameters_def Let_def)
  next
    case notex: False
    then have "\<not> list_ex unused_by_user (map snd (jpm_parameters m))" by (auto simp: list_ex_iff)
    with False notex show ?thesis by (simp add: print_parameters_def Let_def)
  qed
qed


end
