(* ===== verification/ConfigFile.thy ===== *)
theory ConfigFile
  imports ParameterManager
begin

text \<open>
  Configuration files: \<open>ReadConfigFile\<close> and \<open>WriteConfigFile\<close> of \<open>Services/JParameterManager.cc\<close>.  A file is its contents.
  The input stream has the two state bits that the loop depends on, since a loop until \<open>eof\<close> need not end.
\<close>

abbreviation newline :: char where
  "newline \<equiv> CHR 0x0A"

abbreviation hash :: char where
  "hash \<equiv> CHR 0x23"

abbreviation blank :: char where
  "blank \<equiv> CHR 0x20"

section \<open>Reading\<close>

record ifstream =
  ifs_rest :: string
  ifs_eof :: bool
  ifs_fail :: bool

text \<open>
  \<open>istream::getline(line, n)\<close>: on a stream that is not good it only sets \<open>failbit\<close>; otherwise it reads up to the
  newline, and sets \<open>failbit\<close> if there are more than \<open>n - 1\<close> characters before it or nothing could be read.
\<close>

definition istream_getline :: "nat \<Rightarrow> ifstream \<Rightarrow> ifstream \<times> string" where
  "istream_getline n ifs =
     (if ifs_eof ifs \<or> ifs_fail ifs then (ifs\<lparr>ifs_fail := True\<rparr>, [])
      else
        let l = takeWhile (\<lambda>c. c \<noteq> newline) (ifs_rest ifs) in
        if n - 1 < length l
        then (ifs\<lparr>ifs_rest := drop (n - 1) (ifs_rest ifs), ifs_fail := True\<rparr>, take (n - 1) l)
        else if length l = length (ifs_rest ifs)
        then (ifs\<lparr>ifs_rest := [], ifs_eof := True, ifs_fail := (l = [])\<rparr>, l)
        else (ifs\<lparr>ifs_rest := drop (Suc (length l)) (ifs_rest ifs)\<rparr>, l))"

text \<open>The words that \<open>operator>>\<close> extracts from a string stream.\<close>

function split_words :: "string \<Rightarrow> string list" where
  "split_words s =
     (case dropWhile isspace s of
        [] \<Rightarrow> []
      | c # cs \<Rightarrow> (c # takeWhile (\<lambda>x. \<not> isspace x) cs) # split_words (dropWhile (\<lambda>x. \<not> isspace x) cs))"
  by pat_completeness auto

termination split_words
proof (relation "measure length")
  fix s c cs
  assume "dropWhile isspace s = c # cs"
  then have "length (c # cs) \<le> length s" using length_dropWhile_le [of isspace s] by simp
  moreover have "length (dropWhile (\<lambda>x. \<not> isspace x) cs) \<le> length cs" by (rule length_dropWhile_le)
  ultimately show "(dropWhile (\<lambda>x. \<not> isspace x) cs, s) \<in> measure length" by simp
qed simp

declare split_words.simps [simp del]

fun join_words :: "string list \<Rightarrow> string" where
  "join_words [] = []"
| "join_words [w] = w"
| "join_words (w # ws) = w @ blank # join_words ws"

definition erase_comment :: "string \<Rightarrow> string" where
  "erase_comment str =
     (let comment_pos = length (takeWhile (\<lambda>c. c \<noteq> hash) str) in
      if comment_pos = length str then str
      else take (if 0 < comment_pos \<and> str ! (comment_pos - 1) = blank then comment_pos - 1 else comment_pos) str)"

text \<open>The key and the value on a line; the line is a C string and ends at the first NUL.\<close>

definition config_entry :: "string \<Rightarrow> (string \<times> string) option" where
  "config_entry line =
     (let str = takeWhile (\<lambda>c. c \<noteq> CHR 0x00) line in
      if str = [] \<or> hd str = hash then None
      else case split_words (erase_comment str) of
             [] \<Rightarrow> None
           | key # vs \<Rightarrow> Some (key, let val = join_words vs in if val = [] then ''1'' else val))"

definition config_set :: "string \<Rightarrow> string \<Rightarrow> JParameterManager \<Rightarrow> JParameterManager" where
  "config_set key val m =
     (case FindParameter key m of
        None \<Rightarrow> SetParameter string_codec key val m
      | Some p \<Rightarrow> if jp_has_default p then SetParameter string_codec key val m else m)"

definition config_line :: "string \<Rightarrow> JParameterManager \<Rightarrow> JParameterManager" where
  "config_line line m = (case config_entry line of None \<Rightarrow> m | Some (key, val) \<Rightarrow> config_set key val m)"

partial_function (option) read_loop :: "ifstream \<Rightarrow> JParameterManager \<Rightarrow> JParameterManager option" where
  "read_loop ifs m =
     (if ifs_eof ifs then Some m
      else case istream_getline 8190 ifs of (ifs', line) \<Rightarrow> read_loop ifs' (config_line line m))"

text \<open>\<open>None\<close> for a file that cannot be opened.\<close>

definition ReadConfigFile :: "string option \<Rightarrow> JParameterManager \<Rightarrow> JParameterManager option result" where
  "ReadConfigFile file m =
     (case file of
        None \<Rightarrow> Inl (JExc ''Unable to open configuration file'')
      | Some contents \<Rightarrow> Inr (read_loop \<lparr>ifs_rest = contents, ifs_eof = False, ifs_fail = False\<rparr> m))"

section \<open>Writing\<close>

definition max_key_len :: "JParameterManager \<Rightarrow> nat" where
  "max_key_len m = fold (\<lambda>(k, p) n. if length k > n then length k else n) (jpm_parameters m) 0"

definition max_val_len :: "JParameterManager \<Rightarrow> nat" where
  "max_val_len m = fold (\<lambda>(k, p) n. if length (jp_value p) > n then length (jp_value p) else n) (jpm_parameters m) 0"

definition entry_line :: "nat \<Rightarrow> nat \<Rightarrow> string \<Rightarrow> JParameter \<Rightarrow> string" where
  "entry_line klen vlen key p =
     key @ replicate (klen - length key) blank @ '' '' @ jp_value p @ replicate (vlen - length (jp_value p)) blank @ '' # ''
     @ jp_description p"

text \<open>\<open>timestr\<close> is what \<open>ctime\<close> returns, which ends with a newline.\<close>

definition WriteConfigFile :: "string \<Rightarrow> JParameterManager \<Rightarrow> string" where
  "WriteConfigFile timestr m =
     ''#'' @ newline # ''# JANA configuration parameters'' @ newline # ''# Created '' @ timestr @ ''#'' @ newline # newline
     # concat (map (\<lambda>(k, p). entry_line (max_key_len m) (max_val_len m) k p @ [newline]) (jpm_parameters m))"

section \<open>When the loop ends\<close>

abbreviation good_stream :: "string \<Rightarrow> ifstream" where
  "good_stream s \<equiv> \<lparr>ifs_rest = s, ifs_eof = False, ifs_fail = False\<rparr>"

lemma read_loop_stuck:
  assumes "ifs_fail ifs" and "\<not> ifs_eof ifs"
  shows "read_loop ifs m = None"
proof (rule ccontr)
  assume "read_loop ifs m \<noteq> None"
  then obtain r where ret: "read_loop ifs m = Some r" by auto
  have "\<not> (ifs_fail ifs \<and> \<not> ifs_eof ifs)"
  proof (rule read_loop.raw_induct [where P = "\<lambda>ifs m r. \<not> (ifs_fail ifs \<and> \<not> ifs_eof ifs)", OF _ ret])
    fix f :: "ifstream \<Rightarrow> JParameterManager \<Rightarrow> JParameterManager option" and ifs m r
    assume IH: "\<And>ifs m r. f ifs m = Some r \<Longrightarrow> \<not> (ifs_fail ifs \<and> \<not> ifs_eof ifs)"
      and eq: "(if ifs_eof ifs then Some m
        else case istream_getline 8190 ifs of (ifs', line) \<Rightarrow> f ifs' (config_line line m)) = Some r"
    show "\<not> (ifs_fail ifs \<and> \<not> ifs_eof ifs)"
    proof
      assume bad: "ifs_fail ifs \<and> \<not> ifs_eof ifs"
      with eq have "f (ifs\<lparr>ifs_fail := True\<rparr>) (config_line [] m) = Some r" by (simp add: istream_getline_def)
      from IH [OF this] bad show False by simp
    qed
  qed
  with assms show False by simp
qed

lemma config_line_Nil [simp]: "config_line [] m = m"
  by (simp add: config_line_def config_entry_def)

lemma read_loop_end: "read_loop \<lparr>ifs_rest = s, ifs_eof = True, ifs_fail = b\<rparr> m = Some m"
  by (subst read_loop.simps) simp

lemma read_loop_lines:
  "read_loop (good_stream s) m =
     (if list_all (\<lambda>l. length l \<le> 8189) (getlines newline s) then Some (fold config_line (getlines newline s) m) else None)"
proof (induction newline s arbitrary: m rule: getlines.induct)
  case 1
  show ?case by (subst read_loop.simps) (simp add: istream_getline_def Let_def read_loop_end)
next
  case (2 c s)
  define l where "l = takeWhile (\<lambda>x. x \<noteq> newline) (c # s)"
  define r where "r = drop (Suc (length l)) (c # s)"
  have rest: "drop 1 (dropWhile (\<lambda>x. x \<noteq> newline) (c # s)) = r"
    unfolding l_def r_def by (simp only: dropWhile_eq_drop drop_drop plus_1_eq_Suc)
  have lines: "getlines newline (c # s) = l # getlines newline r" unfolding l_def getlines.simps rest [symmetric] by simp
  note IH = 2 [unfolded rest]
  consider (long) "8189 < length l" | (last) "length l \<le> 8189" "length l = length (c # s)" | (more) "length l \<le> 8189" "length l \<noteq> length (c # s)"
    by linarith
  then show ?case
  proof cases
    case long
    then have "read_loop (good_stream (c # s)) m = None"
      by (subst read_loop.simps) (simp add: istream_getline_def l_def [symmetric] Let_def read_loop_stuck del: takeWhile.simps)
    with long show ?thesis by (simp add: lines del: getlines.simps)
  next
    case last
    then have "read_loop (good_stream (c # s)) m = Some (config_line l m)"
      by (subst read_loop.simps) (simp add: istream_getline_def l_def [symmetric] Let_def read_loop_end del: takeWhile.simps)
    moreover from last(2) have "r = []" by (simp add: r_def)
    ultimately show ?thesis using last(1) by (simp add: lines del: getlines.simps(2))
  next
    case more
    then have "read_loop (good_stream (c # s)) m = read_loop (good_stream r) (config_line l m)"
      by (subst read_loop.simps)
        (simp add: istream_getline_def l_def [symmetric] r_def [symmetric] Let_def del: takeWhile.simps drop_Suc_Cons)
    with IH [of "config_line l m"] more(1) show ?thesis by (simp add: lines del: getlines.simps)
  qed
qed

text \<open>
  C30: reading a configuration file ends exactly when no line is longer than 8189 characters, and then the file
  has the effect of its lines one after the other.  A longer line puts the stream into the failed state, in which
  \<open>getline\<close> reads nothing and \<open>eof\<close> never becomes true: the loop does not end.
\<close>

theorem read_config_ends:
  "ReadConfigFile (Some contents) m =
     Inr (if list_all (\<lambda>l. length l \<le> 8189) (getlines newline contents)
          then Some (fold config_line (getlines newline contents) m) else None)"
  by (simp add: ReadConfigFile_def read_loop_lines)

section \<open>Words\<close>

definition word :: "string \<Rightarrow> bool" where
  "word w \<longleftrightarrow> w \<noteq> [] \<and> list_all (\<lambda>c. \<not> isspace c) w"

lemma isspace_blank [simp]: "isspace blank" "isspace newline" "\<not> isspace hash" "\<not> isspace (CHR 0x00)"
  by (simp_all add: isspace_def)

lemma split_words_Nil [simp]: "split_words [] = []"
  by (simp add: split_words.simps)

lemma split_words_space: "isspace c \<Longrightarrow> split_words (c # s) = split_words s"
  by (simp add: split_words.simps [of "c # s"] split_words.simps [of s])

lemma split_words_blanks: "split_words (replicate n blank @ s) = split_words s"
  by (induction n) (simp_all add: split_words_space)

lemma split_words_word:
  assumes "word w" and "s = [] \<or> isspace (hd s)"
  shows "split_words (w @ s) = w # split_words s"
proof -
  from assms(1) obtain a v where w: "w = a # v" "\<not> isspace a" "list_all (\<lambda>c. \<not> isspace c) v" by (cases w) (auto simp: word_def)
  have "takeWhile (\<lambda>x. \<not> isspace x) (v @ s) = v" "dropWhile (\<lambda>x. \<not> isspace x) (v @ s) = s"
    using w(3) assms(2) by (auto simp: takeWhile_append list_all_iff dropWhile_append; cases s; simp)+
  with w show ?thesis by (simp add: split_words.simps [of "a # v @ s"])
qed

lemma split_words_words: "list_all word (split_words s)"
proof (induction s rule: split_words.induct)
  case (1 s)
  show ?case
  proof (cases "dropWhile isspace s")
    case Nil
    then show ?thesis by (subst split_words.simps, subst Nil) simp
  next
    case (Cons c cs)
    have "\<not> isspace c" using Cons hd_dropWhile [of isspace s] by auto
    then have "word (c # takeWhile (\<lambda>x. \<not> isspace x) cs)" by (auto simp: word_def list_all_iff dest: set_takeWhileD)
    with 1 [OF Cons] Cons show ?thesis by (simp add: split_words.simps [of s])
  qed
qed

lemma split_join: "list_all word ws \<Longrightarrow> split_words (join_words ws @ replicate n blank) = ws"
proof (induction ws rule: induct_list012)
  case 1
  show ?case using split_words_blanks [of n "[]"] by simp
next
  case (2 w)
  have "split_words (w @ replicate n blank) = w # split_words (replicate n blank)"
    using 2 by (intro split_words_word) (cases n; simp)+
  then show ?case using split_words_blanks [of n "[]"] by simp
next
  case (3 w v ws)
  then show ?case by (simp add: split_words_word split_words_space)
qed

lemma join_words_chars: "c \<in> set (join_words ws) \<Longrightarrow> list_all word ws \<Longrightarrow> isspace c \<Longrightarrow> c = blank"
  by (induction ws rule: join_words.induct) (auto simp: word_def list_all_iff)

section \<open>Reading what was written\<close>

text \<open>Keys and values that a line can carry, and parameters that fit on one line.\<close>

definition plain_key :: "string \<Rightarrow> bool" where
  "plain_key k \<longleftrightarrow> word k \<and> hash \<notin> set k \<and> CHR 0x00 \<notin> set k"

definition plain_value :: "string \<Rightarrow> bool" where
  "plain_value v \<longleftrightarrow> v \<noteq> [] \<and> join_words (split_words v) = v \<and> hash \<notin> set v \<and> CHR 0x00 \<notin> set v"

definition writable :: "nat \<Rightarrow> nat \<Rightarrow> string \<Rightarrow> JParameter \<Rightarrow> bool" where
  "writable klen vlen k p \<longleftrightarrow> plain_key k \<and> plain_value (jp_value p) \<and> newline \<notin> set (jp_description p)
     \<and> length (entry_line klen vlen k p) \<le> 8189"

lemma getlines_concat: "list_all (\<lambda>l. d \<notin> set l) ls \<Longrightarrow> getlines d (concat (map (\<lambda>l. l @ [d]) ls)) = ls"
  by (induction ls) (simp_all add: getlines_more)

lemma erase_comment_blank: "hash \<notin> set x \<Longrightarrow> erase_comment (x @ blank # hash # d) = x"
  by (simp add: erase_comment_def takeWhile_append Let_def nth_append)

lemma entry_line_parsed:
  assumes "plain_key k" and "plain_value (jp_value p)"
  shows "config_entry (entry_line klen vlen k p) = Some (k, jp_value p)"
proof -
  let ?v = "jp_value p" and ?a = "replicate (klen - length k) blank" and ?b = "replicate (vlen - length (jp_value p)) blank"
  let ?x = "k @ ?a @ blank # ?v @ ?b" and ?nul = "\<lambda>c. c \<noteq> CHR 0x00"
  let ?d = "takeWhile ?nul (jp_description p)"
  have k: "word k" "hash \<notin> set k" "CHR 0x00 \<notin> set k" using assms(1) by (simp_all add: plain_key_def)
  have v: "?v \<noteq> []" "join_words (split_words ?v) = ?v" "hash \<notin> set ?v" "CHR 0x00 \<notin> set ?v" using assms(2) by (simp_all add: plain_value_def)
  have nul: "?nul c" if "c \<in> set (?x @ blank # hash # [blank])" for c using that k v by auto
  have line: "entry_line klen vlen k p = (?x @ blank # hash # [blank]) @ jp_description p" by (simp add: entry_line_def)
  have "takeWhile ?nul (entry_line klen vlen k p) = (?x @ blank # hash # [blank]) @ ?d"
    unfolding line by (rule takeWhile_append2) (rule nul)
  then have str: "takeWhile ?nul (entry_line klen vlen k p) = ?x @ blank # hash # blank # ?d" by simp
  have "erase_comment (?x @ blank # hash # blank # ?d) = ?x" using k v by (intro erase_comment_blank) auto
  moreover have "split_words ?x = k # split_words ?v"
  proof -
    have "split_words ?x = k # split_words (?a @ blank # ?v @ ?b)" using k(1) by (intro split_words_word) (cases "klen - length k"; simp)+
    also have "split_words (?a @ blank # ?v @ ?b) = split_words (?v @ ?b)" by (simp add: split_words_blanks split_words_space)
    also have "\<dots> = split_words ?v" using split_join [OF split_words_words, of ?v "vlen - length ?v"] v(2) by simp
    finally show ?thesis .
  qed
  moreover have "?x \<noteq> []" "hd (?x @ blank # hash # blank # ?d) \<noteq> hash" using k by (cases k; auto simp: word_def)+
  ultimately show ?thesis using v(1,2) by (simp add: config_entry_def str Let_def)
qed

lemma entry_line_chars: "writable klen vlen k p \<Longrightarrow> newline \<notin> set (entry_line klen vlen k p)"
proof -
  assume w: "writable klen vlen k p"
  have "newline \<notin> set k" using w isspace_blank(2) by (auto simp: writable_def plain_key_def word_def list_all_iff)
  moreover have "newline \<notin> set (jp_value p)"
    using w join_words_chars [OF _ split_words_words isspace_blank(2), of "jp_value p"] by (auto simp: writable_def plain_value_def)
  ultimately show ?thesis using w by (auto simp: writable_def entry_line_def)
qed

lemma config_line_comment: "config_line (hash # s) m = m"
  by (simp add: config_line_def config_entry_def Let_def)

text \<open>The lines of a file that has been written.\<close>

definition file_lines :: "string \<Rightarrow> JParameterManager \<Rightarrow> string list" where
  "file_lines time m =
     [''#'', ''# JANA configuration parameters'', ''# Created '' @ time, ''#'', '''']
     @ map (\<lambda>(k, p). entry_line (max_key_len m) (max_val_len m) k p) (jpm_parameters m)"

lemma written_lines: "WriteConfigFile (time @ [newline]) m = concat (map (\<lambda>l. l @ [newline]) (file_lines time m))"
  by (simp add: WriteConfigFile_def file_lines_def comp_def case_prod_unfold)

lemma fold_config_lines:
  assumes "list_all (\<lambda>(k, p). plain_key k \<and> plain_value (jp_value p)) ps"
  shows "fold config_line (map (\<lambda>(k, p). entry_line klen vlen k p) ps) m = fold (\<lambda>(k, p). config_set k (jp_value p)) ps m"
  using assms by (induction ps arbitrary: m) (auto simp: config_line_def entry_line_parsed)

text \<open>Keys in lower case that are not there yet, one after the other.\<close>

lemma fold_config_set:
  assumes "jpm_ok m" and "distinct (map fst ps)" and "list_all (\<lambda>(k, p). ToLower k = k \<and> om_find k (jpm_parameters m) = None) ps"
  shows "om_find n (jpm_parameters (fold (\<lambda>(k, p). config_set k (jp_value p)) ps m))
    = (case map_of ps n of None \<Rightarrow> om_find n (jpm_parameters m) | Some p \<Rightarrow> Some (new_JParameter n (jp_value p) [] [] False False))"
  using assms
proof (induction ps arbitrary: m)
  case (Cons kp ps)
  obtain k p where kp: "kp = (k, p)" by (cases kp)
  let ?m = "SetParameter string_codec k (jp_value p) m"
  have k: "ToLower k = k" "om_find k (jpm_parameters m) = None" using Cons.prems(3) kp by simp_all
  have set: "config_set k (jp_value p) m = ?m" using k by (simp add: config_set_def FindParameter_def)
  have find: "om_find n (jpm_parameters ?m) = (if n = k then Some (new_JParameter k (jp_value p) [] [] False False) else om_find n (jpm_parameters m))" for n
    using k by (simp add: SetParameter_def find_put [OF Cons.prems(1)] string_codec_def)
  have "list_all (\<lambda>(k, p). ToLower k = k \<and> om_find k (jpm_parameters ?m) = None) ps"
    using Cons.prems(2,3) kp by (auto simp: list_all_iff find rev_image_eqI)
  from Cons.IH [OF SetParameter_ok [OF Cons.prems(1)] _ this] Cons.prems(2) kp show ?case
    by (auto simp: set find split: option.split dest: map_of_SomeD intro: rev_image_eqI)
qed simp

lemma jpm_ok_lower: "jpm_ok m \<Longrightarrow> (k, p) \<in> set (jpm_parameters m) \<Longrightarrow> ToLower k = k"
  by (auto simp: jpm_ok_def list_all_iff parameter_ok_def ToLower_idem)

text \<open>
  C27: a configuration that was written can be read back.  If keys contain no white space, values are words
  separated by single blanks, neither contains \<open>#\<close>, every description is one line, and every line has at most
  8189 characters, then reading the written file into an empty manager ends and gives every parameter its value.
\<close>

theorem config_roundtrip:
  assumes "jpm_ok m" and "list_all (\<lambda>(k, p). writable (max_key_len m) (max_val_len m) k p) (jpm_parameters m)"
    and "newline \<notin> set time" and "length time \<le> 8000"
  shows "\<exists>m'. ReadConfigFile (Some (WriteConfigFile (time @ [newline]) m)) new_JParameterManager = Inr (Some m')
    \<and> (\<forall>name. map_option jp_value (FindParameter name m') = map_option jp_value (FindParameter name m))"
proof -
  let ?ps = "jpm_parameters m" and ?new = "new_JParameterManager"
  let ?m' = "fold (\<lambda>(k, p). config_set k (jp_value p)) ?ps ?new"
  have "list_all (\<lambda>l. newline \<notin> set l) (file_lines time m)"
    using assms(2,3) entry_line_chars by (auto simp: file_lines_def list_all_iff)
  then have lines: "getlines newline (WriteConfigFile (time @ [newline]) m) = file_lines time m"
    by (simp add: written_lines getlines_concat)
  have short: "list_all (\<lambda>l. length l \<le> 8189) (file_lines time m)"
    using assms(2,4) by (auto simp: file_lines_def list_all_iff writable_def)
  have "list_all (\<lambda>(k, p). plain_key k \<and> plain_value (jp_value p)) ?ps" using assms(2) by (auto simp: list_all_iff writable_def)
  then have "fold config_line (file_lines time m) ?new = ?m'"
    by (simp add: file_lines_def fold_config_lines config_line_comment)
  with lines short have read: "ReadConfigFile (Some (WriteConfigFile (time @ [newline]) m)) ?new = Inr (Some ?m')"
    by (simp add: ReadConfigFile_def read_loop_lines)
  have "list_all (\<lambda>(k, p). ToLower k = k \<and> om_find k (jpm_parameters ?new) = None) ?ps"
    using jpm_ok_lower [OF assms(1)] by (auto simp: list_all_iff new_JParameterManager_def)
  from fold_config_set [OF jpm_ok_new om_ok_distinct this] assms(1)
  have "map_option jp_value (om_find n (jpm_parameters ?m')) = map_option jp_value (om_find n ?ps)" for n
    by (simp add: jpm_ok_def om_find_def new_JParameterManager_def new_JParameter_def split: option.split)
  with read show ?thesis by (auto simp: FindParameter_def)
qed

theorem config_roundtrip_witness:
  "\<exists>m'. ReadConfigFile (Some (WriteConfigFile [newline] (SetParameter int_codec ''X:a'' 1 new_JParameterManager))) new_JParameterManager
      = Inr (Some m')
    \<and> map_option jp_value (FindParameter ''X:a'' m') = Some ''1''"
proof -
  let ?m = "SetParameter int_codec ''X:a'' 1 new_JParameterManager"
  have ok: "jpm_ok ?m" by (rule SetParameter_ok [OF jpm_ok_new])
  have w: "list_all (\<lambda>(k, p). writable (max_key_len ?m) (max_val_len ?m) k p) (jpm_parameters ?m)" by code_simp
  have v: "map_option jp_value (FindParameter ''X:a'' ?m) = Some ''1''" by code_simp
  from config_roundtrip [OF ok w, of "[]"] obtain m' where
    m': "ReadConfigFile (Some (WriteConfigFile [newline] ?m)) new_JParameterManager = Inr (Some m')"
    "\<forall>name. map_option jp_value (FindParameter name m') = map_option jp_value (FindParameter name ?m)" by auto
  have "map_option jp_value (FindParameter ''X:a'' m') = Some ''1''" using spec [OF m'(2), of "''X:a''"] v by (rule trans)
  with m'(1) show ?thesis by blast
qed

section \<open>Where the file and the comments disagree\<close>

text \<open>
  A configuration file overrides the user.  A line \<open>key val\<close> sets a parameter that does not exist or has a
  default, also if its value is one that the user has set; it is ignored if the parameter has no default.
\<close>

theorem config_precedence:
  assumes "jpm_ok m" and "plain_key key" and "plain_value val" and "FindParameter key m = Some p"
    and "length key + length val < 8189"
  shows "\<exists>m'. ReadConfigFile (Some (key @ blank # val)) m = Inr (Some m')
    \<and> map_option jp_value (FindParameter key m') = Some (if jp_has_default p then val else jp_value p)"
proof -
  let ?line = "key @ blank # val"
  have key: "word key" "hash \<notin> set key" "CHR 0x00 \<notin> set key" using assms(2) by (simp_all add: plain_key_def)
  have val: "val \<noteq> []" "join_words (split_words val) = val" "hash \<notin> set val" "CHR 0x00 \<notin> set val" using assms(3) by (simp_all add: plain_value_def)
  have "newline \<notin> set key" using key isspace_blank(2) by (auto simp: word_def list_all_iff)
  moreover have "newline \<notin> set val" using val join_words_chars [OF _ split_words_words isspace_blank(2), of val] by auto
  ultimately have lines: "getlines newline ?line = [?line]" by (intro getlines_last) auto
  have nul: "takeWhile (\<lambda>c. c \<noteq> CHR 0x00) ?line = ?line" using key val by (auto simp: takeWhile_eq_all_conv)
  have "takeWhile (\<lambda>c. c \<noteq> hash) ?line = ?line" using key val by (auto simp: takeWhile_eq_all_conv)
  then have "erase_comment ?line = ?line" unfolding erase_comment_def by (simp only: Let_def) simp
  moreover have "split_words ?line = key # split_words val" using key by (simp add: split_words_word split_words_space)
  moreover have "hd ?line \<noteq> hash" using key by (cases key) (auto simp: word_def)
  ultimately have "config_entry ?line = Some (key, val)" using val unfolding config_entry_def nul by simp
  then have "config_line ?line m = config_set key val m" by (simp add: config_line_def)
  with lines assms(5) have "ReadConfigFile (Some ?line) m = Inr (Some (config_set key val m))"
    by (simp add: ReadConfigFile_def read_loop_lines)
  moreover have "map_option jp_value (FindParameter key (config_set key val m)) = Some (if jp_has_default p then val else jp_value p)"
    using assms(1,4) by (simp add: config_set_def SetParameter_def FindParameter_def find_put string_codec_def)
  ultimately show ?thesis by blast
qed

definition sample_overridden :: JParameterManager where
  "sample_overridden = fst (SetDefaultParameter int_codec ''nthreads'' 4 [] (SetParameter int_codec ''nthreads'' 8 new_JParameterManager))"

theorem config_precedence_witness:
  "\<exists>m'. ReadConfigFile (Some ''nthreads 2'') sample_overridden = Inr (Some m')
    \<and> map_option jp_value (FindParameter ''nthreads'' m') = Some ''2''"
proof -
  have ok: "jpm_ok sample_overridden" unfolding sample_overridden_def by (intro SetDefaultParameter_ok SetParameter_ok jpm_ok_new)
  have k: "plain_key ''nthreads''" "plain_value ''2''" by code_simp+
  have p: "FindParameter ''nthreads'' sample_overridden =
      Some ((new_JParameter ''nthreads'' ''8'' ''4'' [] True False)\<lparr>jp_is_used := True\<rparr>)" by code_simp
  from config_precedence [OF ok k p] show ?thesis by (simp add: new_JParameter_def)
qed

definition printed_manager :: JParameterManager where
  "printed_manager =
     fst (SetDefaultParameter int_codec ''jana:parameter_verbosity'' 1 verbosity_description new_JParameterManager)"

text \<open>
  Descriptions of several lines turn into parameters.  The descriptions that \<open>PrintParameters\<close> itself gives to
  \<open>jana:parameter_verbosity\<close> have a line for each value; written to a file and read back, they set parameters
  called \<open>1:\<close>, \<open>2:\<close> and \<open>3:\<close>.
\<close>

theorem description_becomes_parameter:
  "map_option (map_option (\<lambda>m'. map_option jp_value (FindParameter ''1:'' m')))
      (case ReadConfigFile (Some (WriteConfigFile (''Thu Jan  1 00:00:00 1970'' @ [newline]) printed_manager)) new_JParameterManager of
         Inl e \<Rightarrow> None | Inr r \<Rightarrow> Some r)
    = Some (Some (Some ''Show user-provided parameters only''))"
proof -
  let ?file = "WriteConfigFile (''Thu Jan  1 00:00:00 1970'' @ [newline]) printed_manager"
  have "list_all (\<lambda>l. length l \<le> 8189) (getlines newline ?file)" by code_simp
  moreover have "map_option jp_value (FindParameter ''1:'' (fold config_line (getlines newline ?file) new_JParameterManager))
      = Some ''Show user-provided parameters only''" by code_simp
  ultimately show ?thesis by (simp add: ReadConfigFile_def read_loop_lines)
qed

end
