(* ===== verification/Md5.thy ===== *)
theory Md5
  imports Prelude "HOL-Library.Word"
begin

unbundle bit_operations_syntax

text \<open>
  The MD5 implementation under \<open>Compatibility/md5.c\<close>, with words of 32 and bytes of 8 bits, and the algorithm of
  RFC 1321 as reference.
\<close>

type_synonym md5_byte_t = "8 word"
type_synonym md5_word_t = "32 word"

record md5_state_t =
  count0 :: md5_word_t
  count1 :: md5_word_t
  abcd :: "md5_word_t \<times> md5_word_t \<times> md5_word_t \<times> md5_word_t"
  md5_buf :: "md5_byte_t list"

section \<open>The implementation\<close>

definition T_MASK :: md5_word_t where
  "T_MASK = NOT 0"

definition md5_T :: "md5_word_t list" where
  "md5_T =
     [
      T_MASK XOR 0x28955b87, T_MASK XOR 0x173848a9, 0x242070db, T_MASK XOR 0x3e423111,
      T_MASK XOR 0x0a83f050, 0x4787c62a, T_MASK XOR 0x57cfb9ec, T_MASK XOR 0x02b96afe,
      0x698098d8, T_MASK XOR 0x74bb0850, T_MASK XOR 0x0000a44e, T_MASK XOR 0x76a32841,
      0x6b901122, T_MASK XOR 0x02678e6c, T_MASK XOR 0x5986bc71, 0x49b40821,
      T_MASK XOR 0x09e1da9d, T_MASK XOR 0x3fbf4cbf, 0x265e5a51, T_MASK XOR 0x16493855,
      T_MASK XOR 0x29d0efa2, 0x02441453, T_MASK XOR 0x275e197e, T_MASK XOR 0x182c0437,
      0x21e1cde6, T_MASK XOR 0x3cc8f829, T_MASK XOR 0x0b2af278, 0x455a14ed,
      T_MASK XOR 0x561c16fa, T_MASK XOR 0x03105c07, 0x676f02d9, T_MASK XOR 0x72d5b375,
      T_MASK XOR 0x0005c6bd, T_MASK XOR 0x788e097e, 0x6d9d6122, T_MASK XOR 0x021ac7f3,
      T_MASK XOR 0x5b4115bb, 0x4bdecfa9, T_MASK XOR 0x0944b49f, T_MASK XOR 0x4140438f,
      0x289b7ec6, T_MASK XOR 0x155ed805, T_MASK XOR 0x2b10cf7a, 0x04881d05,
      T_MASK XOR 0x262b2fc6, T_MASK XOR 0x1924661a, 0x1fa27cf8, T_MASK XOR 0x3b53a99a,
      T_MASK XOR 0x0bd6ddbb, 0x432aff97, T_MASK XOR 0x546bdc58, T_MASK XOR 0x036c5fc6,
      0x655b59c3, T_MASK XOR 0x70f3336d, T_MASK XOR 0x00100b82, T_MASK XOR 0x7a7ba22e,
      0x6fa87e4f, T_MASK XOR 0x01d3191f, T_MASK XOR 0x5cfebceb, 0x4e0811a1,
      T_MASK XOR 0x08ac817d, T_MASK XOR 0x42c50dca, 0x2ad7d2bb, T_MASK XOR 0x14792c6e]"

definition ROTATE_LEFT :: "md5_word_t \<Rightarrow> nat \<Rightarrow> md5_word_t" where
  "ROTATE_LEFT x n = (push_bit n x) OR (drop_bit (32 - n) x)"

definition md5_F :: "md5_word_t \<Rightarrow> md5_word_t \<Rightarrow> md5_word_t \<Rightarrow> md5_word_t" where
  "md5_F x y z = (x AND y) OR (NOT x AND z)"

definition md5_G :: "md5_word_t \<Rightarrow> md5_word_t \<Rightarrow> md5_word_t \<Rightarrow> md5_word_t" where
  "md5_G x y z = (x AND z) OR (y AND NOT z)"

definition md5_H :: "md5_word_t \<Rightarrow> md5_word_t \<Rightarrow> md5_word_t \<Rightarrow> md5_word_t" where
  "md5_H x y z = x XOR y XOR z"

definition md5_I :: "md5_word_t \<Rightarrow> md5_word_t \<Rightarrow> md5_word_t \<Rightarrow> md5_word_t" where
  "md5_I x y z = y XOR (x OR NOT z)"

text \<open>The macro \<open>SET\<close>, with the round function as an argument: the new value of its first register.\<close>

definition SET :: "(md5_word_t \<Rightarrow> md5_word_t \<Rightarrow> md5_word_t \<Rightarrow> md5_word_t) \<Rightarrow> md5_word_t list
    \<Rightarrow> md5_word_t \<Rightarrow> md5_word_t \<Rightarrow> md5_word_t \<Rightarrow> md5_word_t \<Rightarrow> nat \<Rightarrow> nat \<Rightarrow> nat \<Rightarrow> md5_word_t" where
  "SET f X a b c d k s i = ROTATE_LEFT (a + f b c d + X ! k + md5_T ! (i - 1)) s + b"

text \<open>
  Four lines of a round, which go through the registers in the order \<open>a\<close>, \<open>d\<close>, \<open>c\<close>, \<open>b\<close>: the index of the first
  constant, the four indices of \<open>X\<close> and the four shifts.
\<close>

fun SET4 :: "(md5_word_t \<Rightarrow> md5_word_t \<Rightarrow> md5_word_t \<Rightarrow> md5_word_t) \<Rightarrow> md5_word_t list
    \<Rightarrow> nat \<times> (nat \<times> nat \<times> nat \<times> nat) \<times> (nat \<times> nat \<times> nat \<times> nat)
    \<Rightarrow> md5_word_t \<times> md5_word_t \<times> md5_word_t \<times> md5_word_t \<Rightarrow> md5_word_t \<times> md5_word_t \<times> md5_word_t \<times> md5_word_t" where
  "SET4 f X (i, (k0, k1, k2, k3), (s0, s1, s2, s3)) (a, b, c, d) =
     (let a = SET f X a b c d k0 s0 i;
          d = SET f X d a b c k1 s1 (i + 1);
          c = SET f X c d a b k2 s2 (i + 2);
          b = SET f X b c d a k3 s3 (i + 3) in
      (a, b, c, d))"

definition md5_round1 :: "md5_word_t list
    \<Rightarrow> md5_word_t \<times> md5_word_t \<times> md5_word_t \<times> md5_word_t \<Rightarrow> md5_word_t \<times> md5_word_t \<times> md5_word_t \<times> md5_word_t" where
  "md5_round1 X = fold (SET4 md5_F X)
     [(1, (0, 1, 2, 3), (7, 12, 17, 22)),
      (5, (4, 5, 6, 7), (7, 12, 17, 22)),
      (9, (8, 9, 10, 11), (7, 12, 17, 22)),
      (13, (12, 13, 14, 15), (7, 12, 17, 22))]"

definition md5_round2 :: "md5_word_t list
    \<Rightarrow> md5_word_t \<times> md5_word_t \<times> md5_word_t \<times> md5_word_t \<Rightarrow> md5_word_t \<times> md5_word_t \<times> md5_word_t \<times> md5_word_t" where
  "md5_round2 X = fold (SET4 md5_G X)
     [(17, (1, 6, 11, 0), (5, 9, 14, 20)),
      (21, (5, 10, 15, 4), (5, 9, 14, 20)),
      (25, (9, 14, 3, 8), (5, 9, 14, 20)),
      (29, (13, 2, 7, 12), (5, 9, 14, 20))]"

definition md5_round3 :: "md5_word_t list
    \<Rightarrow> md5_word_t \<times> md5_word_t \<times> md5_word_t \<times> md5_word_t \<Rightarrow> md5_word_t \<times> md5_word_t \<times> md5_word_t \<times> md5_word_t" where
  "md5_round3 X = fold (SET4 md5_H X)
     [(33, (5, 8, 11, 14), (4, 11, 16, 23)),
      (37, (1, 4, 7, 10), (4, 11, 16, 23)),
      (41, (13, 0, 3, 6), (4, 11, 16, 23)),
      (45, (9, 12, 15, 2), (4, 11, 16, 23))]"

definition md5_round4 :: "md5_word_t list
    \<Rightarrow> md5_word_t \<times> md5_word_t \<times> md5_word_t \<times> md5_word_t \<Rightarrow> md5_word_t \<times> md5_word_t \<times> md5_word_t \<times> md5_word_t" where
  "md5_round4 X = fold (SET4 md5_I X)
     [(49, (0, 7, 14, 5), (6, 10, 15, 21)),
      (53, (12, 3, 10, 1), (6, 10, 15, 21)),
      (57, (8, 15, 6, 13), (6, 10, 15, 21)),
      (61, (4, 11, 2, 9), (6, 10, 15, 21))]"

text \<open>The words of a block; both branches for the byte order of the machine give them least significant byte first.\<close>

fun md5_words :: "md5_byte_t list \<Rightarrow> md5_word_t list" where
  "md5_words (x0 # x1 # x2 # x3 # xs) =
     (ucast x0 + push_bit 8 (ucast x1) + push_bit 16 (ucast x2) + push_bit 24 (ucast x3)) # md5_words xs"
| "md5_words xs = []"

definition md5_process :: "md5_state_t \<Rightarrow> md5_byte_t list \<Rightarrow> md5_state_t" where
  "md5_process pms data =
     (let X = md5_words data in
      case md5_round4 X (md5_round3 X (md5_round2 X (md5_round1 X (abcd pms)))) of (a, b, c, d) \<Rightarrow>
      case abcd pms of (a0, b0, c0, d0) \<Rightarrow> pms\<lparr>abcd := (a0 + a, b0 + b, c0 + c, d0 + d)\<rparr>)"

definition md5_init :: "md5_byte_t list \<Rightarrow> md5_state_t" where
  "md5_init buf =
     \<lparr>count0 = 0, count1 = 0, abcd = (0x67452301, T_MASK XOR 0x10325476, T_MASK XOR 0x67452301, 0x10325476), md5_buf = buf\<rparr>"

text \<open>\<open>memcpy\<close> into the buffer of the state.\<close>

definition copy_to_buf :: "nat \<Rightarrow> md5_byte_t list \<Rightarrow> md5_state_t \<Rightarrow> md5_state_t" where
  "copy_to_buf offset p pms =
     pms\<lparr>md5_buf := take offset (md5_buf pms) @ p @ drop (offset + length p) (md5_buf pms)\<rparr>"

text \<open>Full blocks, and what is left of the data after them.\<close>

function md5_blocks :: "md5_byte_t list \<Rightarrow> md5_state_t \<Rightarrow> md5_byte_t list \<times> md5_state_t" where
  "md5_blocks p pms = (if length p \<ge> 64 then md5_blocks (drop 64 p) (md5_process pms (take 64 p)) else (p, pms))"
  by pat_completeness auto

termination md5_blocks
  by (relation "measure (length \<circ> fst)") auto

declare md5_blocks.simps [simp del]

text \<open>
  \<open>nbytes\<close> is the length of the data and is an \<open>int\<close>: shifting it left by 3 is undefined if it has more than 28 bits,
  so that \<open>nbytes >> 29\<close> is 0.
\<close>

definition md5_append :: "md5_state_t \<Rightarrow> md5_byte_t list \<Rightarrow> md5_state_t result" where
  "md5_append pms data =
     (let nbytes = length data;
          offset = unat (drop_bit 3 (count0 pms) AND 63);
          nbits = (of_nat (8 * nbytes) :: md5_word_t) in
      if 2 ^ 28 \<le> nbytes then Inl (UndefinedBehaviour ''nbytes << 3'')
      else if nbytes = 0 then Inr pms
      else
        let pms1 = pms\<lparr>count1 := count1 pms + of_nat (nbytes div 2 ^ 29), count0 := count0 pms + nbits\<rparr>;
            pms2 = (if count0 pms1 < nbits then pms1\<lparr>count1 := count1 pms1 + 1\<rparr> else pms1);
            copy = (if offset + nbytes > 64 then 64 - offset else nbytes);
            pms3 = copy_to_buf offset (take copy data) pms2 in
        if offset \<noteq> 0 \<and> offset + copy < 64 then Inr pms3
        else
          let (p, pms4) = (if offset \<noteq> 0 then (drop copy data, md5_process pms3 (md5_buf pms3)) else (data, pms2)) in
          case md5_blocks p pms4 of (left, pms5) \<Rightarrow> Inr (if left \<noteq> [] then copy_to_buf 0 left pms5 else pms5))"

definition md5_pad :: "md5_byte_t list" where
  "md5_pad = 0x80 # replicate 63 0"

definition word_bytes :: "md5_word_t \<Rightarrow> md5_byte_t list" where
  "word_bytes w = map (\<lambda>i. ucast (drop_bit (8 * i) w)) [0 ..< 4]"

definition md5_finish :: "md5_state_t \<Rightarrow> (md5_state_t \<times> md5_byte_t list) result" where
  "md5_finish pms =
     (let data = word_bytes (count0 pms) @ word_bytes (count1 pms) in
      rbind (md5_append pms (take (unat ((55 - drop_bit 3 (count0 pms)) AND 63) + 1) md5_pad)) (\<lambda>pms1.
      rbind (md5_append pms1 data) (\<lambda>pms2.
        case abcd pms2 of (a, b, c, d) \<Rightarrow> Inr (pms2, word_bytes a @ word_bytes b @ word_bytes c @ word_bytes d))))"

section \<open>RFC 1321\<close>

definition rfc_K :: "md5_word_t list" where
  "rfc_K =
     [
      0xd76aa478, 0xe8c7b756, 0x242070db, 0xc1bdceee, 0xf57c0faf, 0x4787c62a, 0xa8304613, 0xfd469501,
      0x698098d8, 0x8b44f7af, 0xffff5bb1, 0x895cd7be, 0x6b901122, 0xfd987193, 0xa679438e, 0x49b40821,
      0xf61e2562, 0xc040b340, 0x265e5a51, 0xe9b6c7aa, 0xd62f105d, 0x02441453, 0xd8a1e681, 0xe7d3fbc8,
      0x21e1cde6, 0xc33707d6, 0xf4d50d87, 0x455a14ed, 0xa9e3e905, 0xfcefa3f8, 0x676f02d9, 0x8d2a4c8a,
      0xfffa3942, 0x8771f681, 0x6d9d6122, 0xfde5380c, 0xa4beea44, 0x4bdecfa9, 0xf6bb4b60, 0xbebfbc70,
      0x289b7ec6, 0xeaa127fa, 0xd4ef3085, 0x04881d05, 0xd9d4d039, 0xe6db99e5, 0x1fa27cf8, 0xc4ac5665,
      0xf4292244, 0x432aff97, 0xab9423a7, 0xfc93a039, 0x655b59c3, 0x8f0ccc92, 0xffeff47d, 0x85845dd1,
      0x6fa87e4f, 0xfe2ce6e0, 0xa3014314, 0x4e0811a1, 0xf7537e82, 0xbd3af235, 0x2ad7d2bb, 0xeb86d391]"

definition rfc_shift :: "nat \<Rightarrow> nat" where
  "rfc_shift i = [[7, 12, 17, 22], [5, 9, 14, 20], [4, 11, 16, 23], [6, 10, 15, 21]] ! (i div 16) ! (i mod 4)"

definition rfc_index :: "nat \<Rightarrow> nat" where
  "rfc_index i =
     (if i < 16 then i else if i < 32 then (5 * i + 1) mod 16 else if i < 48 then (3 * i + 5) mod 16 else 7 * i mod 16)"

definition rfc_function :: "nat \<Rightarrow> md5_word_t \<Rightarrow> md5_word_t \<Rightarrow> md5_word_t \<Rightarrow> md5_word_t" where
  "rfc_function i x y z =
     (if i < 16 then (x AND y) OR (NOT x AND z) else if i < 32 then (x AND z) OR (y AND NOT z)
      else if i < 48 then x XOR y XOR z else y XOR (x OR NOT z))"

fun rfc_step :: "md5_word_t list \<Rightarrow> nat
    \<Rightarrow> md5_word_t \<times> md5_word_t \<times> md5_word_t \<times> md5_word_t \<Rightarrow> md5_word_t \<times> md5_word_t \<times> md5_word_t \<times> md5_word_t" where
  "rfc_step X i (a, b, c, d) =
     (d, b + word_rotl (rfc_shift i) (a + rfc_function i b c d + X ! rfc_index i + rfc_K ! i), b, c)"

fun rfc_add :: "md5_word_t \<times> md5_word_t \<times> md5_word_t \<times> md5_word_t \<Rightarrow> md5_word_t \<times> md5_word_t \<times> md5_word_t \<times> md5_word_t
    \<Rightarrow> md5_word_t \<times> md5_word_t \<times> md5_word_t \<times> md5_word_t" where
  "rfc_add (a, b, c, d) (a', b', c', d') = (a + a', b + b', c + c', d + d')"

definition rfc_block :: "md5_word_t list \<Rightarrow> md5_word_t \<times> md5_word_t \<times> md5_word_t \<times> md5_word_t
    \<Rightarrow> md5_word_t \<times> md5_word_t \<times> md5_word_t \<times> md5_word_t" where
  "rfc_block X r = rfc_add r (fold (rfc_step X) [0 ..< 64] r)"

text \<open>The padded message, its blocks, and the digest.\<close>

definition rfc_padded :: "md5_byte_t list \<Rightarrow> md5_byte_t list" where
  "rfc_padded m =
     m @ [0x80] @ replicate ((119 - length m mod 64) mod 64) 0
     @ map (\<lambda>i. of_nat (8 * length m div 256 ^ i)) [0 ..< 8]"

function rfc_blocks :: "md5_byte_t list \<Rightarrow> md5_byte_t list list" where
  "rfc_blocks m = (if length m \<ge> 64 then take 64 m # rfc_blocks (drop 64 m) else [])"
  by pat_completeness auto

termination rfc_blocks
  by (relation "measure length") auto

declare rfc_blocks.simps [simp del]

definition rfc_start :: "md5_word_t \<times> md5_word_t \<times> md5_word_t \<times> md5_word_t" where
  "rfc_start = (0x67452301, 0xefcdab89, 0x98badcfe, 0x10325476)"

definition rfc_hash :: "md5_byte_t list \<Rightarrow> md5_word_t \<times> md5_word_t \<times> md5_word_t \<times> md5_word_t" where
  "rfc_hash m = fold (\<lambda>block. rfc_block (md5_words block)) (rfc_blocks m) rfc_start"

definition rfc_md5 :: "md5_byte_t list \<Rightarrow> md5_byte_t list" where
  "rfc_md5 m =
     (case rfc_hash (rfc_padded m) of (a, b, c, d) \<Rightarrow> word_bytes a @ word_bytes b @ word_bytes c @ word_bytes d)"

section \<open>One block\<close>

lemma rotate_left: "0 < n \<Longrightarrow> n < 32 \<Longrightarrow> ROTATE_LEFT x n = word_rotl n x"
proof (rule bit_word_eqI)
  fix k :: nat
  assume n: "0 < n" "n < 32" and "k < LENGTH(32)"
  then have k: "k < 32" by simp
  have rot: "bit (word_rotl n x) k = bit x ((k + (32 - n)) mod 32)" using n k by (simp add: bit_word_rotl_iff)
  have left: "bit (ROTATE_LEFT x n) k \<longleftrightarrow> n \<le> k \<and> bit x (k - n) \<or> bit x (32 - n + k)"
    using k by (simp add: ROTATE_LEFT_def bit_or_iff bit_push_bit_iff bit_drop_bit_eq)
  show "bit (ROTATE_LEFT x n) k = bit (word_rotl n x) k"
  proof (cases "k < n")
    case True
    then have "(k + (32 - n)) mod 32 = 32 - n + k" using n k by simp
    with True rot left show ?thesis by simp
  next
    case False
    then have "(k + (32 - n)) mod 32 = k - n" using n k by (simp add: mod_if)
    moreover have "\<not> bit x (32 - n + k)" using False n bit_imp_le_length [of x "32 - n + k"] by auto
    ultimately show ?thesis using False rot left by simp
  qed
qed

lemma T_K: "md5_T = rfc_K"
  by (simp add: md5_T_def rfc_K_def T_MASK_def)

text \<open>A line of a round that agrees with step \<open>i - 1\<close> of the reference.\<close>

definition line_ok :: "(md5_word_t \<Rightarrow> md5_word_t \<Rightarrow> md5_word_t \<Rightarrow> md5_word_t) \<Rightarrow> nat \<Rightarrow> nat \<Rightarrow> nat \<Rightarrow> bool" where
  "line_ok f i k s \<longleftrightarrow> f = rfc_function (i - 1) \<and> k = rfc_index (i - 1) \<and> s = rfc_shift (i - 1) \<and> 0 < s \<and> s < 32"

lemma line_step: "line_ok f i k s \<Longrightarrow> rfc_step X (i - 1) (a, b, c, d) = (d, SET f X a b c d k s i, b, c)"
  by (simp add: line_ok_def SET_def rotate_left T_K add.commute)

lemma SET4_steps:
  assumes "line_ok f i k0 s0" and "line_ok f (i + 1) k1 s1" and "line_ok f (i + 2) k2 s2" and "line_ok f (i + 3) k3 s3"
  shows "SET4 f X (i, (k0, k1, k2, k3), (s0, s1, s2, s3)) r = fold (rfc_step X) [i - 1, i + 1 - 1, i + 2 - 1, i + 3 - 1] r"
proof (cases r)
  case (fields a b c d)
  show ?thesis unfolding fields SET4.simps Let_def fold_simps
    by (simp only: line_step [OF assms(1)] line_step [OF assms(2)] line_step [OF assms(3)] line_step [OF assms(4)])
qed

lemma rfc_functions:
  "i < 16 \<Longrightarrow> rfc_function i = md5_F" "16 \<le> i \<Longrightarrow> i < 32 \<Longrightarrow> rfc_function i = md5_G"
  "32 \<le> i \<Longrightarrow> i < 48 \<Longrightarrow> rfc_function i = md5_H" "48 \<le> i \<Longrightarrow> rfc_function i = md5_I"
  by (intro ext; simp add: rfc_function_def md5_F_def md5_G_def md5_H_def md5_I_def)+

lemmas line_simps = SET4_steps line_ok_def rfc_functions rfc_index_def rfc_shift_def numeral_2_eq_2

lemma md5_round1_steps: "md5_round1 X r = fold (rfc_step X) [0 ..< 16] r"
proof -
  have "md5_round1 X r = fold (rfc_step X) ([0, 1, 2, 3] @ [4, 5, 6, 7] @ [8, 9, 10, 11] @ [12, 13, 14, 15]) r"
    unfolding md5_round1_def fold_append fold_simps comp_apply by (simp add: line_simps del: rfc_step.simps SET4.simps)
  moreover have "[0 ..< 16] = [0, 1, 2, 3] @ [4, 5, 6, 7] @ [8, 9, 10, 11] @ [12, 13, 14, 15]" by code_simp
  ultimately show ?thesis by (simp only:)
qed

lemma md5_round2_steps: "md5_round2 X r = fold (rfc_step X) [16 ..< 32] r"
proof -
  have "md5_round2 X r = fold (rfc_step X) ([16, 17, 18, 19] @ [20, 21, 22, 23] @ [24, 25, 26, 27] @ [28, 29, 30, 31]) r"
    unfolding md5_round2_def fold_append fold_simps comp_apply by (simp add: line_simps del: rfc_step.simps SET4.simps)
  moreover have "[16 ..< 32] = [16, 17, 18, 19] @ [20, 21, 22, 23] @ [24, 25, 26, 27] @ [28, 29, 30, 31]" by code_simp
  ultimately show ?thesis by (simp only:)
qed

lemma md5_round3_steps: "md5_round3 X r = fold (rfc_step X) [32 ..< 48] r"
proof -
  have "md5_round3 X r = fold (rfc_step X) ([32, 33, 34, 35] @ [36, 37, 38, 39] @ [40, 41, 42, 43] @ [44, 45, 46, 47]) r"
    unfolding md5_round3_def fold_append fold_simps comp_apply by (simp add: line_simps del: rfc_step.simps SET4.simps)
  moreover have "[32 ..< 48] = [32, 33, 34, 35] @ [36, 37, 38, 39] @ [40, 41, 42, 43] @ [44, 45, 46, 47]" by code_simp
  ultimately show ?thesis by (simp only:)
qed

lemma md5_round4_steps: "md5_round4 X r = fold (rfc_step X) [48 ..< 64] r"
proof -
  have "md5_round4 X r = fold (rfc_step X) ([48, 49, 50, 51] @ [52, 53, 54, 55] @ [56, 57, 58, 59] @ [60, 61, 62, 63]) r"
    unfolding md5_round4_def fold_append fold_simps comp_apply by (simp add: line_simps del: rfc_step.simps SET4.simps)
  moreover have "[48 ..< 64] = [48, 49, 50, 51] @ [52, 53, 54, 55] @ [56, 57, 58, 59] @ [60, 61, 62, 63]" by code_simp
  ultimately show ?thesis by (simp only:)
qed

text \<open>
  The unrolled rounds with their constants, which the code writes as complements, do what the 64 steps of the
  standard do.
\<close>

lemma md5_process_rfc: "md5_process pms data = pms\<lparr>abcd := rfc_block (md5_words data) (abcd pms)\<rparr>"
proof -
  let ?X = "md5_words data"
  have upt: "[0 ..< 64] = [0 ..< 16] @ [16 ..< 32] @ [32 ..< 48] @ [48 ..< 64 :: nat]" by code_simp
  have "fold (rfc_step ?X) [0 ..< 64] (abcd pms) = md5_round4 ?X (md5_round3 ?X (md5_round2 ?X (md5_round1 ?X (abcd pms))))"
    unfolding upt fold_append comp_apply md5_round1_steps md5_round2_steps md5_round3_steps md5_round4_steps ..
  then show ?thesis by (simp add: md5_process_def rfc_block_def Let_def split: prod.split)
qed

section \<open>A message in pieces\<close>

text \<open>What is left of a message after its full blocks.\<close>

definition leftover :: "md5_byte_t list \<Rightarrow> md5_byte_t list" where
  "leftover m = drop (64 * (length m div 64)) m"

lemma leftover_short: "length m < 64 \<Longrightarrow> leftover m = m" "length m < 64 \<Longrightarrow> rfc_blocks m = []"
  by (simp_all add: leftover_def rfc_blocks.simps)

lemma leftover_length: "length (leftover m) = length m mod 64"
  by (simp add: leftover_def minus_mult_div_eq_mod)

lemma rfc_blocks_append: "length a = 64 * n \<Longrightarrow> rfc_blocks (a @ b) = rfc_blocks a @ rfc_blocks b"
proof (induction n arbitrary: a)
  case 0
  then show ?case by (simp add: leftover_short)
next
  case (Suc n)
  then have "64 \<le> length a" "length (drop 64 a) = 64 * n" by simp_all
  with Suc.IH [of "drop 64 a"] show ?case by (simp add: rfc_blocks.simps [of "a @ b"] rfc_blocks.simps [of a])
qed

lemma leftover_append: "length a = 64 * n \<Longrightarrow> leftover (a @ b) = leftover b"
  by (simp add: leftover_def)

lemma rfc_hash_append: "length a = 64 * n \<Longrightarrow> rfc_hash (a @ b) = fold (\<lambda>block. rfc_block (md5_words block)) (rfc_blocks b) (rfc_hash a)"
  by (simp add: rfc_hash_def rfc_blocks_append)

lemma full_part:
  obtains a where "m = a @ leftover m" and "length a = 64 * (length m div 64)"
proof
  show "m = take (64 * (length m div 64)) m @ leftover m" by (simp add: leftover_def)
  show "length (take (64 * (length m div 64)) m) = 64 * (length m div 64)" by simp
qed

lemma md5_blocks_rfc:
  "md5_blocks p pms = (leftover p, pms\<lparr>abcd := fold (\<lambda>block. rfc_block (md5_words block)) (rfc_blocks p) (abcd pms)\<rparr>)"
proof (induction p pms rule: md5_blocks.induct)
  case (1 p pms)
  show ?case
  proof (cases "64 \<le> length p")
    case True
    have "leftover p = leftover (take 64 p @ drop 64 p)" by simp
    also have "\<dots> = leftover (drop 64 p)" using True by (intro leftover_append [where n = 1]) simp
    finally show ?thesis using 1 True
      by (simp add: md5_blocks.simps [of p] rfc_blocks.simps [of p] md5_process_rfc)
  next
    case False
    then show ?thesis by (simp add: md5_blocks.simps [of p] leftover_short)
  qed
qed

text \<open>A state that has absorbed the message \<open>m\<close>.\<close>

definition absorbed :: "md5_byte_t list \<Rightarrow> md5_state_t \<Rightarrow> bool" where
  "absorbed m pms \<longleftrightarrow> count0 pms = of_nat (8 * length m) \<and> count1 pms = of_nat (8 * length m div 2 ^ 32)
     \<and> abcd pms = rfc_hash m \<and> length (md5_buf pms) = 64 \<and> take (length m mod 64) (md5_buf pms) = leftover m"

lemma absorbed_init: "length buf = 64 \<Longrightarrow> absorbed [] (md5_init buf)"
  by (simp add: absorbed_def md5_init_def rfc_hash_def rfc_start_def T_MASK_def leftover_def rfc_blocks.simps)

lemma offset_length: "unat (drop_bit 3 (of_nat (8 * L) :: md5_word_t) AND 63) = L mod 64"
proof -
  have "drop_bit 3 (of_nat (8 * L) :: md5_word_t) AND 63 = take_bit 6 (drop_bit 3 (of_nat (8 * L)))"
    by (simp add: take_bit_eq_mask mask_eq_exp_minus_1)
  also have "unat \<dots> = unat (of_nat (8 * L) :: md5_word_t) div 8 mod 64"
    by (simp add: unat_drop_bit_eq take_bit_eq_mod drop_bit_eq_div unat_mod unat_div)
  also have "\<dots> = 8 * L mod 2 ^ 32 div 8 mod 64" by (simp only: unat_of_nat) simp
  also have "\<dots> = L mod 64"
  proof -
    have "8 * L mod 2 ^ 32 = 8 * (L mod 2 ^ 29)" using mod_mult_mult1 [of 8 L "2 ^ 29"] by simp
    moreover have "L mod 2 ^ 29 mod 64 = L mod 64" by (rule mod_mod_cancel) simp
    ultimately show ?thesis by simp
  qed
  finally show ?thesis .
qed

lemma carry_div:
  fixes M q r n :: nat
  assumes "r < M" and "n < M"
  shows "(M * q + (r + n)) div M = q + (if (M * q + (r + n)) mod M < n then 1 else 0)"
proof (cases "r + n < M")
  case True
  with assms show ?thesis by simp
next
  case False
  then obtain t where t: "r + n = M + t" using le_Suc_ex not_less by blast
  with assms have "t < M" "t < n" by linarith+
  moreover from \<open>t < M\<close> have "(M + t) div M = 1" "(M + t) mod M = t" by (simp_all add: div_if mod_if)
  ultimately show ?thesis using t by simp
qed

lemma carry_length:
  assumes "n < 2 ^ 28"
  shows "(8 * (L + n)) div 2 ^ 32 = 8 * L div 2 ^ 32 + (if (8 * (L + n)) mod 2 ^ 32 < 8 * n then 1 else 0 :: nat)"
proof -
  define M q r where "M = (2 ^ 32 :: nat)" and "q = 8 * L div M" and "r = 8 * L mod M"
  have "8 * L = M * q + r" unfolding q_def r_def by (simp only: mult_div_mod_eq)
  then have sum: "8 * (L + n) = M * q + (r + 8 * n)" by (simp add: algebra_simps)
  have "r < M" unfolding r_def M_def by simp
  moreover have "8 * n < M" using assms by (simp add: M_def)
  ultimately show ?thesis using carry_div [of r M "8 * n" q] unfolding M_def [symmetric] sum q_def [symmetric] by simp
qed

text \<open>Appending a piece makes the state absorb it.\<close>

lemma count_append:
  assumes "absorbed m pms" and "length data < 2 ^ 28"
    and "pms1 = pms\<lparr>count1 := count1 pms + of_nat (length data div 2 ^ 29), count0 := count0 pms + of_nat (8 * length data)\<rparr>"
    and "pms2 = (if count0 pms1 < of_nat (8 * length data) then pms1\<lparr>count1 := count1 pms1 + 1\<rparr> else pms1)"
  shows "count0 pms2 = of_nat (8 * length (m @ data))" and "count1 pms2 = of_nat (8 * length (m @ data) div 2 ^ 32)"
    and "abcd pms2 = abcd pms" and "md5_buf pms2 = md5_buf pms"
proof -
  let ?L = "length m" and ?n = "length data"
  have small: "?n div 2 ^ 29 = 0" using assms(2) by simp
  have c0: "count0 pms1 = of_nat (8 * (?L + ?n))" using assms(1,3) by (simp add: absorbed_def algebra_simps)
  have "unat (of_nat (8 * ?n) :: md5_word_t) = 8 * ?n" using assms(2) by (simp only: unat_of_nat) simp
  then have less: "count0 pms1 < of_nat (8 * ?n) \<longleftrightarrow> 8 * (?L + ?n) mod 2 ^ 32 < 8 * ?n"
    unfolding c0 word_less_nat_alt by (simp only: unat_of_nat) simp
  show "count0 pms2 = of_nat (8 * length (m @ data))" using c0 assms(4) by simp
  show "abcd pms2 = abcd pms" "md5_buf pms2 = md5_buf pms" using assms(3,4) by simp_all
  have "count1 pms1 = of_nat (8 * ?L div 2 ^ 32)" using assms(1,3) small by (simp add: absorbed_def)
  with assms(4) less carry_length [OF assms(2), of ?L] show "count1 pms2 = of_nat (8 * length (m @ data) div 2 ^ 32)"
    by (auto simp: split: if_splits)
qed

abbreviation hash_blocks :: "md5_byte_t list list \<Rightarrow> md5_word_t \<times> md5_word_t \<times> md5_word_t \<times> md5_word_t
    \<Rightarrow> md5_word_t \<times> md5_word_t \<times> md5_word_t \<times> md5_word_t" where
  "hash_blocks bs r \<equiv> fold (\<lambda>block. rfc_block (md5_words block)) bs r"

definition keep_left :: "md5_byte_t list \<times> md5_state_t \<Rightarrow> md5_state_t" where
  "keep_left r = (case r of (left, pms) \<Rightarrow> if left \<noteq> [] then copy_to_buf 0 left pms else pms)"

lemma keep_left_blocks:
  assumes "length (md5_buf pms) = 64" and "pms' = keep_left (md5_blocks p pms)"
  shows "abcd pms' = hash_blocks (rfc_blocks p) (abcd pms)" and "count0 pms' = count0 pms" and "count1 pms' = count1 pms"
    and "length (md5_buf pms') = 64" and "take (length (leftover p)) (md5_buf pms') = leftover p"
  using assms leftover_length [of p] by (auto simp: keep_left_def md5_blocks_rfc copy_to_buf_def)

text \<open>The message so far is full blocks and what is in the buffer.\<close>

lemma absorbed_split:
  assumes "absorbed m pms"
  shows "rfc_hash (m @ data) = hash_blocks (rfc_blocks (leftover m @ data)) (abcd pms)"
    and "leftover (m @ data) = leftover (leftover m @ data)" and "length (m @ data) mod 64 = length (leftover m @ data) mod 64"
proof -
  obtain a where a: "m = a @ leftover m" "length a = 64 * (length m div 64)" by (rule full_part)
  have m: "m @ data = a @ (leftover m @ data)" using a(1) by (metis append.assoc)
  have "length (leftover m) < 64" by (simp add: leftover_length)
  then have "rfc_hash m = rfc_hash a" using rfc_hash_append [OF a(2), of "leftover m"] a(1) by (simp add: leftover_short)
  with assms rfc_hash_append [OF a(2), of "leftover m @ data"] show "rfc_hash (m @ data) = hash_blocks (rfc_blocks (leftover m @ data)) (abcd pms)"
    unfolding m absorbed_def by simp
  show "leftover (m @ data) = leftover (leftover m @ data)" unfolding m by (rule leftover_append [OF a(2)])
  show "length (m @ data) mod 64 = length (leftover m @ data) mod 64" by (simp add: leftover_length mod_add_left_eq)
qed

lemma absorbedI:
  assumes "absorbed m pms" and "count0 pms' = of_nat (8 * length (m @ data))" and "count1 pms' = of_nat (8 * length (m @ data) div 2 ^ 32)"
    and "abcd pms' = hash_blocks (rfc_blocks (leftover m @ data)) (abcd pms)" and "length (md5_buf pms') = 64"
    and "take (length (leftover (leftover m @ data))) (md5_buf pms') = leftover (leftover m @ data)"
  shows "absorbed (m @ data) pms'"
  unfolding absorbed_def absorbed_split(1) [OF assms(1)] absorbed_split(2) [OF assms(1)] absorbed_split(3) [OF assms(1)]
  using assms(2-6) by (simp add: leftover_length)

lemma absorbed_block:
  assumes "absorbed m pms" and "length block = 64" and "leftover m @ data = block @ p"
    and "abcd pms4 = rfc_block (md5_words block) (abcd pms)" and "length (md5_buf pms4) = 64"
    and "count0 pms4 = of_nat (8 * length (m @ data))" and "count1 pms4 = of_nat (8 * length (m @ data) div 2 ^ 32)"
  shows "absorbed (m @ data) (keep_left (md5_blocks p pms4))"
proof -
  note K = keep_left_blocks [OF assms(5) refl, of p]
  have len: "length block = 64 * 1" using assms(2) by simp
  have "rfc_blocks block = [block]" using assms(2) by (simp add: rfc_blocks.simps [of block] leftover_short)
  then have "hash_blocks (rfc_blocks (leftover m @ data)) (abcd pms) = abcd (keep_left (md5_blocks p pms4))"
    unfolding assms(3) rfc_blocks_append [OF len] K(1) by (simp add: assms(4))
  moreover have "leftover (leftover m @ data) = leftover p" unfolding assms(3) by (rule leftover_append [OF len])
  ultimately show ?thesis using K assms(6,7) by (intro absorbedI [OF assms(1)]) simp_all
qed

lemma md5_append_absorbs:
  assumes "absorbed m pms" and "length data < 2 ^ 28"
  shows "\<exists>pms'. md5_append pms data = Inr pms' \<and> absorbed (m @ data) pms'"
proof (cases "data = []")
  case True
  then show ?thesis using assms(1) by (simp add: md5_append_def)
next
  case False
  define pms1 where "pms1 = pms\<lparr>count1 := count1 pms + of_nat (length data div 2 ^ 29), count0 := count0 pms + of_nat (8 * length data)\<rparr>"
  define pms2 where "pms2 = (if count0 pms1 < of_nat (8 * length data) then pms1\<lparr>count1 := count1 pms1 + 1\<rparr> else pms1)"
  note pms2 = count_append [OF assms pms1_def pms2_def]
  define k where "k = length m mod 64"
  define copy where "copy = (if k + length data > 64 then 64 - k else length data)"
  define pms3 where "pms3 = copy_to_buf k (take copy data) pms2"
  have k: "k < 64" "length (leftover m) = k" by (simp_all add: k_def leftover_length)
  have buf: "length (md5_buf pms) = 64" "take k (md5_buf pms) = leftover m" using assms(1) by (simp_all add: absorbed_def k_def)
  have offset: "unat (drop_bit 3 (count0 pms) AND 63) = k"
    using assms(1) offset_length [of "length m"] by (simp only: absorbed_def k_def)
  have append: "md5_append pms data = Inr (if k \<noteq> 0 \<and> k + copy < 64 then pms3
      else keep_left (if k \<noteq> 0 then md5_blocks (drop copy data) (md5_process pms3 (md5_buf pms3)) else md5_blocks data pms2))"
    using assms(2) False unfolding md5_append_def Let_def offset pms1_def [symmetric] pms2_def [symmetric] copy_def [symmetric]
    by (simp add: pms3_def [symmetric] copy_def [symmetric] keep_left_def split: prod.split)
  have buf3: "k + length (take copy data) \<le> 64" "md5_buf pms3 = leftover m @ take copy data @ drop (k + length (take copy data)) (md5_buf pms)"
    "abcd pms3 = abcd pms" "count0 pms3 = count0 pms2" "count1 pms3 = count1 pms2"
    using k buf pms2 by (auto simp: pms3_def copy_to_buf_def copy_def)
  consider (aligned) "k = 0" | (inside) "k \<noteq> 0" "k + length data < 64" | (fills) "k \<noteq> 0" "64 \<le> k + length data" by linarith
  then show ?thesis
  proof cases
    case aligned
    then have l: "leftover m = []" using k by simp
    note K = keep_left_blocks [OF _ refl, of pms2 data]
    have "absorbed (m @ data) (keep_left (md5_blocks data pms2))"
      by (rule absorbedI [OF assms(1)]) (simp_all add: K pms2 buf l)
    with append aligned show ?thesis by simp
  next
    case inside
    then have copy: "copy = length data" by (simp add: copy_def)
    have short: "length (leftover m @ data) < 64" using inside k by simp
    have "absorbed (m @ data) pms3"
      using leftover_short [OF short] buf3 k buf pms2 by (intro absorbedI [OF assms(1)]) (simp_all add: copy)
    with append inside copy show ?thesis by simp
  next
    case fills
    then have copy: "copy = 64 - k" by (auto simp: copy_def)
    let ?block = "leftover m @ take copy data"
    have len: "length ?block = 64" using fills k copy by simp
    have buf4: "md5_buf pms3 = ?block" unfolding buf3(2) using fills copy k buf(1) by simp
    have "absorbed (m @ data) (keep_left (md5_blocks (drop copy data) (md5_process pms3 ?block)))"
      by (rule absorbed_block [OF assms(1) len]) (simp_all add: md5_process_rfc buf3(3-5) pms2 buf4 len [simplified])
    with append fills copy buf4 show ?thesis by auto
  qed
qed

section \<open>Padding and the digest\<close>

lemma pad_length: "unat ((55 - drop_bit 3 (of_nat (8 * L) :: md5_word_t)) AND 63) = (119 - L mod 64) mod 64"
proof -
  let ?w = "drop_bit 3 (of_nat (8 * L) :: md5_word_t)"
  have "unat ?w = 8 * L mod 2 ^ 32 div 8" by (simp only: unat_drop_bit_eq unat_of_nat) (simp add: drop_bit_eq_div)
  also have "8 * L mod 2 ^ 32 = 8 * (L mod 2 ^ 29)" using mod_mult_mult1 [of 8 L "2 ^ 29"] by simp
  finally have "int (unat ?w) = int (L mod 2 ^ 29)" by simp
  then have w: "uint ?w = int L mod 2 ^ 29" by (simp only: int_nat_eq unat_eq_nat_uint zmod_int) simp
  have "(55 - ?w) AND 63 = take_bit 6 (55 - ?w)" by (simp add: take_bit_eq_mask mask_eq_exp_minus_1)
  then have "uint ((55 - ?w) AND 63) = take_bit 6 (uint (55 - ?w))" by (simp add: unsigned_take_bit_eq)
  also have "\<dots> = (55 - uint ?w) mod 2 ^ 32 mod 64" by (simp add: take_bit_eq_mod uint_word_ariths)
  also have "\<dots> = (55 - int L mod 2 ^ 29) mod 64" unfolding w by (rule mod_mod_cancel) simp
  also have "\<dots> = (119 - int L mod 64) mod 64"
  proof -
    have "(55 - int L mod 2 ^ 29) mod 64 = (55 - int L mod 2 ^ 29 mod 64) mod 64" by (rule mod_diff_right_eq [symmetric])
    also have "int L mod 2 ^ 29 mod 64 = int L mod 64" by (rule mod_mod_cancel) simp
    also have "(55 - int L mod 64) mod 64 = (55 - int L mod 64 + 64) mod 64" by (rule mod_add_self2 [symmetric])
    also have "55 - int L mod 64 + 64 = 119 - int L mod 64" by linarith
    finally show ?thesis .
  qed
  also have "\<dots> = int ((119 - L mod 64) mod 64)" by (simp add: zmod_int of_nat_diff)
  finally show ?thesis by (simp add: unat_eq_nat_uint)
qed

lemma byte_of_nat: "i < 4 \<Longrightarrow> ucast (drop_bit (8 * i) (of_nat x :: md5_word_t)) = (of_nat (x div 256 ^ i) :: md5_byte_t)"
proof (rule bit_word_eqI)
  fix j
  assume "i < 4" and "j < LENGTH(8)"
  then have "8 * i + j < 32" "j < 8" by simp_all
  moreover have "x div 256 ^ i = drop_bit (8 * i) x" by (simp add: drop_bit_eq_div power_mult)
  ultimately show "bit (ucast (drop_bit (8 * i) (of_nat x :: md5_word_t)) :: md5_byte_t) j = bit (of_nat (x div 256 ^ i) :: md5_byte_t) j"
    by (simp add: bit_simps)
qed

lemma word_bytes_of_nat: "word_bytes (of_nat x) = map (\<lambda>i. of_nat (x div 256 ^ i)) [0 ..< 4]"
  unfolding word_bytes_def by (rule map_cong) (simp_all add: byte_of_nat)

lemma length_bytes:
  "word_bytes (of_nat x) @ word_bytes (of_nat (x div 2 ^ 32)) = map (\<lambda>i. of_nat (x div 256 ^ i)) [0 ..< 8]"
proof -
  have "x div 2 ^ 32 div 256 ^ i = x div 256 ^ (i + 4)" for i by (simp add: div_mult2_eq [symmetric] power_add mult.commute)
  then have "word_bytes (of_nat (x div 2 ^ 32)) = map (\<lambda>i. of_nat (x div 256 ^ (i + 4))) [0 ..< 4]" by (simp only: word_bytes_of_nat)
  also have "\<dots> = map (\<lambda>i. of_nat (x div 256 ^ i)) [4 ..< 8]" by (simp add: upt_rec)
  finally show ?thesis by (simp only: word_bytes_of_nat flip: map_append) (simp add: upt_add_eq_append [of 0 4 4, simplified])
qed

lemma md5_finish_rfc:
  assumes "absorbed m pms"
  shows "\<exists>pms'. md5_finish pms = Inr (pms', rfc_md5 m)"
proof -
  define n where "n = (119 - length m mod 64) mod 64"
  have n: "n < 64" by (simp add: n_def)
  define pad where "pad = take (n + 1) md5_pad"
  define data where "data = word_bytes (count0 pms) @ word_bytes (count1 pms)"
  have c: "count0 pms = of_nat (8 * length m)" "count1 pms = of_nat (8 * length m div 2 ^ 32)" using assms by (simp_all add: absorbed_def)
  have pad: "pad = 0x80 # replicate n 0" using n by (simp add: pad_def md5_pad_def min_def)
  have data: "data = map (\<lambda>i. of_nat (8 * length m div 256 ^ i)) [0 ..< 8]" unfolding data_def c by (rule length_bytes)
  have "length pad < 2 ^ 28" "length data < 2 ^ 28" using n by (simp_all add: pad data)
  then obtain pms1 pms2 where pms1: "md5_append pms pad = Inr pms1" "absorbed (m @ pad) pms1"
    and pms2: "md5_append pms1 data = Inr pms2" "absorbed ((m @ pad) @ data) pms2"
    using md5_append_absorbs [OF assms, of pad] md5_append_absorbs [of "m @ pad" _ data] by blast
  have "(m @ pad) @ data = rfc_padded m" by (simp add: rfc_padded_def pad data n_def)
  with pms2(2) have hash: "abcd pms2 = rfc_hash (rfc_padded m)" by (simp add: absorbed_def)
  have "unat ((55 - drop_bit 3 (count0 pms)) AND 63) = n" unfolding c n_def by (rule pad_length)
  then have "md5_finish pms = rbind (md5_append pms pad) (\<lambda>pms1. rbind (md5_append pms1 data) (\<lambda>pms2.
        case abcd pms2 of (a, b, c, d) \<Rightarrow> Inr (pms2, word_bytes a @ word_bytes b @ word_bytes c @ word_bytes d)))"
    unfolding md5_finish_def Let_def pad_def data_def by simp
  then show ?thesis unfolding pms1(1) rbind_simps pms2(1) hash rfc_md5_def by (auto split: prod.split)
qed

fun md5_appends :: "md5_byte_t list list \<Rightarrow> md5_state_t \<Rightarrow> md5_state_t result" where
  "md5_appends [] pms = Inr pms"
| "md5_appends (data # ds) pms = rbind (md5_append pms data) (md5_appends ds)"

lemma md5_appends_absorb:
  "absorbed m pms \<Longrightarrow> list_all (\<lambda>d. length d < 2 ^ 28) ds \<Longrightarrow> \<exists>pms'. md5_appends ds pms = Inr pms' \<and> absorbed (m @ concat ds) pms'"
proof (induction ds arbitrary: m pms)
  case (Cons d ds)
  then obtain pms1 where "md5_append pms d = Inr pms1" "absorbed (m @ d) pms1" using md5_append_absorbs [of m pms d] by auto
  with Cons.IH [of "m @ d" pms1] Cons.prems(2) show ?case by simp
qed simp

text \<open>
  C14: the digest is that of RFC 1321.  However a message of any length is cut into pieces of less than \<open>2 ^ 28\<close> bytes, and
  whatever the buffer held before, \<open>md5_init\<close>, \<open>md5_append\<close> for the pieces and \<open>md5_finish\<close> succeed and return the
  digest that the standard defines for the whole message.
\<close>

theorem md5_correct:
  assumes "length buf = 64" and "list_all (\<lambda>d. length d < 2 ^ 28) ds"
  shows "\<exists>pms'. rbind (md5_appends ds (md5_init buf)) md5_finish = Inr (pms', rfc_md5 (concat ds))"
proof -
  obtain pms where "md5_appends ds (md5_init buf) = Inr pms" "absorbed (concat ds) pms"
    using md5_appends_absorb [OF absorbed_init [OF assms(1)] assms(2)] by auto
  with md5_finish_rfc [OF this(2)] show ?thesis by simp
qed

theorem md5_correct_witness:
  "\<exists>pms'. rbind (md5_appends [[0x61], [0x62, 0x63]] (md5_init (replicate 64 0))) md5_finish = Inr (pms', rfc_md5 [0x61, 0x62, 0x63])"
  using md5_correct [of "replicate 64 0" "[[0x61], [0x62, 0x63]]"] by simp

end
