(* ===== verification/TablePrinter.thy ===== *)
theory TablePrinter
  imports Prelude
begin

text \<open>
  Tables in the log: \<open>Utils/JTablePrinter.h\<close> and \<open>.cc\<close>.  Widths are \<open>int\<close>; where the code mixes them with
  \<open>size_t\<close> the conversions are written out.
\<close>

section \<open>Splitting the contents of a cell\<close>

definition substr :: "string \<Rightarrow> nat \<Rightarrow> nat \<Rightarrow> string" where
  "substr s pos n = take n (drop pos s)"

function split_newlines_loop :: "string \<Rightarrow> nat \<Rightarrow> nat \<Rightarrow> string list \<Rightarrow> string list" where
  "split_newlines_loop contents line_start line_end acc =
     (if line_end < length contents then
        if contents ! line_end = CHR 0x0A
        then split_newlines_loop contents (line_end + 1) (line_end + 1 + 1) (acc @ [substr contents line_start (line_end - line_start)])
        else split_newlines_loop contents line_start (line_end + 1) acc
      else acc @ [substr contents line_start (length contents - line_start)])"
  by pat_completeness auto

termination split_newlines_loop
  by (relation "measure (\<lambda>(contents, line_start, line_end, acc). length contents - line_end)") auto

declare split_newlines_loop.simps [simp del]

definition SplitContentsByNewlines :: "string \<Rightarrow> string list" where
  "SplitContentsByNewlines contents = split_newlines_loop contents 0 0 []"

text \<open>The loop over the characters: the start of the piece, the last blank in it, and the pieces so far.\<close>

definition space_step :: "string \<Rightarrow> nat \<Rightarrow> nat \<Rightarrow> nat \<times> nat \<times> string list \<Rightarrow> nat \<times> nat \<times> string list" where
  "space_step contents max_width i st =
     (case st of (split_start, split_end0, acc) \<Rightarrow>
        let split_end = (if contents ! i = CHR 0x20 then i else split_end0) in
        if i - split_start = max_width
        then
          if split_end = split_start
          then (i, i, acc @ [substr contents split_start (i - split_start)])
          else (split_end + 1, split_end + 1, acc @ [substr contents split_start (split_end - split_start)])
        else (split_start, split_end, acc))"

definition SplitContentsBySpaces :: "string \<Rightarrow> nat \<Rightarrow> string list" where
  "SplitContentsBySpaces contents max_width =
     (if length contents \<le> max_width then [contents]
      else
        case fold (space_step contents max_width) [0 ..< length contents] (0, 0, []) of
          (split_start, split_end, acc) \<Rightarrow> acc @ [substr contents split_start (length contents - split_start)])"

definition SplitContents :: "string \<Rightarrow> nat \<Rightarrow> string list" where
  "SplitContents contents max_width =
     (if max_width = 0 then SplitContentsByNewlines contents
      else concat (map (\<lambda>s. SplitContentsBySpaces s max_width) (SplitContentsByNewlines contents)))"

section \<open>Tables\<close>

datatype Justify = JustifyLeft | JustifyCenter | JustifyRight

datatype RuleStyle = RuleAcross | RuleBroken | RuleNone

record Column =
  col_header :: string
  col_values :: "string list"
  col_justify :: Justify
  desired_width :: int
  contents_width :: int
  use_desired_width :: bool

record JTablePrinter =
  tp_columns :: "Column list"
  top_rule :: RuleStyle
  header_rule :: RuleStyle
  bottom_rule :: RuleStyle
  tp_indent :: int
  cell_margin :: int
  vertical_padding :: bool
  current_column :: nat
  current_row :: nat

definition new_JTablePrinter :: JTablePrinter where
  "new_JTablePrinter =
     \<lparr>tp_columns = [], top_rule = RuleAcross, header_rule = RuleBroken, bottom_rule = RuleAcross, tp_indent = 2, cell_margin = 2,
      vertical_padding = False, current_column = 0, current_row = 0\<rparr>"

definition AddColumn :: "string \<Rightarrow> Justify \<Rightarrow> int \<Rightarrow> JTablePrinter \<Rightarrow> JTablePrinter" where
  "AddColumn header justify width t =
     t\<lparr>tp_columns := tp_columns t @
        [\<lparr>col_header = header, col_values = [], col_justify = justify, desired_width = width,
          contents_width = int (length header), use_desired_width = (width \<noteq> 0)\<rparr>]\<rparr>"

definition size_of_int :: "int \<Rightarrow> nat" where
  "size_of_int i = nat (i mod int size_mod)"

definition int_of_size :: "nat \<Rightarrow> int" where
  "int_of_size n = (int n + 2 ^ 31) mod 2 ^ 32 - 2 ^ 31"

text \<open>\<open>operator|\<close>, which fills the table row by row; the index of the column is not checked.\<close>

definition put_cell :: "string \<Rightarrow> JTablePrinter \<Rightarrow> JTablePrinter result" where
  "put_cell cell t =
     (if current_column t < length (tp_columns t) then
        let len = length cell;
            col = tp_columns t ! current_column t;
            col1 = (if size_of_int (contents_width col) < len then col\<lparr>contents_width := int_of_size len\<rparr> else col);
            padding = (vertical_padding t \<or> (size_of_int (desired_width col) < len \<and> desired_width col \<noteq> 0));
            col2 = col1\<lparr>col_values := col_values col1 @ [cell]\<rparr>;
            t1 = t\<lparr>tp_columns := (tp_columns t)[current_column t := col2], vertical_padding := padding,
                   current_column := current_column t + 1\<rparr> in
        Inr (if length (tp_columns t1) \<le> current_column t1 then t1\<lparr>current_column := 0, current_row := current_row t1 + 1\<rparr> else t1)
      else Inl (UndefinedBehaviour ''columns index''))"

definition blanks :: "int \<Rightarrow> string" where
  "blanks n = replicate (nat n) (CHR 0x20)"

definition FormatLine :: "string \<Rightarrow> int \<Rightarrow> Justify \<Rightarrow> string" where
  "FormatLine contents max_width justify =
     (let cs = length contents in
      case justify of
        JustifyLeft \<Rightarrow> contents @ blanks (max_width - int cs)
      | JustifyRight \<Rightarrow> blanks (max_width - int cs) @ contents
      | JustifyCenter \<Rightarrow>
          let space = sz_sub (size_of_int max_width) cs;
              lpad = int_of_size (space div 2);
              rpad = int_of_size (sz_sub space (size_of_int lpad)) in
          blanks lpad @ contents @ blanks rpad)"

definition column_width :: "Column \<Rightarrow> int" where
  "column_width col = (if use_desired_width col then desired_width col else contents_width col)"

definition dashes :: "int \<Rightarrow> string" where
  "dashes n = replicate (nat n) (CHR ''-'')"

definition table_width :: "JTablePrinter \<Rightarrow> int" where
  "table_width t = sum_list (map column_width (tp_columns t)) + (int (length (tp_columns t)) - 1) * cell_margin t"

definition broken_rule :: "JTablePrinter \<Rightarrow> string" where
  "broken_rule t = blanks (tp_indent t) @ concat (map (\<lambda>col. dashes (column_width col) @ blanks (cell_margin t)) (tp_columns t))"

definition table_rule :: "RuleStyle \<Rightarrow> JTablePrinter \<Rightarrow> string list" where
  "table_rule style t = (case style of
     RuleBroken \<Rightarrow> [broken_rule t] | RuleAcross \<Rightarrow> [blanks (tp_indent t) @ dashes (table_width t)] | RuleNone \<Rightarrow> [])"

definition heading_line :: "JTablePrinter \<Rightarrow> string" where
  "heading_line t =
     blanks (tp_indent t)
     @ concat (map (\<lambda>col. FormatLine (col_header col) (column_width col) JustifyCenter @ blanks (cell_margin t)) (tp_columns t))"

text \<open>The lines of a row: each column has the lines of its cell, and the shorter ones are filled up with empty lines.\<close>

definition cell_lines :: "nat \<Rightarrow> Column \<Rightarrow> string list result" where
  "cell_lines row col =
     (if row < length (col_values col) then Inr (SplitContents (col_values col ! row) (size_of_int (desired_width col)))
      else Inl (UndefinedBehaviour ''values index''))"

fun all_cells :: "nat \<Rightarrow> Column list \<Rightarrow> string list list result" where
  "all_cells row [] = Inr []"
| "all_cells row (col # cols) = rbind (cell_lines row col) (\<lambda>ls. rbind (all_cells row cols) (\<lambda>rest. Inr (ls # rest)))"

definition row_line :: "JTablePrinter \<Rightarrow> string list list \<Rightarrow> nat \<Rightarrow> string" where
  "row_line t cells line =
     blanks (tp_indent t)
     @ concat (map (\<lambda>(col, ls). FormatLine (if line < length ls then ls ! line else []) (column_width col) (col_justify col)
                      @ blanks (cell_margin t))
                 (zip (tp_columns t) cells))"

definition row_lines :: "JTablePrinter \<Rightarrow> nat \<Rightarrow> string list result" where
  "row_lines t row =
     rbind (all_cells row (tp_columns t)) (\<lambda>cells.
       let line_count = fold (\<lambda>ls n. if length ls > n then length ls else n) cells 1 + (if vertical_padding t then 1 else 0) in
       Inr (map (row_line t cells) [0 ..< line_count]))"

fun all_rows :: "JTablePrinter \<Rightarrow> nat list \<Rightarrow> string list result" where
  "all_rows t [] = Inr []"
| "all_rows t (row # rows) = rbind (row_lines t row) (\<lambda>ls. rbind (all_rows t rows) (\<lambda>rest. Inr (ls @ rest)))"

text \<open>\<open>Render\<close>, as the list of its lines.\<close>

definition Render :: "JTablePrinter \<Rightarrow> string list result" where
  "Render t =
     rbind (all_rows t [0 ..< current_row t]) (\<lambda>rows.
       Inr (table_rule (top_rule t) t @ [heading_line t] @ table_rule (header_rule t) t @ rows @ table_rule (bottom_rule t) t))"

section \<open>Nothing is lost when a cell is split\<close>

text \<open>The pieces make up the contents again, if at each break nothing or one blank is put back.\<close>

fun rejoins :: "string list \<Rightarrow> string \<Rightarrow> bool" where
  "rejoins [] s \<longleftrightarrow> s = []"
| "rejoins [p] s \<longleftrightarrow> p = s"
| "rejoins (p # ps) s \<longleftrightarrow> take (length p) s = p
     \<and> (rejoins ps (drop (length p) s) \<or> (drop (length p) s \<noteq> [] \<and> hd (drop (length p) s) = CHR 0x20 \<and> rejoins ps (drop (length p + 1) s)))"

text \<open>The pieces so far and the position up to which they reach.\<close>

inductive pieces_upto :: "string \<Rightarrow> string list \<Rightarrow> nat \<Rightarrow> bool" for s :: string where
  upto_start: "pieces_upto s [] 0"
| upto_cut: "pieces_upto s acc k \<Longrightarrow> k \<le> e \<Longrightarrow> e \<le> length s \<Longrightarrow> pieces_upto s (acc @ [substr s k (e - k)]) e"
| upto_blank: "pieces_upto s acc k \<Longrightarrow> k \<le> e \<Longrightarrow> e < length s \<Longrightarrow> s ! e = CHR 0x20 \<Longrightarrow> pieces_upto s (acc @ [substr s k (e - k)]) (e + 1)"

lemma rejoins_cut: "ps \<noteq> [] \<Longrightarrow> rejoins ps (drop (length p) s) \<Longrightarrow> take (length p) s = p \<Longrightarrow> rejoins (p # ps) s"
  by (cases ps) simp_all

lemma rejoins_blank:
  "ps \<noteq> [] \<Longrightarrow> rejoins ps (drop (length p + 1) s) \<Longrightarrow> take (length p) s = p \<Longrightarrow> length p < length s \<Longrightarrow> s ! length p = CHR 0x20
    \<Longrightarrow> rejoins (p # ps) s"
  by (cases ps) (simp_all add: hd_drop_conv_nth)

lemma pieces_rejoin: "pieces_upto s acc k \<Longrightarrow> ps \<noteq> [] \<Longrightarrow> rejoins ps (drop k s) \<Longrightarrow> rejoins (acc @ ps) s"
proof (induction arbitrary: ps rule: pieces_upto.induct)
  case (upto_cut acc k e)
  have "rejoins (substr s k (e - k) # ps) (drop k s)"
    using upto_cut by (intro rejoins_cut) (simp_all add: substr_def)
  from upto_cut.IH [OF _ this] show ?case by simp
next
  case (upto_blank acc k e)
  have "rejoins (substr s k (e - k) # ps) (drop k s)"
    using upto_blank by (intro rejoins_blank) (simp_all add: substr_def)
  from upto_blank.IH [OF _ this] show ?case by simp
qed simp

definition wrapping :: "string \<Rightarrow> nat \<Rightarrow> nat \<Rightarrow> nat \<times> nat \<times> string list \<Rightarrow> bool" where
  "wrapping s w i st = (case st of (k, e, acc) \<Rightarrow>
     pieces_upto s acc k \<and> list_all (\<lambda>p. length p \<le> w) acc \<and> k \<le> i \<and> i \<le> k + w \<and> k \<le> e \<and> (e \<noteq> k \<longrightarrow> e < i \<and> s ! e = CHR 0x20))"

lemma wrapping_step:
  assumes "wrapping s w i st" and "i < length s" and "0 < w"
  shows "wrapping s w (Suc i) (space_step s w i st)"
proof -
  obtain k e0 acc where st: "st = (k, e0, acc)" by (cases st)
  define e where "e = (if s ! i = CHR 0x20 then i else e0)"
  have inv: "pieces_upto s acc k" "list_all (\<lambda>p. length p \<le> w) acc" "k \<le> i" "i \<le> k + w" "k \<le> e" "e \<noteq> k \<longrightarrow> e \<le> i \<and> s ! e = CHR 0x20"
    using assms(1) by (auto simp: wrapping_def st e_def)
  have step: "space_step s w i st = (if i - k = w then if e = k then (i, i, acc @ [substr s k (i - k)])
      else (e + 1, e + 1, acc @ [substr s k (e - k)]) else (k, e, acc))"
    unfolding space_step_def st e_def Let_def by simp
  consider (go) "i - k \<noteq> w" | (cut) "i - k = w" "e = k" | (blank) "i - k = w" "e \<noteq> k" by blast
  then show ?thesis
  proof cases
    case go
    with inv show ?thesis by (auto simp: step wrapping_def)
  next
    case cut
    then have "pieces_upto s (acc @ [substr s k (i - k)]) i" using inv assms(2) by (intro upto_cut) auto
    with cut inv assms show ?thesis by (auto simp: step wrapping_def substr_def)
  next
    case blank
    then have "pieces_upto s (acc @ [substr s k (e - k)]) (e + 1)" using inv assms(2) by (intro upto_blank) auto
    with blank inv assms show ?thesis by (auto simp: step wrapping_def substr_def)
  qed
qed

lemma wrapping_fold: "n \<le> length s \<Longrightarrow> 0 < w \<Longrightarrow> wrapping s w n (fold (space_step s w) [0 ..< n] (0, 0, []))"
proof (induction n)
  case 0
  show ?case by (simp add: wrapping_def upto_start)
next
  case (Suc n)
  then show ?case using wrapping_step [of s w n "fold (space_step s w) [0 ..< n] (0, 0, [])"] by simp
qed

lemma split_spaces_fit:
  assumes "0 < w"
  shows "list_all (\<lambda>p. length p \<le> w) (SplitContentsBySpaces s w) \<and> rejoins (SplitContentsBySpaces s w) s"
proof (cases "length s \<le> w")
  case False
  obtain k e acc where st: "fold (space_step s w) [0 ..< length s] (0, 0, []) = (k, e, acc)" by (rule prod_cases3)
  have inv: "pieces_upto s acc k" "list_all (\<lambda>p. length p \<le> w) acc" "k \<le> length s" "length s \<le> k + w"
    using wrapping_fold [of "length s" s w] assms by (simp_all add: st wrapping_def)
  have "rejoins (acc @ [substr s k (length s - k)]) s" by (rule pieces_rejoin [OF inv(1)]) (simp_all add: substr_def)
  with inv False st show ?thesis by (simp add: SplitContentsBySpaces_def substr_def)
qed (simp add: SplitContentsBySpaces_def)

text \<open>
  Wrapping a cell.  For every positive width, each piece into which the contents are split fits into the width, and
  putting the pieces together gives the contents back, up to one blank at a break.
\<close>

theorem cell_wraps:
  assumes "0 < max_width"
  shows "list_all (\<lambda>p. length p \<le> max_width) (SplitContentsBySpaces contents max_width) \<and> rejoins (SplitContentsBySpaces contents max_width) contents"
  using split_spaces_fit [OF assms] .

theorem cell_wraps_witness: "list_all (\<lambda>p. length p \<le> 4) (SplitContentsBySpaces ''one two three'' 4)"
  using cell_wraps [of 4 "''one two three''"] by simp

section \<open>Newlines\<close>

abbreviation nl :: char where
  "nl \<equiv> CHR 0x0A"

text \<open>The loop without indices: the character after a newline is taken without being looked at.\<close>

fun newline_scan :: "string \<Rightarrow> string \<Rightarrow> string list" where
  "newline_scan cur [] = [cur]"
| "newline_scan cur (c # s) =
     (if c = nl then cur # (case s of [] \<Rightarrow> [[]] | d # s' \<Rightarrow> newline_scan [d] s') else newline_scan (cur @ [c]) s)"

lemma substr_more: "ls \<le> le \<Longrightarrow> le < length s \<Longrightarrow> substr s ls (Suc le - ls) = substr s ls (le - ls) @ [s ! le]"
  by (simp add: substr_def Suc_diff_le take_Suc_conv_app_nth)

lemma split_newlines_end: "length s \<le> le \<Longrightarrow> split_newlines_loop s ls le acc = acc @ [substr s ls (length s - ls)]"
  by (subst split_newlines_loop.simps) simp

lemma split_newlines_scan:
  "ls \<le> le \<Longrightarrow> le \<le> length s \<Longrightarrow> split_newlines_loop s ls le acc = acc @ newline_scan (substr s ls (le - ls)) (drop le s)"
proof (induction s ls le acc rule: split_newlines_loop.induct)
  case (1 s ls le acc)
  show ?case
  proof (cases "le < length s")
    case False
    with 1(4) show ?thesis by (simp add: split_newlines_end)
  next
    case True
    then have d: "drop le s = s ! le # drop (Suc le) s" by (rule Cons_nth_drop_Suc [symmetric])
    consider (plain) "s ! le \<noteq> nl" | (last) "s ! le = nl" "Suc le = length s" | (more) "s ! le = nl" "Suc le < length s"
      using True by linarith
    then show ?thesis
    proof cases
      case plain
      with 1(2) True 1(3) show ?thesis by (simp add: split_newlines_loop.simps [of s ls le] d substr_more)
    next
      case last
      then have "split_newlines_loop s (le + 1) (le + 1 + 1) ps = ps @ [[]]" for ps
        by (simp add: split_newlines_end substr_def)
      with True last show ?thesis by (simp add: split_newlines_loop.simps [of s ls le] d)
    next
      case more
      then have "drop (Suc le) s = s ! Suc le # drop (Suc (Suc le)) s" by (simp add: Cons_nth_drop_Suc)
      moreover have "substr s (le + 1) (le + 1 + 1 - (le + 1)) = [s ! Suc le]" using more by (simp add: substr_def take_Suc_conv_app_nth)
      ultimately show ?thesis using 1(1) [OF True more(1)] True more by (simp add: split_newlines_loop.simps [of s ls le] d)
    qed
  qed
qed

fun join_lines :: "string list \<Rightarrow> string" where
  "join_lines [] = []"
| "join_lines [l] = l"
| "join_lines (l # ls) = l @ nl # join_lines ls"

fun double_newline :: "string \<Rightarrow> bool" where
  "double_newline (c # d # s) \<longleftrightarrow> c = nl \<and> d = nl \<or> double_newline (d # s)"
| "double_newline s \<longleftrightarrow> False"

lemma join_lines_Cons: "ls \<noteq> [] \<Longrightarrow> join_lines (l # ls) = l @ nl # join_lines ls"
  by (cases ls) simp_all

lemma newline_scan_not_Nil: "newline_scan cur s \<noteq> []"
  by (induction cur s rule: newline_scan.induct) (auto split: list.split)

lemma newline_scan_join: "join_lines (newline_scan cur s) = cur @ s"
proof (induction cur s rule: newline_scan.induct)
  case (2 cur c s)
  then show ?case by (cases s) (auto simp: join_lines_Cons newline_scan_not_Nil)
qed simp

lemma newline_scan_double: "list_ex (\<lambda>l. nl \<in> set l) (newline_scan cur s) \<longleftrightarrow> nl \<in> set cur \<or> double_newline s"
proof (induction cur s rule: newline_scan.induct)
  case (2 cur c s)
  show ?case
  proof (cases "c = nl")
    case False
    have "double_newline (c # s) = double_newline s" using False by (cases s) simp_all
    with 2(2) [OF False] False show ?thesis by simp
  next
    case True
    show ?thesis
    proof (cases s)
      case (Cons d s')
      have "d \<noteq> nl \<Longrightarrow> double_newline (d # s') = double_newline s'" by (cases s') simp_all
      with 2(1) [OF True Cons] True Cons show ?thesis by auto
    qed (simp add: True)
  qed
qed simp

text \<open>
  Splitting a cell at its newlines keeps every character, but misses a newline that follows another one: the
  lines are free of newlines exactly when the contents have no two newlines in a row.
\<close>

theorem newline_split:
  "join_lines (SplitContentsByNewlines contents) = contents
    \<and> (list_ex (\<lambda>l. nl \<in> set l) (SplitContentsByNewlines contents) \<longleftrightarrow> double_newline contents)"
  using split_newlines_scan [of 0 0 contents "[]"] newline_scan_join [of "[]"] newline_scan_double [of "[]"]
  by (simp add: SplitContentsByNewlines_def substr_def)

section \<open>Tables are aligned\<close>

definition col_ok :: "Column \<Rightarrow> bool" where
  "col_ok col \<longleftrightarrow> use_desired_width col = (desired_width col \<noteq> 0) \<and> 0 \<le> desired_width col \<and> column_width col < 2 ^ 31
     \<and> 0 \<le> contents_width col \<and> contents_width col < 2 ^ 31 \<and> int (length (col_header col)) \<le> column_width col
     \<and> list_all (\<lambda>v. nl \<notin> set v \<and> int (length v) \<le> contents_width col) (col_values col)"

definition table_ok :: "JTablePrinter \<Rightarrow> bool" where
  "table_ok t \<longleftrightarrow> 0 \<le> tp_indent t \<and> 0 \<le> cell_margin t \<and> list_all col_ok (tp_columns t) \<and> current_column t < length (tp_columns t)
     \<and> map (\<lambda>col. length (col_values col)) (tp_columns t)
       = replicate (current_column t) (Suc (current_row t)) @ replicate (length (tp_columns t) - current_column t) (current_row t)"

lemma int_of_size_id: "n < 2 ^ 31 \<Longrightarrow> int_of_size n = int n"
  by (simp add: int_of_size_def)

lemma size_of_int_id: "0 \<le> i \<Longrightarrow> i < 2 ^ 31 \<Longrightarrow> size_of_int i = nat i"
  by (simp add: size_of_int_def size_mod_def)

lemma format_width:
  assumes "int (length s) \<le> w" and "w < 2 ^ 31"
  shows "int (length (FormatLine s w j)) = w"
proof (cases j)
  case JustifyCenter
  define n where "n = nat w - length s"
  have "sz_sub (nat w) (length s) = n" using assms by (simp add: sz_sub_exact size_mod_def n_def)
  moreover have "int_of_size (n div 2) = int (n div 2)" using assms by (intro int_of_size_id) (simp add: n_def)
  moreover have "size_of_int (int (n div 2)) = n div 2" using assms by (subst size_of_int_id) (auto simp: n_def)
  moreover have "sz_sub n (n div 2) = n - n div 2" using assms by (intro sz_sub_exact) (auto simp: n_def size_mod_def)
  moreover have "int_of_size (n - n div 2) = int (n - n div 2)" using assms by (intro int_of_size_id) (simp add: n_def)
  moreover have "size_of_int w = nat w" using assms by (intro size_of_int_id) auto
  ultimately have "length (FormatLine s w j) = n div 2 + (length s + (n - n div 2))"
    using JustifyCenter by (simp add: FormatLine_def Let_def blanks_def nat_diff_distrib)
  moreover have "n div 2 + (length s + (n - n div 2)) = length s + n" by simp
  ultimately show ?thesis using assms by (simp add: n_def)
qed (use assms in \<open>simp_all add: FormatLine_def blanks_def\<close>)

lemma format_empty: "0 \<le> w \<Longrightarrow> w < 2 ^ 31 \<Longrightarrow> int (length (FormatLine [] w j)) = w"
  by (rule format_width) simp_all

text \<open>The lines of a cell fit into its column.\<close>

lemma newline_scan_single: "nl \<notin> set s \<Longrightarrow> newline_scan cur s = [cur @ s]"
  by (induction cur s rule: newline_scan.induct) auto

lemma split_single: "nl \<notin> set s \<Longrightarrow> SplitContentsByNewlines s = [s]"
  using split_newlines_scan [of 0 0 s "[]"] newline_scan_single [of s "[]"] by (simp add: SplitContentsByNewlines_def substr_def)

lemma cell_lines_fit:
  assumes "col_ok col" and "row < length (col_values col)"
  shows "\<exists>ls. cell_lines row col = Inr ls \<and> list_all (\<lambda>l. int (length l) \<le> column_width col) ls"
proof -
  let ?v = "col_values col ! row"
  have v: "nl \<notin> set ?v" "int (length ?v) \<le> contents_width col" using assms by (auto simp: col_ok_def list_all_length)
  show ?thesis
  proof (cases "desired_width col = 0")
    case True
    with assms v show ?thesis by (simp add: cell_lines_def SplitContents_def size_of_int_def split_single col_ok_def column_width_def)
  next
    case False
    then have w: "size_of_int (desired_width col) = nat (desired_width col)" "0 < nat (desired_width col)" "column_width col = desired_width col"
      using assms(1) by (auto simp: col_ok_def column_width_def size_of_int_id)
    have "list_all (\<lambda>p. int (length p) \<le> column_width col) (SplitContentsBySpaces ?v (nat (desired_width col)))"
      using split_spaces_fit [OF w(2), of ?v] w(2,3) by (auto simp: list_all_iff le_nat_iff)
    with assms(2) v w show ?thesis by (simp add: cell_lines_def SplitContents_def split_single)
  qed
qed

lemma all_cells_fit:
  "list_all col_ok cols \<Longrightarrow> list_all (\<lambda>col. row < length (col_values col)) cols \<Longrightarrow>
     \<exists>cells. all_cells row cols = Inr cells \<and> list_all2 (\<lambda>col ls. list_all (\<lambda>l. int (length l) \<le> column_width col) ls) cols cells"
proof (induction cols)
  case (Cons col cols)
  then obtain ls cells where "cell_lines row col = Inr ls" "list_all (\<lambda>l. int (length l) \<le> column_width col) ls"
    "all_cells row cols = Inr cells" "list_all2 (\<lambda>col ls. list_all (\<lambda>l. int (length l) \<le> column_width col) ls) cols cells"
    using cell_lines_fit [of col row] by auto
  then show ?case by simp
qed simp

definition line_width :: "JTablePrinter \<Rightarrow> int" where
  "line_width t = tp_indent t + (\<Sum>col\<leftarrow>tp_columns t. column_width col + cell_margin t)"

lemma col_ok_width: "col_ok col \<Longrightarrow> 0 \<le> column_width col \<and> column_width col < 2 ^ 31"
  by (auto simp: col_ok_def column_width_def)

lemma cells_width:
  assumes "list_all2 (\<lambda>col ls. list_all (\<lambda>l. int (length l) \<le> column_width col) ls) cols cells" and "list_all col_ok cols" and "0 \<le> margin"
  shows "int (length (concat (map (\<lambda>(col, ls). FormatLine (if n < length ls then ls ! n else []) (column_width col) (col_justify col) @ blanks margin)
      (zip cols cells)))) = (\<Sum>col\<leftarrow>cols. column_width col + margin)"
  using assms
proof (induction rule: list_all2_induct)
  case (Cons col cols ls cells)
  have "int (length (FormatLine (if n < length ls then ls ! n else []) (column_width col) (col_justify col))) = column_width col"
    using Cons col_ok_width [of col] by (auto simp: list_all_length intro!: format_width)
  with Cons show ?case by (simp add: blanks_def)
qed simp

lemma heading_width: "table_ok t \<Longrightarrow> int (length (heading_line t)) = line_width t"
proof -
  assume t: "table_ok t"
  have "int (length (concat (map (\<lambda>col. FormatLine (col_header col) (column_width col) JustifyCenter @ blanks (cell_margin t)) cols)))
      = (\<Sum>col\<leftarrow>cols. column_width col + cell_margin t)" if "list_all col_ok cols" for cols
    using that t by (induction cols) (auto simp: format_width col_ok_def blanks_def table_ok_def)
  with t show ?thesis by (simp add: heading_line_def line_width_def table_ok_def blanks_def)
qed

lemma row_lines_width:
  assumes "table_ok t" and "row < current_row t"
  shows "\<exists>ls. row_lines t row = Inr ls \<and> list_all (\<lambda>l. int (length l) = line_width t) ls"
proof -
  have "list_all (\<lambda>n. row < n) (map (\<lambda>col. length (col_values col)) (tp_columns t))"
    using assms by (simp only: table_ok_def) (auto simp: list_all_iff)
  then have "list_all (\<lambda>col. row < length (col_values col)) (tp_columns t)" by (simp add: list_all_iff)
  then obtain cells where cells: "all_cells row (tp_columns t) = Inr cells"
    "list_all2 (\<lambda>col ls. list_all (\<lambda>l. int (length l) \<le> column_width col) ls) (tp_columns t) cells"
    using all_cells_fit [of "tp_columns t" row] assms(1) by (auto simp: table_ok_def)
  have "int (length (row_line t cells n)) = line_width t" for n
    using cells_width [OF cells(2), of "cell_margin t" n] assms(1) by (simp add: row_line_def line_width_def table_ok_def blanks_def)
  with cells(1) show ?thesis by (simp add: row_lines_def Let_def list_all_iff)
qed

lemma all_rows_width:
  "table_ok t \<Longrightarrow> list_all (\<lambda>row. row < current_row t) rows \<Longrightarrow> \<exists>ls. all_rows t rows = Inr ls \<and> list_all (\<lambda>l. int (length l) = line_width t) ls"
proof (induction rows)
  case (Cons row rows)
  then show ?case using row_lines_width [of t row] by auto
qed simp

fun put_cells :: "string list \<Rightarrow> JTablePrinter \<Rightarrow> JTablePrinter result" where
  "put_cells [] t = Inr t"
| "put_cells (cell # cells) t = rbind (put_cell cell t) (put_cells cells)"

definition add_columns :: "(string \<times> Justify \<times> int) list \<Rightarrow> JTablePrinter \<Rightarrow> JTablePrinter" where
  "add_columns cols t = fold (\<lambda>(header, justify, width). AddColumn header justify width) cols t"

text \<open>A cell without newlines that an \<open>int\<close> can count, and a column whose heading fits.\<close>

definition plain_cell :: "string \<Rightarrow> bool" where
  "plain_cell v \<longleftrightarrow> nl \<notin> set v \<and> length v < 2 ^ 31"

definition plain_column :: "string \<times> Justify \<times> int \<Rightarrow> bool" where
  "plain_column c \<longleftrightarrow> (case c of (header, justify, width) \<Rightarrow>
     0 \<le> width \<and> width < 2 ^ 31 \<and> length header < 2 ^ 31 \<and> (width = 0 \<or> int (length header) \<le> width))"

definition filled :: "Column \<Rightarrow> string \<Rightarrow> Column" where
  "filled col cell =
     (let col1 = (if size_of_int (contents_width col) < length cell then col\<lparr>contents_width := int_of_size (length cell)\<rparr> else col) in
      col1\<lparr>col_values := col_values col1 @ [cell]\<rparr>)"

lemma col_ok_filled: "col_ok col \<Longrightarrow> plain_cell cell \<Longrightarrow> col_ok (filled col cell)"
proof -
  assume c: "col_ok col" and v: "plain_cell cell"
  have "int_of_size (length cell) = int (length cell)" using v by (simp add: plain_cell_def int_of_size_id)
  moreover have "size_of_int (contents_width col) = nat (contents_width col)" using c by (simp add: col_ok_def size_of_int_id)
  ultimately show ?thesis using c v
    by (auto simp: col_ok_def filled_def plain_cell_def column_width_def Let_def list_all_iff nat_less_iff)
qed

lemma replicate_update: "i < n \<Longrightarrow> (replicate i a @ replicate (n - i) b)[i := a] = replicate (Suc i) a @ replicate (n - Suc i) b"
proof -
  assume "i < n"
  then obtain k where n: "n = Suc (i + k)" using less_iff_Suc_add by auto
  have "(replicate i a @ b # replicate k b)[i := a] = replicate i a @ a # replicate k b" by (simp add: list_update_append)
  also have "\<dots> = replicate (Suc i) a @ replicate k b" by (simp add: replicate_app_Cons_same)
  finally show ?thesis by (simp add: n Suc_diff_le)
qed

lemma put_cell_ok:
  assumes "table_ok t" and "plain_cell cell"
  shows "\<exists>t'. put_cell cell t = Inr t' \<and> table_ok t'"
proof -
  let ?i = "current_column t" and ?cols = "tp_columns t"
  let ?cols' = "?cols[?i := filled (?cols ! ?i) cell]" and ?f = "\<lambda>col. length (col_values col)"
  have i: "?i < length ?cols" and ok: "list_all col_ok ?cols" using assms(1) by (simp_all add: table_ok_def)
  have "col_ok (filled (?cols ! ?i) cell)" using ok i assms(2) by (intro col_ok_filled) (auto simp: list_all_length)
  then have ok': "list_all col_ok ?cols'" using ok by (auto simp: list_all_iff dest: set_update_subset_insert [THEN subsetD])
  have len: "length (col_values (filled (?cols ! ?i) cell)) = Suc (current_row t)"
  proof -
    have "?f (?cols ! ?i) = map ?f ?cols ! ?i" using i by simp
    also have "\<dots> = current_row t" using assms(1) i by (simp only: table_ok_def) (simp add: nth_append)
    finally show ?thesis by (simp add: filled_def Let_def)
  qed
  have "map ?f ?cols' = (map ?f ?cols)[?i := Suc (current_row t)]" by (simp add: map_update len)
  also have "\<dots> = replicate (Suc ?i) (Suc (current_row t)) @ replicate (length ?cols - Suc ?i) (current_row t)"
    using assms(1) replicate_update [OF i] by (simp only: table_ok_def)
  finally have vals: "map ?f ?cols' = replicate (Suc ?i) (Suc (current_row t)) @ replicate (length ?cols - Suc ?i) (current_row t)" .
  define padding where "padding = (vertical_padding t \<or> (size_of_int (desired_width (?cols ! ?i)) < length cell \<and> desired_width (?cols ! ?i) \<noteq> 0))"
  have put: "put_cell cell t = Inr (if length ?cols \<le> Suc ?i
      then t\<lparr>tp_columns := ?cols', vertical_padding := padding, current_column := 0, current_row := Suc (current_row t)\<rparr>
      else t\<lparr>tp_columns := ?cols', vertical_padding := padding, current_column := Suc ?i\<rparr>)"
    using i by (simp add: put_cell_def filled_def padding_def Let_def)
  show ?thesis
  proof (cases "length ?cols \<le> Suc ?i")
    case True
    with i have "length ?cols = Suc ?i" by simp
    with put assms(1) ok' vals True show ?thesis by (simp add: table_ok_def)
  next
    case False
    with put assms(1) ok' vals show ?thesis by (simp add: table_ok_def)
  qed
qed

lemma put_cells_ok: "table_ok t \<Longrightarrow> list_all plain_cell cells \<Longrightarrow> \<exists>t'. put_cells cells t = Inr t' \<and> table_ok t'"
proof (induction cells arbitrary: t)
  case (Cons cell cells)
  then obtain t1 where "put_cell cell t = Inr t1" "table_ok t1" using put_cell_ok [of t cell] by auto
  with Cons show ?case by simp
qed simp

lemma add_columns_ok:
  assumes "list_all plain_column cols" and "cols \<noteq> []"
  shows "table_ok (add_columns cols new_JTablePrinter)"
proof -
  let ?mk = "\<lambda>(h, j, w). \<lparr>col_header = h, col_values = [], col_justify = j, desired_width = w, contents_width = int (length h), use_desired_width = (w \<noteq> 0)\<rparr>"
  have add: "add_columns cols t = t\<lparr>tp_columns := tp_columns t @ map ?mk cols\<rparr>" for t
    unfolding add_columns_def by (induction cols arbitrary: t) (auto simp: AddColumn_def)
  have "list_all col_ok (map ?mk cols)"
    using assms(1) by (auto simp: list_all_iff plain_column_def col_ok_def column_width_def)
  moreover have "map (\<lambda>col. length (col_values col)) (map ?mk cols) = replicate (length cols) 0"
    by (induction cols) auto
  ultimately show ?thesis using assms(2) by (simp add: add table_ok_def new_JTablePrinter_def)
qed

text \<open>
  Tables come out aligned.  Give a table at least one column, each heading no wider than its column if a width
  is asked for, and then any number of cells without newlines.  No cell is put outside the table, rendering reads no
  missing cell, and the heading and every line of every row have the same length, wrapped cells and incomplete
  last rows included.
\<close>

theorem table_aligned:
  assumes "list_all plain_column cols" and "cols \<noteq> []" and "list_all plain_cell cells"
  shows "\<exists>t rows. put_cells cells (add_columns cols new_JTablePrinter) = Inr t
    \<and> Render t = Inr (table_rule (top_rule t) t @ [heading_line t] @ table_rule (header_rule t) t @ rows @ table_rule (bottom_rule t) t)
    \<and> list_all (\<lambda>line. int (length line) = line_width t) (heading_line t # rows)"
proof -
  obtain t where t: "put_cells cells (add_columns cols new_JTablePrinter) = Inr t" "table_ok t"
    using put_cells_ok [OF add_columns_ok [OF assms(1,2)] assms(3)] by blast
  have "list_all (\<lambda>row. row < current_row t) [0 ..< current_row t]" by (simp add: list_all_iff)
  from all_rows_width [OF t(2) this] obtain rows where "all_rows t [0 ..< current_row t] = Inr rows"
    "list_all (\<lambda>l. int (length l) = line_width t) rows" by blast
  with t heading_width [OF t(2)] show ?thesis by (intro exI [of _ t] exI [of _ rows]) (simp add: Render_def)
qed

theorem table_aligned_witness:
  "\<exists>t rows. put_cells [''a'', ''b c''] (add_columns [(''Name'', JustifyLeft, 0), (''D'', JustifyRight, 2)] new_JTablePrinter) = Inr t
    \<and> Render t = Inr (table_rule (top_rule t) t @ [heading_line t] @ table_rule (header_rule t) t @ rows @ table_rule (bottom_rule t) t)"
proof -
  let ?cols = "[(''Name'', JustifyLeft, 0), (''D'', JustifyRight, 2)]" and ?cells = "[''a'', ''b c'']"
  have "list_all plain_column ?cols" "list_all plain_cell ?cells" by (simp_all add: plain_column_def plain_cell_def)
  from table_aligned [OF this(1) list.simps(3) this(2)] show ?thesis by (elim exE conjE, intro exI conjI) assumption+
qed

end
