(* ===== verification/ProcessorMapping.thy ===== *)
theory ProcessorMapping
  imports Codec
begin

text \<open>
  Where workers run: \<open>Utils/JProcessorMapping.h\<close> and \<open>.cc\<close>.  The pipe, the child process and the output of \<open>lscpu\<close> are
  an argument of \<open>initialize\<close>.
\<close>

datatype AffinityStrategy = AffinityNone | MemoryBound | ComputeBound

datatype LocalityStrategy = GlobalLocality | SocketLocal | NumaDomainLocal | CoreLocal | CpuLocal

record Row =
  location_id :: nat
  cpu_id :: nat
  core_id :: nat
  numa_domain_id :: nat
  socket_id :: nat

record JProcessorMapping =
  m_affinity_strategy :: AffinityStrategy
  m_locality_strategy :: LocalityStrategy
  m_mapping :: "Row list"
  m_loc_count :: nat
  m_initialized :: bool
  m_error_msg :: string

definition new_JProcessorMapping :: JProcessorMapping where
  "new_JProcessorMapping =
     \<lparr>m_affinity_strategy = AffinityNone, m_locality_strategy = GlobalLocality, m_mapping = [], m_loc_count = 1,
      m_initialized = False, m_error_msg = ''Not initialized yet''\<rparr>"

section \<open>Reading the output of lscpu\<close>

text \<open>\<open>fgets\<close> with a buffer of 300: at most 299 characters, up to and including a newline.\<close>

function fgets_all :: "string \<Rightarrow> string list" where
  "fgets_all s =
     (if s = [] then []
      else
        let l = takeWhile (\<lambda>c. c \<noteq> CHR 0x0A) s;
            n = min 299 (Suc (length l)) in
        take n s # fgets_all (drop n s))"
  by pat_completeness auto

termination fgets_all
  by (relation "measure length") auto

declare fgets_all.simps [simp del]

text \<open>
  The conversion \<open>%zu\<close> of \<open>sscanf\<close>: white space, a sign, digits; too large a number gives the largest \<open>size_t\<close>.  It
  returns the value and the rest, or \<open>None\<close> if there is no number.
\<close>

definition scan_zu :: "string \<Rightarrow> (nat \<times> string) option" where
  "scan_zu s =
     (let s1 = dropWhile isspace s;
          neg = (s1 \<noteq> [] \<and> hd s1 = CHR ''-'');
          s2 = (if s1 \<noteq> [] \<and> (hd s1 = CHR ''-'' \<or> hd s1 = CHR ''+'') then tl s1 else s1);
          ds = takeWhile isdigit s2;
          v = min (decimal ds) (size_mod - 1) in
      if ds = [] then None else Some (if neg \<and> decimal ds < size_mod then sz_sub 0 v else v, drop (length ds) s2))"

text \<open>A format of conversions separated by the given literals: the values that were converted.\<close>

fun sscanf :: "string list \<Rightarrow> string \<Rightarrow> nat list" where
  "sscanf [] s = (case scan_zu s of None \<Rightarrow> [] | Some (v, r) \<Rightarrow> [v])"
| "sscanf (lit # lits) s =
     (case scan_zu s of
        None \<Rightarrow> []
      | Some (v, r) \<Rightarrow> v # (if take (length lit) r = lit then sscanf lits (drop (length lit) r) else []))"

definition row_location :: "LocalityStrategy \<Rightarrow> nat \<Rightarrow> nat \<Rightarrow> nat \<Rightarrow> nat \<Rightarrow> nat" where
  "row_location locality cpu core numa socket = (case locality of
     CpuLocal \<Rightarrow> cpu | CoreLocal \<Rightarrow> core | NumaDomainLocal \<Rightarrow> numa | SocketLocal \<Rightarrow> socket | GlobalLocality \<Rightarrow> 0)"

definition make_row :: "LocalityStrategy \<Rightarrow> nat \<Rightarrow> nat \<Rightarrow> nat \<Rightarrow> nat \<Rightarrow> Row" where
  "make_row locality cpu core numa socket =
     \<lparr>location_id = row_location locality cpu core numa socket, cpu_id = cpu, core_id = core, numa_domain_id = numa, socket_id = socket\<rparr>"

definition parse_row :: "LocalityStrategy \<Rightarrow> string \<Rightarrow> Row option" where
  "parse_row locality buffer =
     (if buffer \<noteq> [] \<and> hd buffer = CHR 0x23 then None
      else case sscanf ['','', '','', '',''] buffer of
        [cpu, core, numa, socket] \<Rightarrow> Some (make_row locality cpu core numa socket)
      | _ \<Rightarrow>
          (case sscanf ['','', '',,''] buffer of
             [cpu, core, socket] \<Rightarrow> Some (make_row locality cpu core socket socket)
           | _ \<Rightarrow> None))"

definition add_row :: "Row option \<Rightarrow> JProcessorMapping \<Rightarrow> JProcessorMapping" where
  "add_row r m = (case r of
     None \<Rightarrow> m
   | Some row \<Rightarrow> m\<lparr>m_loc_count := (if location_id row \<ge> m_loc_count m then sz_add (location_id row) 1 else m_loc_count m),
                   m_mapping := m_mapping m @ [row]\<rparr>)"

section \<open>initialize\<close>

datatype child_status = Exited nat | Abnormal

datatype lscpu = NoPipe | NoFork | Lscpu string child_status

definition apply_affinity :: "AffinityStrategy \<Rightarrow> Row list \<Rightarrow> Row list" where
  "apply_affinity affinity rows = (case affinity of
     ComputeBound \<Rightarrow> sort_key cpu_id rows
   | MemoryBound \<Rightarrow> sort_key numa_domain_id (sort_key cpu_id rows)
   | AffinityNone \<Rightarrow> rows)"

definition read_rows :: "LocalityStrategy \<Rightarrow> string \<Rightarrow> JProcessorMapping \<Rightarrow> JProcessorMapping" where
  "read_rows locality out m =
     fold (\<lambda>buffer. add_row (parse_row locality buffer)) (fgets_all out) (m\<lparr>m_loc_count := 1, m_mapping := []\<rparr>)"

definition finish_mapping :: "AffinityStrategy \<Rightarrow> child_status \<Rightarrow> JProcessorMapping \<Rightarrow> JProcessorMapping" where
  "finish_mapping affinity status m = (case status of
     Abnormal \<Rightarrow> m\<lparr>m_error_msg := ''lscpu child process returned abnormally''\<rparr>
   | Exited code \<Rightarrow>
       if code \<noteq> 0 then m\<lparr>m_error_msg := ''lscpu child process returned with an exit code of '' @ show_nat code\<rparr>
       else if m_mapping m = [] then m\<lparr>m_error_msg := ''Unable to parse lscpu output''\<rparr>
       else m\<lparr>m_mapping := apply_affinity affinity (m_mapping m), m_initialized := True\<rparr>)"

definition mapping_initialize :: "lscpu \<Rightarrow> AffinityStrategy \<Rightarrow> LocalityStrategy \<Rightarrow> JProcessorMapping \<Rightarrow> JProcessorMapping" where
  "mapping_initialize cpu affinity locality m =
     (let m0 = m\<lparr>m_affinity_strategy := affinity, m_locality_strategy := locality\<rparr> in
      if affinity = AffinityNone \<and> locality = GlobalLocality then m0\<lparr>m_error_msg := ''''\<rparr>
      else case cpu of
        NoPipe \<Rightarrow> m0\<lparr>m_error_msg := ''Unable to open pipe''\<rparr>
      | NoFork \<Rightarrow> m0\<lparr>m_error_msg := ''Unable to fork''\<rparr>
      | Lscpu out status \<Rightarrow> finish_mapping affinity status (read_rows locality out m0))"

text \<open>\<open>%\<close> by the size of an empty vector is a division by zero.\<close>

definition worker_row :: "JProcessorMapping \<Rightarrow> nat \<Rightarrow> Row result" where
  "worker_row m worker_id =
     (if m_mapping m = [] then Inl (UndefinedBehaviour ''% 0'') else Inr (m_mapping m ! (worker_id mod length (m_mapping m))))"

definition get_cpu_id :: "JProcessorMapping \<Rightarrow> nat \<Rightarrow> nat result" where
  "get_cpu_id m worker_id = (if m_initialized m then rbind (worker_row m worker_id) (\<lambda>row. Inr (cpu_id row)) else Inr worker_id)"

definition get_loc_id :: "JProcessorMapping \<Rightarrow> nat \<Rightarrow> nat result" where
  "get_loc_id m worker_id = (if m_initialized m then rbind (worker_row m worker_id) (\<lambda>row. Inr (location_id row)) else Inr 0)"

definition get_loc_count :: "JProcessorMapping \<Rightarrow> nat" where
  "get_loc_count m = m_loc_count m"

section \<open>Locations are in range\<close>

definition located :: "JProcessorMapping \<Rightarrow> bool" where
  "located m \<longleftrightarrow> 0 < m_loc_count m \<and> list_all (\<lambda>row. location_id row < m_loc_count m) (m_mapping m)"

lemma located_add: "located m \<Longrightarrow> (\<And>row. r = Some row \<Longrightarrow> Suc (location_id row) < size_mod) \<Longrightarrow> located (add_row r m)"
  by (auto simp: located_def add_row_def sz_add_def list_all_iff split: option.split)

lemma located_fold:
  assumes "located m" and "list_all (\<lambda>b. case parse_row l b of None \<Rightarrow> True | Some row \<Rightarrow> Suc (location_id row) < size_mod) bs"
  shows "located (fold (\<lambda>b. add_row (parse_row l b)) bs m)"
  using assms by (induction bs arbitrary: m) (auto intro!: located_add split: option.splits)

lemma apply_affinity_set: "mset (apply_affinity a rows) = mset rows"
  by (simp add: apply_affinity_def split: AffinityStrategy.split)

lemma worker_row_located:
  assumes "located m" and "m_mapping m \<noteq> []"
  shows "\<exists>row. worker_row m w = Inr row \<and> location_id row < m_loc_count m"
  using assms by (simp add: worker_row_def located_def list_all_length)

text \<open>Location numbers in the output that can be counted.\<close>

definition countable_rows :: "LocalityStrategy \<Rightarrow> lscpu \<Rightarrow> bool" where
  "countable_rows l cpu = (case cpu of Lscpu out st \<Rightarrow>
     list_all (\<lambda>b. case parse_row l b of None \<Rightarrow> True | Some row \<Rightarrow> Suc (location_id row) < size_mod) (fgets_all out) | _ \<Rightarrow> True)"

lemma read_rows_located:
  assumes "countable_rows locality (Lscpu out status)"
  shows "located (read_rows locality out m)"
  using assms unfolding read_rows_def by (intro located_fold) (simp_all add: located_def countable_rows_def)

lemma read_rows_initialized: "m_initialized (read_rows locality out m) = m_initialized m"
proof -
  have "m_initialized (fold (\<lambda>b. add_row (parse_row locality b)) bs x) = m_initialized x" for bs x
    by (induction bs arbitrary: x) (auto simp: add_row_def split: option.split)
  then show ?thesis by (simp add: read_rows_def)
qed

lemma finish_mapping_located:
  assumes "located m"
  shows "located (finish_mapping affinity status m)"
    and "\<not> m_initialized m \<Longrightarrow> m_initialized (finish_mapping affinity status m) \<Longrightarrow> m_mapping (finish_mapping affinity status m) \<noteq> []"
proof -
  have set: "set (apply_affinity affinity (m_mapping m)) = set (m_mapping m)"
    by (rule mset_eq_setD [OF apply_affinity_set])
  then show "located (finish_mapping affinity status m)"
    using assms by (cases status) (simp_all add: finish_mapping_def located_def list_all_iff)
  assume "\<not> m_initialized m" and "m_initialized (finish_mapping affinity status m)"
  then show "m_mapping (finish_mapping affinity status m) \<noteq> []"
    using set by (cases status) (auto simp: finish_mapping_def split: if_splits)
qed

lemma initialize_located:
  assumes "countable_rows locality cpu" and "\<not> m_initialized m" and "0 < m_loc_count m"
    and "m' = mapping_initialize cpu affinity locality m"
  shows "(m_initialized m' \<longrightarrow> located m' \<and> m_mapping m' \<noteq> []) \<and> 0 < m_loc_count m'"
proof (cases "(affinity = AffinityNone \<and> locality = GlobalLocality) \<or> cpu = NoPipe \<or> cpu = NoFork")
  case True
  then show ?thesis using assms by (auto simp: mapping_initialize_def Let_def)
next
  case False
  then obtain out status where cpu: "cpu = Lscpu out status" by (cases cpu) auto
  let ?m0 = "m\<lparr>m_affinity_strategy := affinity, m_locality_strategy := locality\<rparr>"
  let ?m1 = "read_rows locality out ?m0"
  have "m' = finish_mapping affinity status ?m1" using False cpu assms(4) by (auto simp: mapping_initialize_def Let_def)
  moreover have "located ?m1" using assms(1) unfolding cpu by (rule read_rows_located)
  moreover have "\<not> m_initialized ?m1" using assms(2) by (simp add: read_rows_initialized)
  ultimately show ?thesis using finish_mapping_located [of ?m1 affinity status] by (auto simp: located_def)
qed

text \<open>
  C39: every worker gets a location that exists.  Whatever \<open>lscpu\<close> prints and however it ends, after the first
  \<open>initialize\<close> looking up the CPU and the location of a worker succeeds, and the location is below the number of
  locations, for which the mailboxes and pools have been made.
\<close>

theorem worker_locations:
  assumes "countable_rows locality cpu" and "m = mapping_initialize cpu affinity locality new_JProcessorMapping"
  shows "\<exists>l c. get_loc_id m worker_id = Inr l \<and> l < get_loc_count m \<and> get_cpu_id m worker_id = Inr c"
proof -
  have m: "(m_initialized m \<longrightarrow> located m \<and> m_mapping m \<noteq> []) \<and> 0 < m_loc_count m"
    using initialize_located [OF assms(1) _ _ assms(2)] by (simp add: new_JProcessorMapping_def)
  show ?thesis
  proof (cases "m_initialized m")
    case True
    then obtain row where "worker_row m worker_id = Inr row" "location_id row < m_loc_count m" using m worker_row_located by blast
    with True show ?thesis by (simp add: get_loc_id_def get_cpu_id_def get_loc_count_def)
  next
    case False
    with m show ?thesis by (simp add: get_loc_id_def get_cpu_id_def get_loc_count_def)
  qed
qed

section \<open>Order of the workers\<close>

lemma stable_lex:
  assumes "sorted (map f xs)"
  shows "sorted_wrt (\<lambda>x y. g x < g y \<or> g x = g y \<and> f x \<le> f y) (sort_key g xs)"
proof -
  have sub: "sorted (map f [x \<leftarrow> sort_key g xs. g x = k])" for k
    using assms by (simp add: sort_key_stable sorted_filter)
  have "sorted_wrt (\<lambda>x y. g x < g y \<or> g x = g y \<and> f x \<le> f y) ys"
    if "sorted (map g ys)" and "\<And>k. sorted (map f [x \<leftarrow> ys. g x = k])" for ys
    using that
  proof (induction ys)
    case (Cons y ys)
    have "g y < g x \<or> g y = g x \<and> f y \<le> f x" if "x \<in> set ys" for x
      using Cons.prems(1) Cons.prems(2) [of "g y"] that by (cases "g y = g x") (auto simp: le_less)
    moreover have "sorted (map f [x \<leftarrow> ys. g x = k])" for k using Cons.prems(2) [of k] by (auto split: if_splits)
    ultimately show ?case using Cons by simp
  qed simp
  from this [OF _ sub] show ?thesis by simp
qed

text \<open>
  The affinity strategy only orders the CPUs.  No row is lost or duplicated; \<open>ComputeBound\<close> orders by CPU, and
  \<open>MemoryBound\<close>, which sorts twice, by NUMA domain and within a domain by CPU.
\<close>

theorem affinity_orders:
  "mset (apply_affinity a rows) = mset rows
    \<and> sorted (map cpu_id (apply_affinity ComputeBound rows))
    \<and> sorted_wrt (\<lambda>x y. numa_domain_id x < numa_domain_id y \<or> numa_domain_id x = numa_domain_id y \<and> cpu_id x \<le> cpu_id y)
        (apply_affinity MemoryBound rows)"
  using stable_lex [of cpu_id "sort_key cpu_id rows" numa_domain_id] by (simp add: apply_affinity_set) (simp add: apply_affinity_def)

text \<open>
  Initializing again can break the mapping.  \<open>m_initialized\<close> is never reset: if a second \<open>initialize\<close> runs \<open>lscpu\<close> and
  finds no row in its output, the rows are gone, and the next look-up divides by the size of the empty table.
\<close>

theorem second_initialize:
  assumes "m_initialized m" and "\<not> (affinity = AffinityNone \<and> locality = GlobalLocality)"
    and "list_all (\<lambda>b. parse_row locality b = None) (fgets_all out)" and "m' = mapping_initialize (Lscpu out status) affinity locality m"
  shows "get_loc_id m' worker_id = Inl (UndefinedBehaviour ''% 0'')"
proof -
  let ?m0 = "m\<lparr>m_affinity_strategy := affinity, m_locality_strategy := locality\<rparr>"
  have "fold (\<lambda>b. add_row (parse_row locality b)) bs x = x" if "list_all (\<lambda>b. parse_row locality b = None) bs" for bs x
    using that by (induction bs) (simp_all add: add_row_def)
  then have "read_rows locality out ?m0 = ?m0\<lparr>m_loc_count := 1, m_mapping := []\<rparr>" using assms(3) by (simp add: read_rows_def)
  moreover have "m' = finish_mapping affinity status (read_rows locality out ?m0)"
    using assms(2,4) by (auto simp: mapping_initialize_def Let_def)
  ultimately have "m_initialized m' \<and> m_mapping m' = []"
    using assms(1) by (cases status) (simp_all add: finish_mapping_def)
  then show ?thesis by (simp add: get_loc_id_def worker_row_def)
qed

definition sample_lscpu :: lscpu where
  "sample_lscpu = Lscpu (''# CPU,Core,Node,Socket'' @ CHR 0x0A # ''0,0,,0'' @ CHR 0x0A # ''1,0,,0'' @ [CHR 0x0A]) (Exited 0)"

lemma sample_lscpu_rows: "countable_rows CpuLocal sample_lscpu"
proof -
  have "fgets_all (''# CPU,Core,Node,Socket'' @ CHR 0x0A # ''0,0,,0'' @ CHR 0x0A # ''1,0,,0'' @ [CHR 0x0A])
      = [''# CPU,Core,Node,Socket'' @ [CHR 0x0A], ''0,0,,0'' @ [CHR 0x0A], ''1,0,,0'' @ [CHR 0x0A]]"
    by (simp add: fgets_all.simps)
  moreover have "parse_row CpuLocal (''# CPU,Core,Node,Socket'' @ [CHR 0x0A]) = None" by (simp add: parse_row_def)
  moreover have "parse_row CpuLocal (''0,0,,0'' @ [CHR 0x0A]) = Some (make_row CpuLocal 0 0 0 0)"
    "parse_row CpuLocal (''1,0,,0'' @ [CHR 0x0A]) = Some (make_row CpuLocal 1 0 0 0)"
    by (simp_all add: parse_row_def scan_zu_def isspace_def isdigit_def decimal_def digit_value_def size_mod_def Let_def)
  ultimately show ?thesis
    by (simp add: countable_rows_def sample_lscpu_def make_row_def row_location_def size_mod_def)
qed

theorem worker_locations_witness:
  "\<exists>l c. get_loc_id (mapping_initialize sample_lscpu ComputeBound CpuLocal new_JProcessorMapping) 5 = Inr l
    \<and> l < get_loc_count (mapping_initialize sample_lscpu ComputeBound CpuLocal new_JProcessorMapping)
    \<and> get_cpu_id (mapping_initialize sample_lscpu ComputeBound CpuLocal new_JProcessorMapping) 5 = Inr c"
  using worker_locations [OF sample_lscpu_rows refl] .

theorem second_initialize_witness:
  "get_loc_id (mapping_initialize (Lscpu [] (Exited 1)) ComputeBound CpuLocal (new_JProcessorMapping\<lparr>m_initialized := True\<rparr>)) 0
    = Inl (UndefinedBehaviour ''% 0'')"
  by (rule second_initialize [OF _ _ _ refl]) (simp_all add: fgets_all.simps)

end
