(* ===== verification/Spec2Isabelle.thy ===== *)
theory Spec2Isabelle
  imports EventSource TopologyBuilder PerfMetrics ConfigFile Md5 TablePrinter ProcessorMapping
begin

text \<open>
  A verification development of JANA2, the multi-threaded event reconstruction framework whose library is
  under \<open>src/src/libraries/JANA\<close>.  File names below are relative to that directory.

  \<^bold>\<open>The program.\<close>  A job streams events through a graph of arrows.  Events come from pools
  (\<open>Topology/JPool.h\<close>) and travel through bounded mailboxes (\<open>Topology/JMailbox.h\<close>).  Arrows
  (\<open>Topology/J*Arrow.*\<close>) pull an event from a place, let a component act on it and push it on: a source
  arrow asks event sources (\<open>JEventSource.h\<close>), a processor arrow calls event processors
  (\<open>JEventProcessor.h\<close>), unfold and fold arrows split events into children of a lower level
  (\<open>Utils/JEventLevel.h\<close>) and put them together again, subevent arrows do so within an event.  Each event
  (\<open>JEvent.h\<close>) owns a set of factories (\<open>JFactory*.h\<close>, \<open>JMultifactory.*\<close>) that compute data on demand and
  remember it, and a recorder of who called whom (\<open>Utils/JCallGraphRecorder.*\<close>).  The topology builder
  (\<open>Topology/JTopologyBuilder.*\<close>) creates pools, mailboxes and arrows for the components that are loaded.
  The scheduler (\<open>Engine/JScheduler.*\<close>) hands arrows to workers (\<open>Engine/JWorker.*\<close>) and decides when an arrow
  and when the topology is finished.

  \<^bold>\<open>Conventions.\<close>  A struct or class is a \<^theory_text>\<open>record\<close>, an enum a \<^theory_text>\<open>datatype\<close>.  Methods return the changed object.
  A failed \<open>assert\<close>, a thrown \<open>JException\<close> and an access out of bounds are values of the type \<open>fault\<close> of
  \<open>Prelude\<close>, and such methods return \<open>fault + 'a\<close>.  \<open>size_t\<close> is \<^typ>\<open>nat\<close>, and the subtractions and additions
  whose wrap-around matters are written with \<open>sz_sub\<close> and \<open>sz_add\<close> modulo \<open>2 ^ 64\<close>; addresses are \<^typ>\<open>nat\<close>, a
  nullable pointer is an option with \<open>nullptr\<close> for \<open>None\<close>; \<open>std::map\<close> is a sorted association list
  (\<open>OrdMap\<close>).  A mutex makes the method that takes it one step, and concurrency is the interleaving of such steps
  as an \<^theory_text>\<open>inductive\<close> relation.  Code of users (callbacks of sources, processors, factories, unfolders), the
  C++ allocator and the clock are parameters: user code decides from the history of calls what it throws,
  emits and returns.  Logging is left out.

  \<^bold>\<open>Theories\<close>, in the order of import.
  \<^item> \<open>Prelude\<close>: faults and their monad, pointers, \<open>size_t\<close> arithmetic, list lemmas.
  \<^item> \<open>Mailbox\<close> (\<open>Topology/JMailbox.h\<close>): every method of a local queue and of a mailbox.  With the locale
    \<open>reserving_queue\<close>, under any interleaving of clients that push what they reserved, items plus
    reservations stay within the capacity, a push that redeems a reservation succeeds, and the queue is first
    in, first out.  Wrapped capacities and \<open>try_push\<close> break this and are shown to.
  \<^item> \<open>Pool\<close> (\<open>Topology/JPool.h\<close>): locale \<open>item_pool\<close>; no item is held twice, \<open>put\<close> finds the location an item
    came from.
  \<^item> \<open>EventLevel\<close>, \<open>ArrowMetrics\<close> (\<open>Topology/JArrowMetrics.h\<close>): levels and their order; metrics flushed between
    objects are conserved.
  \<^item> \<open>OrdMap\<close>: \<open>std::map\<close> (locale \<open>key_store\<close>); \<open>CallGraph\<close> (\<open>Utils/JCallGraphRecorder.*\<close>): recording of
    nested calls and Kahn's algorithm.
  \<^item> \<open>Component\<close> (\<open>Omni/JComponent.h\<close>, \<open>JException.h\<close>): exception wrapping and the life-cycle protocol; locale
    \<open>run_driven\<close> says once what a stream of events means for anything that reacts to run changes, and is
    interpreted for factories, processors and multifactories.
  \<^item> \<open>Factory\<close>, \<open>FactorySet\<close>, \<open>Event\<close>: creation on demand, memoisation, ownership, the two indices of a factory
    set, parents and reference counts of events.
  \<^item> \<open>EventSource\<close> (with \<open>Topology/JEventSourceArrow.*\<close>): both callback styles refine one abstract reader with skip
    and limit; the source arrow reads its sources in order.
  \<^item> \<open>Processor\<close>: event processors and their arrow, multifactories, unfolders.
  \<^item> \<open>Arrow\<close> (\<open>Topology/JArrow.h\<close>, \<open>JPipelineArrow.h\<close>): places, \<open>pull\<close>, \<open>push\<close>, \<open>revert\<close> and the pipeline
    arrow; \<open>world_sound\<close> is the book-keeping of all events and reservations of a world of mailboxes and pools,
    and any interleaving of pipeline arrows keeps it.
  \<^item> \<open>Arrows\<close>: junction, fold, unfold, subevent and map arrows; the same accounting, and where it fails.
  \<^item> \<open>Scheduler\<close>: assignment of arrows to workers, activation, pausing and draining; \<open>sched_reachable\<close> are the
    states under any interleaving of all its methods.
  \<^item> \<open>TopologyBuilder\<close>: construction of the default topologies; they are pipelines, so the theorems about the
    scheduler and about networks of pipeline arrows apply to them.
  \<^item> \<open>Worker\<close> (\<open>Engine/JWorker.*\<close>, \<open>JWorkerMetrics.h\<close>, \<open>JArrowProcessingController.*\<close>): the loop of a worker with
    its back-off, the methods of the controller, and \<open>engine_step\<close>, any interleaving of threads, controller and
    inspector.  It refines the scheduler, so sequential arrows are executed by one thread at a time; a worker
    that gets nothing done gives up, and none stays with its arrow for ever.
  \<^item> \<open>PerfMetrics\<close> (\<open>Engine/JPerfMetrics.*\<close>, \<open>measure_performance\<close>): the stopwatch of the topology; the scheduler
    uses it without making it throw, and a measurement counts every event once.
  \<^item> \<open>Codec\<close>, \<open>ParameterManager\<close>, \<open>ConfigFile\<close> (\<open>Services/JParameterManager.*\<close>): parameter values as strings (locales
    \<open>stringifiable\<close> and \<open>streamable\<close>, interpreted for strings, booleans, integers and their vectors), setting,
    declaring, getting and selecting parameters, and configuration files, which are read back as they were
    written unless a description, a value or the length of a line gets in the way.
  \<^item> \<open>Md5\<close> (\<open>Compatibility/md5.*\<close>): the checksum of geometry files, equal to RFC 1321 for every way to cut a message
    into pieces.
  \<^item> \<open>TablePrinter\<close> (\<open>Utils/JTablePrinter.*\<close>): cells are wrapped without loss, and the lines of a table have equal length.
  \<^item> \<open>ProcessorMapping\<close> (\<open>Utils/JProcessorMapping.*\<close>): the table read from the output of \<open>lscpu\<close> gives every worker a location
    below the number of locations.

  \<^bold>\<open>Bounds and fuel.\<close>  \<open>run_arrow\<close> of the scheduler takes the depth of the recursion as fuel, because the source does
  not return on a cyclic graph; for the topologies the builder creates the number of arrows is enough
  (\<open>topology_pipelined\<close>).  The loop of \<open>checkout_unprotected\<close> gets as many rounds as there are arrows, and
  \<open>next_assignment_fair\<close> shows that they suffice.  The other loops are structural or have termination
  proofs.  Queue thresholds and counts are below \<open>2 ^ 64\<close> where a theorem needs it, and its hypotheses say so.

  \<^bold>\<open>Not modelled.\<close>  Output (logging, inspectors, summaries, tables), the operating system (plugins, CPU
  topology, signals, files), what depends on external libraries (Podio, ROOT, CCDB, Xerces, ZeroMQ), the
  memory model below the granularity of a critical section, and programs, plugins, examples and Python
  bindings, which use the library.
\<close>

end
